(* ===== verification/Prelude.thy ===== *)
theory Prelude
  imports Main "HOL-Library.Word" "HOL-Library.Multiset"
begin

text \<open>
  The shared vocabulary of the development.

  Every program of the repository is a set of threads or processes whose atomic
  actions interleave. A program is modelled as a labelled machine: a function
  \<open>step :: 'l \<Rightarrow> 's \<Rightarrow> 's option\<close> that performs the atomic action named by the label (which
  thread moves, and the outcome of whatever the scheduler, the kernel or the standard
  leaves open), or returns \<open>None\<close> where that action is not enabled: the thread has
  finished, is blocked, or the choice is impossible. A schedule is a list of labels.

  Three locales hold the reasoning common to all programs: \<open>machine_inv\<close> (an inductive
  invariant holds in every reachable state), \<open>machine_live\<close> (from every reachable state a
  final state can still be reached, so there is no deadlock) and \<open>machine_term\<close> (every
  schedule is finite and every maximal one ends in a final state).
\<close>

section \<open>Labelled machines\<close>

type_synonym ('l, 's) machine = "'l \<Rightarrow> 's \<Rightarrow> 's option"

fun run :: "('l, 's) machine \<Rightarrow> 'l list \<Rightarrow> 's \<Rightarrow> 's option" where
  "run step [] s = Some s"
| "run step (l # ls) s = (case step l s of None \<Rightarrow> None | Some t \<Rightarrow> run step ls t)"

inductive reach :: "('l, 's) machine \<Rightarrow> 's \<Rightarrow> 's \<Rightarrow> bool"
  for step :: "('l, 's) machine" and s0 :: 's where
  reach_init: "reach step s0 s0"
| reach_step: "reach step s0 s \<Longrightarrow> step l s = Some t \<Longrightarrow> reach step s0 t"

definition stuck :: "('l, 's) machine \<Rightarrow> 's \<Rightarrow> bool" where
  "stuck step s \<longleftrightarrow> (\<forall>l. step l s = None)"

declare reach_init [intro, simp]

lemma run_append:
  "run step (ls @ ms) s = (case run step ls s of None \<Rightarrow> None | Some t \<Rightarrow> run step ms t)"
  by (induction ls arbitrary: s) (auto split: option.splits)

lemma run_append_Some:
  "run step ls s = Some t \<Longrightarrow> run step ms t = Some u \<Longrightarrow> run step (ls @ ms) s = Some u"
  by (simp add: run_append)

lemma run_snoc:
  "run step (ls @ [l]) s = (case run step ls s of None \<Rightarrow> None | Some t \<Rightarrow> step l t)"
  by (auto simp: run_append split: option.splits)

lemma reach_trans [trans]: "reach step s0 s \<Longrightarrow> reach step s t \<Longrightarrow> reach step s0 t"
  by (rotate_tac, induction rule: reach.induct) (auto intro: reach_step)

lemma run_imp_reach: "run step ls s = Some t \<Longrightarrow> reach step s t"
proof (induction ls arbitrary: s)
  case Nil
  then show ?case by simp
next
  case (Cons l ls)
  then obtain u where u: "step l s = Some u" and r: "run step ls u = Some t"
    by (auto split: option.splits)
  have "reach step s u" using reach_init u by (rule reach_step)
  then show ?case using Cons.IH [OF r] by (rule reach_trans)
qed

lemma reach_imp_run: "reach step s0 s \<Longrightarrow> \<exists>ls. run step ls s0 = Some s"
proof (induction rule: reach.induct)
  case reach_init
  have "run step [] s0 = Some s0" by simp
  then show ?case by blast
next
  case (reach_step s l t)
  then obtain ls where "run step ls s0 = Some s" by blast
  with reach_step.hyps have "run step (ls @ [l]) s0 = Some t" by (simp add: run_snoc)
  then show ?case by blast
qed

lemma reach_iff_run: "reach step s0 s \<longleftrightarrow> (\<exists>ls. run step ls s0 = Some s)"
  using run_imp_reach reach_imp_run by metis

section \<open>Invariants, liveness and termination of machines\<close>

locale machine_inv =
  fixes step :: "('l, 's) machine"
    and s0 :: 's
    and inv :: "'s \<Rightarrow> bool"
  assumes inv_init: "inv s0"
    and inv_step: "inv s \<Longrightarrow> step l s = Some t \<Longrightarrow> inv t"
begin

lemma reach_inv: "reach step s0 s \<Longrightarrow> inv s"
  by (induction rule: reach.induct) (auto intro: inv_init inv_step)

lemma run_inv: "run step ls s0 = Some s \<Longrightarrow> inv s"
  by (rule reach_inv) (rule run_imp_reach)

lemma reach_inv_from: "inv s \<Longrightarrow> reach step s t \<Longrightarrow> inv t"
  by (rotate_tac, induction rule: reach.induct) (auto intro: inv_step)

end

text \<open>
  \<open>machine_live\<close>: in every state that is not final some thread can make progress, measured
  by \<open>rank\<close>. Other threads may spin (fail a compare-and-exchange, find a stack empty)
  without progress, so the machine need not terminate under every schedule, but a
  final state stays reachable from everywhere: there is neither deadlock nor a state
  from which every continuation spins for ever.
\<close>

locale machine_live = machine_inv step s0 inv
  for step :: "('l, 's) machine" and s0 :: 's and inv :: "'s \<Rightarrow> bool" +
  fixes rank :: "'s \<Rightarrow> nat"
    and final :: "'s \<Rightarrow> bool"
  assumes progress: "inv s \<Longrightarrow> \<not> final s \<Longrightarrow> \<exists>l t. step l s = Some t \<and> rank t < rank s"
begin

lemma final_reachable_inv: "inv s \<Longrightarrow> \<exists>t. reach step s t \<and> final t"
proof (induction "rank s" arbitrary: s rule: less_induct)
  case less
  show ?case
  proof (cases "final s")
    case True
    then show ?thesis by auto
  next
    case False
    with less.prems have "\<exists>l t. step l s = Some t \<and> rank t < rank s" by (rule progress)
    then obtain l t where t: "step l s = Some t" and d: "rank t < rank s" by blast
    have "inv t" using less.prems t by (rule inv_step)
    with d have "\<exists>u. reach step t u \<and> final u" by (rule less.hyps)
    then obtain u where u: "reach step t u" "final u" by blast
    have "reach step s t" using reach_init t by (rule reach_step)
    then have "reach step s u" using u(1) by (rule reach_trans)
    with u(2) show ?thesis by blast
  qed
qed

lemma final_reachable: "reach step s0 s \<Longrightarrow> \<exists>t. reach step s t \<and> final t"
  by (rule final_reachable_inv) (rule reach_inv)

lemma stuck_final: "reach step s0 s \<Longrightarrow> stuck step s \<Longrightarrow> final s"
proof (rule ccontr)
  assume r: "reach step s0 s" and st: "stuck step s" and "\<not> final s"
  then have "\<exists>l t. step l s = Some t \<and> rank t < rank s" by (blast intro: progress reach_inv)
  with st show False by (auto simp: stuck_def)
qed

end

text \<open>
  \<open>machine_term\<close>: every step makes progress. Then every schedule is finite, and by
  \<open>progress\<close> a schedule that cannot be extended has reached a final state.
\<close>

locale machine_term = machine_inv step s0 inv
  for step :: "('l, 's) machine" and s0 :: 's and inv :: "'s \<Rightarrow> bool" +
  fixes rank :: "'s \<Rightarrow> nat"
    and final :: "'s \<Rightarrow> bool"
  assumes enabled: "inv s \<Longrightarrow> \<not> final s \<Longrightarrow> \<exists>l t. step l s = Some t"
    and decrease: "inv s \<Longrightarrow> step l s = Some t \<Longrightarrow> rank t < rank s"
begin

lemma live: "inv s \<Longrightarrow> \<not> final s \<Longrightarrow> \<exists>l t. step l s = Some t \<and> rank t < rank s"
  using enabled decrease by blast

end

sublocale machine_term \<subseteq> live: machine_live step s0 inv rank final
  by unfold_locales (rule live)

context machine_term
begin

lemma run_length_inv: "inv s \<Longrightarrow> run step ls s = Some t \<Longrightarrow> length ls + rank t \<le> rank s"
proof (induction ls arbitrary: s)
  case Nil
  then show ?case by simp
next
  case (Cons l ls)
  then obtain u where u: "step l s = Some u" and r: "run step ls u = Some t"
    by (auto split: option.splits)
  have "inv u" using Cons.prems(1) u by (rule inv_step)
  then have "length ls + rank t \<le> rank u" using r by (rule Cons.IH)
  moreover have "rank u < rank s" using Cons.prems(1) u by (rule decrease)
  ultimately show ?case by simp
qed

lemma run_length: "run step ls s0 = Some t \<Longrightarrow> length ls \<le> rank s0"
  using run_length_inv [OF inv_init] by fastforce

lemma term_final_reachable: "reach step s0 s \<Longrightarrow> \<exists>t. reach step s t \<and> final t"
  by (rule live.final_reachable)

lemma term_stuck_final: "reach step s0 s \<Longrightarrow> stuck step s \<Longrightarrow> final s"
  by (rule live.stuck_final)

end

section \<open>Two threads\<close>

text \<open>Most example programs start exactly two threads, \<open>thread1\<close> and \<open>thread2\<close>.\<close>

datatype thread = T1 | T2

fun other :: "thread \<Rightarrow> thread" where
  "other T1 = T2"
| "other T2 = T1"

lemma other_other [simp]: "other (other t) = t"
  by (cases t) auto

lemma other_neq [simp]: "other t \<noteq> t" "t \<noteq> other t"
  by (cases t; simp)+

lemma neq_other: "u \<noteq> t \<longleftrightarrow> u = other t"
  by (cases t; cases u; simp)

lemma all_thread: "(\<forall>t. P t) \<longleftrightarrow> P T1 \<and> P T2"
  by (metis thread.exhaust)

lemma ex_thread: "(\<exists>t. P t) \<longleftrightarrow> P T1 \<or> P T2"
  by (metis thread.exhaust)

lemma owned_iff: "v \<noteq> None \<longleftrightarrow> v = Some T1 \<or> v = Some T2"
  by (metis not_None_eq option.distinct(1) thread.exhaust)

lemma all_thread_via: "(\<forall>u. P u) \<longleftrightarrow> P t \<and> P (other t)"
  by (cases t) (auto simp: all_thread)

lemma ex_thread_via: "(\<exists>u. P u) \<longleftrightarrow> P t \<or> P (other t)"
  by (cases t) (auto simp: ex_thread)

section \<open>Any number of threads\<close>

type_synonym tid = nat

section \<open>Sums over finitely many threads\<close>

lemma sum_upd:
  fixes f :: "'a \<Rightarrow> 'b::comm_monoid_add"
  assumes "finite A" and "a \<in> A"
  shows "sum (f(a := v)) A = v + sum f (A - {a})"
proof -
  have "sum (f(a := v)) A = (f(a := v)) a + sum (f(a := v)) (A - {a})"
    using assms by (rule sum.remove)
  also have "sum (f(a := v)) (A - {a}) = sum f (A - {a})"
    by (rule sum.cong) auto
  finally show ?thesis by simp
qed

lemma sum_change:
  fixes f g :: "nat \<Rightarrow> 'b::comm_monoid_add"
  assumes "w < n" "\<And>u. u \<noteq> w \<Longrightarrow> f u = g u"
  shows "(\<Sum>u<n. f u) + g w = (\<Sum>u<n. g u) + f w"
proof -
  have "sum f ({..<n} - {w}) = sum g ({..<n} - {w})" by (rule sum.cong) (use assms(2) in auto)
  then show ?thesis using assms(1) by (simp add: sum.remove [of "{..<n}" w] ac_simps)
qed

lemma sum_weight_decrease:
  fixes f :: "nat \<Rightarrow> nat"
  assumes "w < n" "f w < g w" "\<And>u. u \<noteq> w \<Longrightarrow> f u = g u"
  shows "(\<Sum>u<n. f u) < (\<Sum>u<n. g u)"
proof (rule sum_strict_mono_ex1)
  show "\<forall>u\<in>{..<n}. f u \<le> g u" using assms(2,3) by (metis less_imp_le order_refl)
  show "\<exists>u\<in>{..<n}. f u < g u" using assms(1,2) by blast
qed simp

section \<open>Decimal output\<close>

text \<open>\<open>std::format("{}", n)\<close> and \<open>operator<<\<close> print an integer in decimal.\<close>

definition digit :: "nat \<Rightarrow> char" where
  "digit d = ''0123456789'' ! d"

fun show_nat :: "nat \<Rightarrow> string" where
  "show_nat n = (if n < 10 then [digit n] else show_nat (n div 10) @ [digit (n mod 10)])"

declare show_nat.simps [simp del]

definition show_int :: "int \<Rightarrow> string" where
  "show_int i = (if i < 0 then CHR ''-'' # show_nat (nat (- i)) else show_nat (nat i))"

definition show_bool :: "bool \<Rightarrow> string" where
  "show_bool b = (if b then ''true'' else ''false'')"

end
