(* ===== verification/Harness.thy ===== *)
theory Harness
  imports Prelude
begin

text \<open>
  The measuring loop shared by the example programs of \<^verbatim>\<open>synchronization_primitives\<close>: each
  \<^verbatim>\<open>main\<close> repeats an experiment a fixed number of times (\<^verbatim>\<open>for (int run{}; run < 1'000;
  ++run)\<close>), compares the shared variable with the value a correct program leaves in it,
  counts the outcomes in two counters and prints them. The outcome of one experiment
  depends on the scheduler, so it is a predicate.
\<close>

section \<open>Repeated experiments\<close>

inductive runs :: "('x \<Rightarrow> bool) \<Rightarrow> ('x \<Rightarrow> bool) \<Rightarrow> nat \<Rightarrow> nat \<Rightarrow> nat \<Rightarrow> bool"
  for outcome :: "'x \<Rightarrow> bool" and ok :: "'x \<Rightarrow> bool" where
  runs_start: "runs outcome ok 0 0 0"
| runs_correct: "runs outcome ok n c i \<Longrightarrow> outcome x \<Longrightarrow> ok x \<Longrightarrow> runs outcome ok (Suc n) (Suc c) i"
| runs_incorrect: "runs outcome ok n c i \<Longrightarrow> outcome x \<Longrightarrow> \<not> ok x \<Longrightarrow> runs outcome ok (Suc n) c (Suc i)"

definition summary :: "string \<Rightarrow> nat \<Rightarrow> nat \<Rightarrow> string" where
  "summary what c i =
     ''Correct '' @ what @ '': '' @ show_nat c @ '', incorrect '' @ what @ '': '' @ show_nat i"

text \<open>\<open>printed\<close>: the line the program prints after its runs.\<close>

definition printed :: "string \<Rightarrow> nat \<Rightarrow> ('x \<Rightarrow> bool) \<Rightarrow> ('x \<Rightarrow> bool) \<Rightarrow> string \<Rightarrow> bool" where
  "printed what n outcome ok out \<longleftrightarrow> (\<exists>c i. runs outcome ok n c i \<and> out = summary what c i)"

lemma runs_total: "runs outcome ok n c i \<Longrightarrow> c + i = n"
  by (induction rule: runs.induct) auto

lemma runs_all_ok: "runs outcome ok n c i \<Longrightarrow> (\<And>x. outcome x \<Longrightarrow> ok x) \<Longrightarrow> c = n \<and> i = 0"
  by (induction rule: runs.induct) auto

lemma runs_repeat_ok: "outcome x \<Longrightarrow> ok x \<Longrightarrow> runs outcome ok n n 0"
  by (induction n) (auto intro: runs.intros)

lemma runs_repeat_bad: "outcome x \<Longrightarrow> \<not> ok x \<Longrightarrow> runs outcome ok n 0 n"
  by (induction n) (auto intro: runs.intros)

lemma runs_mixed:
  assumes "outcome x" "ok x" "outcome y" "\<not> ok y"
  shows "runs outcome ok (c + i) c i"
proof (induction i)
  case 0
  show ?case using runs_repeat_ok [of outcome x ok c] assms(1,2) by simp
next
  case (Suc i)
  then show ?case using runs_incorrect [of outcome ok "c + i" c i y] assms(3,4) by simp
qed

lemma printed_all_ok:
  assumes "outcome x" and ok: "\<And>x. outcome x \<Longrightarrow> ok x"
  shows "printed what n outcome ok out \<longleftrightarrow> out = summary what n 0"
proof
  assume "printed what n outcome ok out"
  then obtain c i where r: "runs outcome ok n c i" and out: "out = summary what c i"
    by (auto simp: printed_def)
  from r ok have "c = n \<and> i = 0" by (rule runs_all_ok)
  with out show "out = summary what n 0" by simp
next
  assume "out = summary what n 0"
  moreover have "runs outcome ok n n 0" using assms(1) ok [OF assms(1)] by (rule runs_repeat_ok)
  ultimately show "printed what n outcome ok out" by (auto simp: printed_def)
qed

lemma printed_any:
  assumes "outcome x" "ok x" "outcome y" "\<not> ok y"
  shows "printed what n outcome ok out \<longleftrightarrow> (\<exists>c i. c + i = n \<and> out = summary what c i)"
proof -
  have "runs outcome ok n c i \<longleftrightarrow> c + i = n" for c i
    using runs_total runs_mixed [OF assms] by blast
  then show ?thesis by (simp add: printed_def)
qed

end
