(* ===== verification/Locks.thy ===== *)
theory Locks
  imports Harness
begin

text \<open>
  The lock interface and its client.

  \<^verbatim>\<open>mutex.cpp\<close>, \<^verbatim>\<open>spinlock.cpp\<close> and \<^verbatim>\<open>condvar_intro.cpp\<close> run the same program, two threads that
  each execute \<^verbatim>\<open>lock(); ++x; unlock();\<close> a thousand times, on three implementations of
  the lock. The program is \<open>inc_step\<close>, with the lock's operations as arguments. What it
  needs from a lock is the locale \<open>lock_provider\<close>; \<open>live_lock\<close> adds that the lock can be
  taken when it is free and given back by its owner, and \<open>strict_lock\<close> that it does so
  without spinning. The program's correctness is proved once inside these locales.
  The increment of the plain \<^verbatim>\<open>int\<close> is a read and a write, so that an update can be
  lost if two threads are inside the critical section.
\<close>

section \<open>The increment program over a lock\<close>

text \<open>Where a thread stands with respect to a lock: outside, inside the call of \<^verbatim>\<open>lock()\<close>,
  after it returned, inside the call of \<^verbatim>\<open>unlock()\<close>.\<close>

datatype phase = Out | Acquiring | Held | Releasing

datatype inc_pc = AtLoop | InLock | AtLoad | AtStore int | InUnlock | Finished

record 'k inc_state =
  inc_lk :: 'k
  inc_x :: int
  inc_i :: "thread \<Rightarrow> nat"
  inc_pc :: "thread \<Rightarrow> inc_pc"

type_synonym ('t, 'c, 'k) lock_op = "'t \<Rightarrow> 'c \<Rightarrow> 'k \<Rightarrow> 'k option"

definition inc_init :: "'k \<Rightarrow> 'k inc_state" where
  "inc_init k = \<lparr>inc_lk = k, inc_x = 0, inc_i = (\<lambda>_. 0), inc_pc = (\<lambda>_. AtLoop)\<rparr>"

fun inc_step :: "(thread, 'c, 'k) lock_op \<Rightarrow> (thread, 'c, 'k) lock_op \<Rightarrow> ('k \<Rightarrow> thread \<Rightarrow> phase) \<Rightarrow>
    nat \<Rightarrow> (thread \<times> 'c, 'k inc_state) machine" where
  "inc_step lock unlock phase n (t, c) s =
     (case inc_pc s t of
        AtLoop \<Rightarrow>
          Some (s\<lparr>inc_pc := (inc_pc s)(t := if inc_i s t < n then InLock else Finished)\<rparr>)
      | InLock \<Rightarrow>
          (case lock t c (inc_lk s) of
             None \<Rightarrow> None
           | Some k \<Rightarrow> Some (s\<lparr>inc_lk := k,
               inc_pc := (inc_pc s)(t := if phase k t = Held then AtLoad else InLock)\<rparr>))
      | AtLoad \<Rightarrow> Some (s\<lparr>inc_pc := (inc_pc s)(t := AtStore (inc_x s))\<rparr>)
      | AtStore v \<Rightarrow> Some (s\<lparr>inc_x := v + 1, inc_pc := (inc_pc s)(t := InUnlock)\<rparr>)
      | InUnlock \<Rightarrow>
          (case unlock t c (inc_lk s) of
             None \<Rightarrow> None
           | Some k \<Rightarrow>
               if phase k t = Out
               then Some (s\<lparr>inc_lk := k, inc_i := (inc_i s)(t := Suc (inc_i s t)),
                      inc_pc := (inc_pc s)(t := AtLoop)\<rparr>)
               else Some (s\<lparr>inc_lk := k\<rparr>))
      | Finished \<Rightarrow> None)"

definition inc_final :: "'k inc_state \<Rightarrow> bool" where
  "inc_final s \<longleftrightarrow> (\<forall>t. inc_pc s t = Finished)"

text \<open>The value of \<^verbatim>\<open>x\<close> after both threads were joined.\<close>

definition inc_outcome :: "(thread, 'c, 'k) lock_op \<Rightarrow> (thread, 'c, 'k) lock_op \<Rightarrow>
    ('k \<Rightarrow> thread \<Rightarrow> phase) \<Rightarrow> 'k \<Rightarrow> nat \<Rightarrow> int \<Rightarrow> bool" where
  "inc_outcome lock unlock phase k n x \<longleftrightarrow>
     (\<exists>s. reach (inc_step lock unlock phase n) (inc_init k) s \<and> inc_final s \<and> inc_x s = x)"

text \<open>The increments a thread has stored, and a bound on its remaining steps.\<close>

fun inc_done :: "'k inc_state \<Rightarrow> thread \<Rightarrow> nat" where
  "inc_done s t = inc_i s t + (if inc_pc s t = InUnlock then 1 else 0)"

fun pc_weight :: "inc_pc \<Rightarrow> nat" where
  "pc_weight AtLoop = 5"
| "pc_weight InLock = 4"
| "pc_weight AtLoad = 3"
| "pc_weight (AtStore v) = 2"
| "pc_weight InUnlock = 1"
| "pc_weight Finished = 0"

fun inc_weight :: "nat \<Rightarrow> 'k inc_state \<Rightarrow> thread \<Rightarrow> nat" where
  "inc_weight n s t = 6 * (n - inc_i s t) + pc_weight (inc_pc s t)"

definition inc_rank :: "nat \<Rightarrow> 'k inc_state \<Rightarrow> nat" where
  "inc_rank n s = inc_weight n s T1 + inc_weight n s T2"

lemma inc_rank_via: "inc_rank n s = inc_weight n s t + inc_weight n s (other t)"
  by (cases t) (simp_all add: inc_rank_def)

text \<open>Each program point determines the possible phases of the lock for that thread.\<close>

fun pc_phase :: "inc_pc \<Rightarrow> phase set" where
  "pc_phase AtLoop = {Out}"
| "pc_phase InLock = {Out, Acquiring}"
| "pc_phase AtLoad = {Held}"
| "pc_phase (AtStore v) = {Held}"
| "pc_phase InUnlock = {Held, Releasing}"
| "pc_phase Finished = {Out}"

fun pc_count_ok :: "nat \<Rightarrow> inc_pc \<Rightarrow> nat \<Rightarrow> bool" where
  "pc_count_ok n AtLoop i = (i \<le> n)"
| "pc_count_ok n Finished i = (i = n)"
| "pc_count_ok n p i = (i < n)"

text \<open>What holds of one thread at its program point.\<close>

definition thread_ok :: "('k \<Rightarrow> thread \<Rightarrow> phase) \<Rightarrow> nat \<Rightarrow> 'k inc_state \<Rightarrow> thread \<Rightarrow> bool" where
  "thread_ok phase n s t \<longleftrightarrow>
     phase (inc_lk s) t \<in> pc_phase (inc_pc s t) \<and>
     pc_count_ok n (inc_pc s t) (inc_i s t) \<and>
     (\<forall>v. inc_pc s t = AtStore v \<longrightarrow> v = inc_x s)"

definition inc_inv :: "('k \<Rightarrow> thread \<Rightarrow> phase) \<Rightarrow> ('k \<Rightarrow> bool) \<Rightarrow> nat \<Rightarrow> 'k inc_state \<Rightarrow> bool" where
  "inc_inv phase lkinv n s \<longleftrightarrow>
     lkinv (inc_lk s) \<and> (\<forall>t. thread_ok phase n s t) \<and>
     inc_x s = int (inc_done s T1 + inc_done s T2)"

lemma inc_inv_via:
  "inc_inv phase lkinv n s \<longleftrightarrow>
     lkinv (inc_lk s) \<and> thread_ok phase n s t \<and> thread_ok phase n s (other t) \<and>
     inc_x s = int (inc_done s t + inc_done s (other t))"
  by (cases t) (auto simp: inc_inv_def all_thread)

lemma inc_done_le: "thread_ok phase n s t \<Longrightarrow> inc_done s t \<le> n"
  by (cases "inc_pc s t") (auto simp: thread_ok_def)

section \<open>The contract of a lock\<close>

locale lock_provider =
  fixes lk0 :: 'k
    and lock unlock :: "(thread, 'c, 'k) lock_op"
    and phase :: "'k \<Rightarrow> thread \<Rightarrow> phase"
    and lkinv :: "'k \<Rightarrow> bool"
  assumes lk0_inv: "lkinv lk0"
    and lk0_phase: "phase lk0 t = Out"
    and lock_inv: "lkinv k \<Longrightarrow> phase k t \<in> {Out, Acquiring} \<Longrightarrow> lock t c k = Some k' \<Longrightarrow> lkinv k'"
    and lock_phase: "lkinv k \<Longrightarrow> phase k t \<in> {Out, Acquiring} \<Longrightarrow> lock t c k = Some k' \<Longrightarrow>
      phase k' t \<in> {Acquiring, Held}"
    and lock_frame: "lkinv k \<Longrightarrow> phase k t \<in> {Out, Acquiring} \<Longrightarrow> lock t c k = Some k' \<Longrightarrow>
      phase k' (other t) = phase k (other t)"
    and unlock_inv: "lkinv k \<Longrightarrow> phase k t \<in> {Held, Releasing} \<Longrightarrow> unlock t c k = Some k' \<Longrightarrow> lkinv k'"
    and unlock_phase: "lkinv k \<Longrightarrow> phase k t \<in> {Held, Releasing} \<Longrightarrow> unlock t c k = Some k' \<Longrightarrow>
      phase k' t \<in> {Releasing, Out}"
    and unlock_frame: "lkinv k \<Longrightarrow> phase k t \<in> {Held, Releasing} \<Longrightarrow> unlock t c k = Some k' \<Longrightarrow>
      phase k' (other t) = phase k (other t)"
    and exclusive: "lkinv k \<Longrightarrow> phase k t = Held \<Longrightarrow> phase k (other t) \<noteq> Held"
begin

lemma inc_inv_init: "inc_inv phase lkinv n (inc_init lk0)"
  by (simp add: inc_inv_def thread_ok_def inc_init_def lk0_inv lk0_phase)

lemma inc_inv_step:
  assumes inv: "inc_inv phase lkinv n s" and st: "inc_step lock unlock phase n (t, c) s = Some s'"
  shows "inc_inv phase lkinv n s'"
proof -
  have k: "lkinv (inc_lk s)" and t: "thread_ok phase n s t" and u: "thread_ok phase n s (other t)"
    and x: "inc_x s = int (inc_done s t + inc_done s (other t))"
    using inv by (simp_all add: inc_inv_via [of phase lkinv n s t])
  note defs = inc_inv_via [of phase lkinv n _ t] thread_ok_def
  show ?thesis
  proof (cases "inc_pc s t")
    case AtLoop
    then show ?thesis using st k t u x by (cases "inc_i s t < n") (auto simp: defs)
  next
    case InLock
    then obtain k' where k': "lock t c (inc_lk s) = Some k'"
      and s': "s' = s\<lparr>inc_lk := k', inc_pc := (inc_pc s)(t := if phase k' t = Held then AtLoad else InLock)\<rparr>"
      using st by (auto split: option.splits)
    have ph: "phase (inc_lk s) t \<in> {Out, Acquiring}" using t InLock by (simp add: thread_ok_def)
    show ?thesis
      using lock_inv [OF k ph k'] lock_phase [OF k ph k'] lock_frame [OF k ph k'] InLock t u x
      by (auto simp: defs s')
  next
    case AtLoad
    then show ?thesis using st k t u x by (auto simp: defs)
  next
    case (AtStore v)
    have "phase (inc_lk s) (other t) \<noteq> Held"
      using exclusive [OF k] t AtStore by (auto simp: thread_ok_def)
    then show ?thesis using AtStore st k t u x
      by (cases "inc_pc s (other t)") (auto simp: defs)
  next
    case InUnlock
    then obtain k' where k': "unlock t c (inc_lk s) = Some k'"
      and s': "s' = (if phase k' t = Out
          then s\<lparr>inc_lk := k', inc_i := (inc_i s)(t := Suc (inc_i s t)), inc_pc := (inc_pc s)(t := AtLoop)\<rparr>
          else s\<lparr>inc_lk := k'\<rparr>)"
      using st by (auto split: option.splits if_splits)
    have ph: "phase (inc_lk s) t \<in> {Held, Releasing}" using t InUnlock by (simp add: thread_ok_def)
    show ?thesis
      using unlock_inv [OF k ph k'] unlock_phase [OF k ph k'] unlock_frame [OF k ph k'] InUnlock t u x
      by (auto simp: defs s')
  next
    case Finished
    then show ?thesis using st by simp
  qed
qed

end

sublocale lock_provider \<subseteq> inc: machine_inv "inc_step lock unlock phase n" "inc_init lk0"
  "inc_inv phase lkinv n" for n
proof unfold_locales
  show "inc_inv phase lkinv n (inc_init lk0)" by (rule inc_inv_init)
next
  fix s l s'
  assume "inc_inv phase lkinv n s" "inc_step lock unlock phase n l s = Some s'"
  then show "inc_inv phase lkinv n s'" by (cases l) (auto intro: inc_inv_step)
qed

context lock_provider
begin

lemma final_sum:
  "reach (inc_step lock unlock phase n) (inc_init lk0) s \<Longrightarrow> inc_final s \<Longrightarrow> inc_x s = 2 * int n"
  using inc.reach_inv [of n s] by (auto simp: inc_inv_def thread_ok_def inc_final_def all_thread)

lemma sum_bounded:
  assumes "reach (inc_step lock unlock phase n) (inc_init lk0) s"
  shows "0 \<le> inc_x s \<and> inc_x s \<le> 2 * int n"
proof -
  have inv: "inc_inv phase lkinv n s" using assms by (rule inc.reach_inv)
  then have "inc_done s T1 \<le> n" "inc_done s T2 \<le> n"
    by (auto simp only: inc_inv_def intro: inc_done_le)
  moreover have "inc_x s = int (inc_done s T1 + inc_done s T2)" using inv by (simp only: inc_inv_def)
  ultimately show ?thesis by linarith
qed

lemma critical_section_exclusive:
  "reach (inc_step lock unlock phase n) (inc_init lk0) s \<Longrightarrow>
     \<not> (phase (inc_lk s) T1 = Held \<and> phase (inc_lk s) T2 = Held)"
  using inc.reach_inv [of n s] exclusive [of "inc_lk s" T1] by (auto simp: inc_inv_def)

end

text \<open>A lock that can be taken whenever nobody holds it, and given back by its holder.\<close>

locale live_lock = lock_provider lk0 lock unlock phase lkinv
  for lk0 :: 'k and lock unlock :: "(thread, 'c, 'k) lock_op" and phase lkinv +
  assumes free_lock: "lkinv k \<Longrightarrow> phase k t \<in> {Out, Acquiring} \<Longrightarrow> phase k (other t) \<in> {Out, Acquiring} \<Longrightarrow>
      \<exists>c k'. lock t c k = Some k' \<and> phase k' t = Held"
    and can_unlock: "lkinv k \<Longrightarrow> phase k t \<in> {Held, Releasing} \<Longrightarrow>
      \<exists>c k'. unlock t c k = Some k' \<and> phase k' t = Out"
begin

text \<open>A thread outside \<^verbatim>\<open>lock()\<close> always moves.\<close>

lemma moves_unless_locking:
  assumes inv: "inc_inv phase lkinv n s" and p: "inc_pc s t \<noteq> InLock" "inc_pc s t \<noteq> Finished"
  shows "\<exists>l s'. inc_step lock unlock phase n l s = Some s' \<and> inc_rank n s' < inc_rank n s"
proof -
  have k: "lkinv (inc_lk s)" and t: "thread_ok phase n s t"
    using inv by (simp_all add: inc_inv_via [of phase lkinv n s t])
  note r = inc_rank_via [of n _ t]
  have "\<exists>c s'. inc_step lock unlock phase n (t, c) s = Some s' \<and> inc_rank n s' < inc_rank n s"
  proof (cases "inc_pc s t")
    case InUnlock
    then have "phase (inc_lk s) t \<in> {Held, Releasing}" using t by (simp add: thread_ok_def)
    then obtain c k' where "unlock t c (inc_lk s) = Some k'" "phase k' t = Out"
      using can_unlock [OF k] by blast
    with InUnlock t have "inc_step lock unlock phase n (t, c) s
        = Some (s\<lparr>inc_lk := k', inc_i := (inc_i s)(t := Suc (inc_i s t)), inc_pc := (inc_pc s)(t := AtLoop)\<rparr>)"
      (is "_ = Some ?s'") and "inc_i s t < n"
      by (simp_all add: thread_ok_def)
    moreover have "inc_rank n ?s' < inc_rank n s" using InUnlock \<open>inc_i s t < n\<close> by (simp add: r)
    ultimately show ?thesis by blast
  qed (use p in \<open>auto simp: r\<close>)
  then show ?thesis by blast
qed

lemma inc_progress:
  assumes inv: "inc_inv phase lkinv n s" and nf: "\<not> inc_final s"
  shows "\<exists>l s'. inc_step lock unlock phase n l s = Some s' \<and> inc_rank n s' < inc_rank n s"
proof (cases "\<exists>t. inc_pc s t \<noteq> InLock \<and> inc_pc s t \<noteq> Finished")
  case True
  then show ?thesis using moves_unless_locking [OF inv] by blast
next
  case False
  then have all: "inc_pc s t = InLock \<or> inc_pc s t = Finished" for t by blast
  with nf obtain t where t: "inc_pc s t = InLock" by (auto simp: inc_final_def)
  have k: "lkinv (inc_lk s)" and ok: "thread_ok phase n s t" "thread_ok phase n s (other t)"
    using inv by (simp_all add: inc_inv_via [of phase lkinv n s t])
  have "phase (inc_lk s) t \<in> {Out, Acquiring}" "phase (inc_lk s) (other t) \<in> {Out, Acquiring}"
    using ok t all [of "other t"] by (auto simp: thread_ok_def)
  then obtain c k' where k': "lock t c (inc_lk s) = Some k'" "phase k' t = Held"
    using free_lock [OF k] by blast
  then have "inc_step lock unlock phase n (t, c) s
      = Some (s\<lparr>inc_lk := k', inc_pc := (inc_pc s)(t := AtLoad)\<rparr>)" using t by simp
  with t show ?thesis by (fastforce simp: inc_rank_via [of n _ t])
qed

end

sublocale live_lock \<subseteq> incl: machine_live "inc_step lock unlock phase n" "inc_init lk0"
  "inc_inv phase lkinv n" "inc_rank n" inc_final for n
  by unfold_locales (rule inc_progress)

lemma summary_sum_1000: "summary ''sum'' 1000 0 = ''Correct sum: 1000, incorrect sum: 0''"
  by (simp add: summary_def show_nat.simps digit_def)

context live_lock
begin

lemma prints:
  "printed ''sum'' 1000 (inc_outcome lock unlock phase lk0 1000) (\<lambda>x. x = 2000) out \<longleftrightarrow>
    out = ''Correct sum: 1000, incorrect sum: 0''"
proof -
  obtain s where s: "reach (inc_step lock unlock phase 1000) (inc_init lk0) s" "inc_final s"
    using incl.final_reachable reach_init by metis
  have "inc_outcome lock unlock phase lk0 1000 (inc_x s)"
    using s by (auto simp: inc_outcome_def)
  moreover have "x = 2000" if "inc_outcome lock unlock phase lk0 1000 x" for x
    using that final_sum [of 1000] by (auto simp: inc_outcome_def)
  ultimately have "printed ''sum'' 1000 (inc_outcome lock unlock phase lk0 1000) (\<lambda>x. x = 2000) out
      \<longleftrightarrow> out = summary ''sum'' 1000 0"
    by (rule printed_all_ok)
  then show ?thesis by (simp only: summary_sum_1000)
qed

end

text \<open>A lock whose operations return in one step: they block, but do not spin.\<close>

locale strict_lock = live_lock lk0 lock unlock phase lkinv
  for lk0 :: 'k and lock unlock :: "(thread, 'c, 'k) lock_op" and phase lkinv +
  assumes lock_returns: "lkinv k \<Longrightarrow> phase k t \<in> {Out, Acquiring} \<Longrightarrow> lock t c k = Some k' \<Longrightarrow> phase k' t = Held"
    and unlock_returns: "lkinv k \<Longrightarrow> phase k t \<in> {Held, Releasing} \<Longrightarrow> unlock t c k = Some k' \<Longrightarrow> phase k' t = Out"
begin

lemma inc_decrease:
  assumes inv: "inc_inv phase lkinv n s" and st: "inc_step lock unlock phase n (t, c) s = Some s'"
  shows "inc_rank n s' < inc_rank n s"
proof -
  have k: "lkinv (inc_lk s)" and t: "thread_ok phase n s t"
    using inv by (simp_all add: inc_inv_via [of phase lkinv n s t])
  note r = inc_rank_via [of n _ t]
  show ?thesis
  proof (cases "inc_pc s t")
    case InLock
    then obtain k' where k': "lock t c (inc_lk s) = Some k'" using st by (auto split: option.splits)
    have "phase k' t = Held" using lock_returns [OF k _ k'] t InLock by (simp add: thread_ok_def)
    then show ?thesis using InLock st k' by (auto simp: r)
  next
    case InUnlock
    then obtain k' where k': "unlock t c (inc_lk s) = Some k'" using st by (auto split: option.splits)
    have "phase k' t = Out" using unlock_returns [OF k _ k'] t InUnlock by (simp add: thread_ok_def)
    moreover have "inc_i s t < n" using t InUnlock by (simp add: thread_ok_def)
    ultimately show ?thesis using InUnlock st k' by (auto simp: r)
  qed (use st in \<open>auto simp: r\<close>)
qed

end

sublocale strict_lock \<subseteq> inct: machine_term "inc_step lock unlock phase n" "inc_init lk0"
  "inc_inv phase lkinv n" "inc_rank n" inc_final for n
proof unfold_locales
  fix s
  assume "inc_inv phase lkinv n s" "\<not> inc_final s"
  then show "\<exists>l t. inc_step lock unlock phase n l s = Some t" using inc_progress by blast
next
  fix s l t
  assume "inc_inv phase lkinv n s" "inc_step lock unlock phase n l s = Some t"
  then show "inc_rank n t < inc_rank n s" by (cases l) (auto intro: inc_decrease)
qed

context live_lock
begin

text \<open>The critical section is exclusive, the sum stays in the range of \<^verbatim>\<open>int\<close>, and the experiment
  can always be completed, with the intended sum.\<close>

lemma experiment_safe:
  assumes r: "reach (inc_step lock unlock phase n) (inc_init lk0) s"
  shows "\<not> (phase (inc_lk s) T1 = Held \<and> phase (inc_lk s) T2 = Held) \<and>
    0 \<le> inc_x s \<and> inc_x s \<le> 2 * int n \<and>
    (\<exists>s'. reach (inc_step lock unlock phase n) s s' \<and> inc_final s' \<and> inc_x s' = 2 * int n)"
proof -
  obtain s' where s': "reach (inc_step lock unlock phase n) s s'" "inc_final s'"
    using incl.final_reachable [OF r] by blast
  have "inc_x s' = 2 * int n" using reach_trans [OF r s'(1)] s'(2) by (rule final_sum)
  then show ?thesis using s' critical_section_exclusive [OF r] sum_bounded [OF r] by blast
qed

end

context strict_lock
begin

lemma experiment_terminates:
  assumes r: "run (inc_step lock unlock phase n) ls (inc_init lk0) = Some s"
  shows "length ls \<le> 12 * n + 10 \<and>
    (stuck (inc_step lock unlock phase n) s \<longrightarrow> inc_final s \<and> inc_x s = 2 * int n)"
proof -
  have "reach (inc_step lock unlock phase n) (inc_init lk0) s" using r by (rule run_imp_reach)
  moreover have "length ls \<le> inc_rank n (inc_init lk0)" using r by (rule inct.run_length)
  ultimately show ?thesis
    using incl.stuck_final final_sum by (auto simp: inc_rank_def inc_init_def)
qed

end

end
