(* ===== verification/Mutex.thy ===== *)
theory Mutex
  imports Harness Locks
begin

text \<open>
  Two locks that honour the contract of theory \<open>Locks\<close>: the standard library's mutex
  (\<^verbatim>\<open>synchronization_primitives/mutex/mutex.cpp\<close>) and the class \<^verbatim>\<open>Spinlock\<close>
  (\<^verbatim>\<open>synchronization_primitives/mutex/spinlock.cpp\<close>), each with the program that uses it.
\<close>

section \<open>std::mutex\<close>

text \<open>A mutex is its owner. \<^verbatim>\<open>lock()\<close> blocks (is not enabled) while it is owned; \<^verbatim>\<open>unlock()\<close> by
  a thread that does not own it is undefined and not enabled.\<close>

type_synonym mutex = "thread option"

definition mutex_lock :: "(thread, unit, mutex) lock_op" where
  "mutex_lock t c m = (case m of None \<Rightarrow> Some (Some t) | Some _ \<Rightarrow> None)"

definition mutex_unlock :: "(thread, unit, mutex) lock_op" where
  "mutex_unlock t c m = (if m = Some t then Some None else None)"

definition mutex_phase :: "mutex \<Rightarrow> thread \<Rightarrow> phase" where
  "mutex_phase m t = (if m = Some t then Held else Out)"

interpretation mtx: strict_lock None mutex_lock mutex_unlock mutex_phase "\<lambda>_. True"
proof unfold_locales
  fix m :: mutex and t :: thread
  assume "mutex_phase m t \<in> {Out, Acquiring}" "mutex_phase m (other t) \<in> {Out, Acquiring}"
  then have "m = None" by (cases m) (auto simp: mutex_phase_def neq_other split: if_splits)
  then show "\<exists>c m'. mutex_lock t c m = Some m' \<and> mutex_phase m' t = Held"
    by (simp add: mutex_lock_def mutex_phase_def)
qed (auto simp: mutex_lock_def mutex_unlock_def mutex_phase_def split: option.splits if_splits)

text \<open>\<^verbatim>\<open>main\<close> of \<^verbatim>\<open>mutex.cpp\<close>: a thousand runs of two threads with a thousand iterations each.\<close>

definition mutex_main :: "string \<Rightarrow> bool" where
  "mutex_main out \<longleftrightarrow>
     printed ''sum'' 1000 (inc_outcome mutex_lock mutex_unlock mutex_phase None 1000) (\<lambda>x. x = 2000) out"

section \<open>Spinlock\<close>

record spinlock =
  m_locked :: bool
  spin_phase :: "thread \<Rightarrow> phase"

definition spinlock_init :: spinlock where
  "spinlock_init = \<lparr>m_locked = False, spin_phase = (\<lambda>_. Out)\<rparr>"

text \<open>One evaluation of \<^verbatim>\<open>while (m_locked.exchange(true))\<close>: the exchange writes \<^verbatim>\<open>true\<close> and
  returns the old value; the loop goes on while that was \<^verbatim>\<open>true\<close>.\<close>

definition Spinlock_lock :: "(thread, unit, spinlock) lock_op" where
  "Spinlock_lock t c k =
     (let old = m_locked k
      in Some (k\<lparr>m_locked := True,
                 spin_phase := (spin_phase k)(t := if old then Acquiring else Held)\<rparr>))"

definition Spinlock_unlock :: "(thread, unit, spinlock) lock_op" where
  "Spinlock_unlock t c k = Some (k\<lparr>m_locked := False, spin_phase := (spin_phase k)(t := Out)\<rparr>)"

definition spinlock_inv :: "spinlock \<Rightarrow> bool" where
  "spinlock_inv k \<longleftrightarrow>
     (m_locked k \<longleftrightarrow> (\<exists>t. spin_phase k t = Held)) \<and>
     \<not> (spin_phase k T1 = Held \<and> spin_phase k T2 = Held) \<and>
     (\<forall>t. spin_phase k t \<noteq> Releasing)"

lemma spinlock_inv_via:
  "spinlock_inv k \<longleftrightarrow>
     (m_locked k \<longleftrightarrow> spin_phase k t = Held \<or> spin_phase k (other t) = Held) \<and>
     \<not> (spin_phase k t = Held \<and> spin_phase k (other t) = Held) \<and>
     spin_phase k t \<noteq> Releasing \<and> spin_phase k (other t) \<noteq> Releasing"
  by (cases t) (auto simp: spinlock_inv_def all_thread ex_thread)

interpretation spin: live_lock spinlock_init Spinlock_lock Spinlock_unlock spin_phase spinlock_inv
proof unfold_locales
  fix k k' :: spinlock and t :: thread and c :: unit
  show "spinlock_inv spinlock_init" by (simp add: spinlock_inv_def spinlock_init_def)
  show "spin_phase spinlock_init t = Out" by (simp add: spinlock_init_def)
  show "spinlock_inv k'" if "spinlock_inv k" "spin_phase k t \<in> {Out, Acquiring}" "Spinlock_lock t c k = Some k'"
    using that by (auto simp: spinlock_inv_via [of _ t] Spinlock_lock_def Let_def)
  show "spinlock_inv k'" if "spinlock_inv k" "spin_phase k t \<in> {Held, Releasing}" "Spinlock_unlock t c k = Some k'"
    using that by (auto simp: spinlock_inv_via [of _ t] Spinlock_unlock_def)
  show "\<exists>c k'. Spinlock_lock t c k = Some k' \<and> spin_phase k' t = Held"
    if "spinlock_inv k" "spin_phase k t \<in> {Out, Acquiring}" "spin_phase k (other t) \<in> {Out, Acquiring}"
    using that by (auto simp: spinlock_inv_via [of _ t] Spinlock_lock_def Let_def)
  show "spin_phase k (other t) \<noteq> Held" if "spinlock_inv k" "spin_phase k t = Held"
    using that by (simp add: spinlock_inv_via [of _ t])
qed (auto simp: Spinlock_lock_def Spinlock_unlock_def Let_def split: if_splits)

definition spinlock_main :: "string \<Rightarrow> bool" where
  "spinlock_main out \<longleftrightarrow>
     printed ''sum'' 1000 (inc_outcome Spinlock_lock Spinlock_unlock spin_phase spinlock_init 1000)
       (\<lambda>x. x = 2000) out"

section \<open>Properties\<close>

text \<open>C1: an experiment of \<^verbatim>\<open>mutex.cpp\<close> with \<open>n\<close> iterations per thread terminates under every
  schedule: a schedule has at most \<open>12 n + 10\<close> steps, and one that cannot be extended has
  joined both threads with \<^verbatim>\<open>x\<close> equal to \<open>2 n\<close>, so there is no deadlock and no lost update.\<close>

theorem mutex_terminates:
  assumes "run (inc_step mutex_lock mutex_unlock mutex_phase n) ls (inc_init None) = Some s"
  shows "length ls \<le> 12 * n + 10 \<and>
    (stuck (inc_step mutex_lock mutex_unlock mutex_phase n) s \<longrightarrow> inc_final s \<and> inc_x s = 2 * int n)"
  using assms by (rule mtx.experiment_terminates)

theorem mutex_terminates_witness:
  "\<exists>s. run (inc_step mutex_lock mutex_unlock mutex_phase 1)
      (replicate 5 (T1, ()) @ replicate 5 (T2, ()) @ [(T1, ()), (T2, ())]) (inc_init None) = Some s \<and>
    inc_final s \<and> inc_x s = 2"
proof -
  let ?ls = "replicate 5 (T1, ()) @ replicate 5 (T2, ()) @ [(T1, ()), (T2, ())]"
  let ?step = "inc_step mutex_lock mutex_unlock mutex_phase 1"
  obtain s where s: "run ?step ?ls (inc_init None) = Some s" and "inc_final s"
    by (simp add: inc_init_def numeral_eq_Suc mutex_lock_def mutex_unlock_def mutex_phase_def inc_final_def all_thread)
  moreover have "stuck ?step s" using \<open>inc_final s\<close> by (simp add: stuck_def inc_final_def)
  ultimately show ?thesis using mutex_terminates [OF s] by auto
qed

text \<open>C2: \<^verbatim>\<open>Spinlock\<close> excludes and does not deadlock: in every reachable state of the program at most
  one thread is past \<^verbatim>\<open>lock()\<close> and not yet past \<^verbatim>\<open>unlock()\<close>, \<^verbatim>\<open>x\<close> does not overflow, and the program can
  still be completed with the sum \<open>2 n\<close>.\<close>

theorem spinlock_correct:
  assumes "reach (inc_step Spinlock_lock Spinlock_unlock spin_phase n) (inc_init spinlock_init) s"
  shows "\<not> (spin_phase (inc_lk s) T1 = Held \<and> spin_phase (inc_lk s) T2 = Held) \<and>
    0 \<le> inc_x s \<and> inc_x s \<le> 2 * int n \<and>
    (\<exists>s'. reach (inc_step Spinlock_lock Spinlock_unlock spin_phase n) s s' \<and>
       inc_final s' \<and> inc_x s' = 2 * int n)"
  using assms by (rule spin.experiment_safe)

theorem spinlock_correct_witness:
  "\<exists>s'. reach (inc_step Spinlock_lock Spinlock_unlock spin_phase 1000) (inc_init spinlock_init) s' \<and>
     inc_final s' \<and> inc_x s' = 2000"
  using spinlock_correct [OF reach_init, of 1000] by simp

text \<open>\<^verbatim>\<open>mutex.cpp\<close> prints, on every schedule, that all 1000 sums are correct.\<close>

theorem mutex_main_prints: "mutex_main out \<longleftrightarrow> out = ''Correct sum: 1000, incorrect sum: 0''"
  unfolding mutex_main_def by (rule mtx.prints)

text \<open>\<^verbatim>\<open>spinlock.cpp\<close> prints, however often \<^verbatim>\<open>lock\<close> spins, that all 1000 sums are correct.\<close>

theorem spinlock_main_prints: "spinlock_main out \<longleftrightarrow> out = ''Correct sum: 1000, incorrect sum: 0''"
  unfolding spinlock_main_def by (rule spin.prints)

end
