(* ===== verification/Data_Race.thy ===== *)
theory Data_Race
  imports Harness
begin

text \<open>
  \<^verbatim>\<open>synchronization_primitives/sync_intro/data_race.cpp\<close>: the increment program without a
  lock. The unsynchronised \<^verbatim>\<open>++x\<close> is a read and a write of a plain \<^verbatim>\<open>int\<close>; the C++ standard
  calls this a data race, and the model gives it the interleaving semantics the example
  is meant to show. A thread's program point records the value it has read.
\<close>

section \<open>Unsynchronised increments\<close>

record race_state =
  race_x :: int
  race_i :: "thread \<Rightarrow> nat"
  race_tmp :: "thread \<Rightarrow> int option"

definition race_init :: race_state where
  "race_init = \<lparr>race_x = 0, race_i = (\<lambda>_. 0), race_tmp = (\<lambda>_. None)\<rparr>"

definition race_step :: "nat \<Rightarrow> (thread, race_state) machine" where
  "race_step n t s =
     (if race_i s t < n
      then (case race_tmp s t of
              None \<Rightarrow> Some (s\<lparr>race_tmp := (race_tmp s)(t := Some (race_x s))\<rparr>)
            | Some v \<Rightarrow> Some (s\<lparr>race_x := v + 1, race_i := (race_i s)(t := Suc (race_i s t)),
                              race_tmp := (race_tmp s)(t := None)\<rparr>))
      else None)"

definition race_final :: "nat \<Rightarrow> race_state \<Rightarrow> bool" where
  "race_final n s \<longleftrightarrow> (\<forall>t. \<not> race_i s t < n)"

definition race_outcome :: "nat \<Rightarrow> int \<Rightarrow> bool" where
  "race_outcome n x \<longleftrightarrow> (\<exists>s. reach (race_step n) race_init s \<and> race_final n s \<and> race_x s = x)"

definition race_main :: "string \<Rightarrow> bool" where
  "race_main out \<longleftrightarrow> printed ''sum'' 1000 (race_outcome 1000) (\<lambda>x. x = 2000) out"

section \<open>Bounds of the sum\<close>

text \<open>
  The sum never exceeds the number of increments; every value read is one written before.
  A thread that has completed an iteration only ever reads a positive value afterwards, so
  the last write of a thread with at least two iterations is at least two.
\<close>

definition race_total :: "race_state \<Rightarrow> int" where
  "race_total s = int (race_i s T1) + int (race_i s T2)"

definition race_inv :: "nat \<Rightarrow> race_state \<Rightarrow> bool" where
  "race_inv n s \<longleftrightarrow>
     (\<forall>t. race_i s t \<le> n) \<and>
     0 \<le> race_x s \<and> race_x s \<le> race_total s \<and>
     (\<forall>t v. race_tmp s t = Some v \<longrightarrow>
        0 \<le> v \<and> v \<le> race_total s \<and> (0 < race_i s t \<longrightarrow> 1 \<le> v)) \<and>
     (0 < race_total s \<longrightarrow> 1 \<le> race_x s) \<and>
     (race_x s \<le> 1 \<longrightarrow> race_i s T1 \<le> 1 \<or> race_i s T2 \<le> 1)"

lemma race_total_upd:
  "race_total (s\<lparr>race_i := (race_i s)(t := Suc (race_i s t))\<rparr>) = race_total s + 1"
  by (cases t) (simp_all add: race_total_def)

lemma race_total_pos: "0 < race_i s t \<Longrightarrow> 0 < race_total s"
  by (cases t) (simp_all add: race_total_def)

lemma race_inv_load:
  assumes "race_inv n s"
  shows "race_inv n (s\<lparr>race_tmp := (race_tmp s)(t := Some (race_x s))\<rparr>)"
  using assms race_total_pos [of s t]
  by (simp add: race_inv_def race_total_def)

lemma race_inv_store:
  assumes inv: "race_inv n s" and lt: "race_i s t < n" and tmp: "race_tmp s t = Some v"
  shows "race_inv n (s\<lparr>race_x := v + 1, race_i := (race_i s)(t := Suc (race_i s t)),
    race_tmp := (race_tmp s)(t := None)\<rparr>)" (is "race_inv n ?s")
proof -
  have v: "0 \<le> v" "v \<le> race_total s" "0 < race_i s t \<longrightarrow> 1 \<le> v"
    using inv tmp by (simp_all add: race_inv_def)
  have tot: "race_total ?s = race_total s + 1"
    using race_total_upd [of s t] by (simp add: race_total_def)
  have "race_i ?s u \<le> n" for u using inv lt by (simp add: race_inv_def)
  moreover have "0 \<le> w \<and> w \<le> race_total ?s \<and> (0 < race_i ?s u \<longrightarrow> 1 \<le> w)"
    if "race_tmp ?s u = Some w" for u w
    using that inv unfolding tot race_inv_def by (fastforce split: if_splits)
  moreover have "race_i ?s T1 \<le> 1 \<or> race_i ?s T2 \<le> 1" if "race_x ?s \<le> 1"
    using that v by (cases t) auto
  ultimately show ?thesis using v unfolding race_inv_def tot by simp
qed

lemma race_inv_step: "race_inv n s \<Longrightarrow> race_step n t s = Some s' \<Longrightarrow> race_inv n s'"
  by (auto simp: race_step_def race_inv_load race_inv_store split: option.splits if_splits)

definition race_rank :: "nat \<Rightarrow> race_state \<Rightarrow> nat" where
  "race_rank n s = (\<Sum>t\<leftarrow>[T1, T2]. 2 * (n - race_i s t) + (if race_tmp s t = None then 1 else 0))"

interpretation race: machine_term "race_step n" race_init "race_inv n" "race_rank n" "race_final n" for n
proof unfold_locales
  show "race_inv n race_init" by (simp add: race_inv_def race_init_def race_total_def)
  show "race_inv n s'" if "race_inv n s" "race_step n l s = Some s'" for s l s'
    using that by (rule race_inv_step)
  show "\<exists>l t. race_step n l s = Some t" if "\<not> race_final n s" for s
    using that by (auto simp: race_final_def race_step_def split: option.splits)
  show "race_rank n t < race_rank n s" if "race_step n l s = Some t" for s l t
    using that by (cases l) (auto simp: race_step_def race_rank_def split: option.splits if_splits)
qed

section \<open>Schedules\<close>

text \<open>A thread that runs alone for \<open>k\<close> iterations adds \<open>k\<close>.\<close>

lemma race_solo:
  assumes "race_tmp s t = None" "race_i s t + k \<le> n"
  shows "run (race_step n) (replicate (2 * k) t) s =
    Some (s\<lparr>race_x := race_x s + int k, race_i := (race_i s)(t := race_i s t + k)\<rparr>)"
  using assms
proof (induction k arbitrary: s)
  case 0
  then show ?case by simp
next
  case (Suc k)
  let ?s = "s\<lparr>race_x := race_x s + 1, race_i := (race_i s)(t := Suc (race_i s t))\<rparr>"
  have "run (race_step n) [t, t] s = Some ?s"
    using Suc.prems by (cases s) (simp add: race_step_def fun_upd_idem)
  moreover have "run (race_step n) (replicate (2 * k) t) ?s =
      Some (s\<lparr>race_x := race_x s + int (Suc k), race_i := (race_i s)(t := race_i s t + Suc k)\<rparr>)"
    using Suc.IH [of ?s] Suc.prems by (simp add: fun_upd_def add.assoc cong: if_cong)
  moreover have "replicate (2 * Suc k) t = [t, t] @ replicate (2 * k) t" by simp
  ultimately show ?case by (simp only: run_append option.case)
qed

text \<open>Low sums: \<open>T1\<close> reads 0 and sleeps while \<open>T2\<close> does all but its last increment; \<open>T1\<close> then
  overwrites that with 1 and does \<open>j\<close> more; \<open>T2\<close> reads \<open>1 + j\<close>, and overwrites the rest of
  \<open>T1\<close>'s work.\<close>

lemma race_outcome_low:
  assumes "j < n"
  shows "race_outcome n (2 + int j)"
proof -
  let ?a = "race_init\<lparr>race_tmp := (race_tmp race_init)(T1 := Some 0)\<rparr>"
  let ?b = "?a\<lparr>race_x := int (n - 1), race_i := (race_i ?a)(T2 := n - 1)\<rparr>"
  let ?c = "?b\<lparr>race_x := 1, race_i := (race_i ?b)(T1 := 1), race_tmp := (\<lambda>_. None)\<rparr>"
  let ?d = "?c\<lparr>race_x := 1 + int j, race_i := (race_i ?c)(T1 := 1 + j)\<rparr>"
  let ?e = "?d\<lparr>race_tmp := (\<lambda>_. None)(T2 := Some (1 + int j))\<rparr>"
  let ?f = "?e\<lparr>race_x := int n, race_i := (race_i ?e)(T1 := n)\<rparr>"
  let ?g = "?f\<lparr>race_x := 2 + int j, race_i := (race_i ?f)(T2 := n), race_tmp := (\<lambda>_. None)\<rparr>"
  have "run (race_step n) [T1] race_init = Some ?a"
    using assms by (simp add: race_step_def race_init_def)
  then have "reach (race_step n) race_init ?a" by (rule run_imp_reach)
  also have "run (race_step n) (replicate (2 * (n - 1)) T2) ?a = Some ?b"
    using race_solo [of ?a T2 "n - 1" n] by (simp add: race_init_def)
  then have "reach (race_step n) ?a ?b" by (rule run_imp_reach)
  also have "run (race_step n) [T1] ?b = Some ?c"
    using assms by (simp add: race_step_def race_init_def fun_eq_iff all_thread)
  then have "reach (race_step n) ?b ?c" by (rule run_imp_reach)
  also have "run (race_step n) (replicate (2 * j) T1) ?c = Some ?d"
    using race_solo [of ?c T1 j n] assms by (simp add: race_init_def)
  then have "reach (race_step n) ?c ?d" by (rule run_imp_reach)
  also have "run (race_step n) [T2] ?d = Some ?e"
    using assms by (simp add: race_step_def race_init_def fun_eq_iff all_thread)
  then have "reach (race_step n) ?d ?e" by (rule run_imp_reach)
  also have "run (race_step n) (replicate (2 * (n - 1 - j)) T1) ?e = Some ?f"
    using race_solo [of ?e T1 "n - 1 - j" n] assms by (simp add: race_init_def)
  then have "reach (race_step n) ?e ?f" by (rule run_imp_reach)
  also have "run (race_step n) [T2] ?f = Some ?g"
    using assms by (simp add: race_step_def race_init_def fun_eq_iff all_thread)
  then have "reach (race_step n) ?f ?g" by (rule run_imp_reach)
  finally have "reach (race_step n) race_init ?g" .
  moreover have "race_final n ?g" using assms by (simp add: race_final_def all_thread)
  ultimately show ?thesis by (force simp: race_outcome_def)
qed

text \<open>High sums: \<open>T1\<close>'s first increment overwrites \<open>k\<close> increments of \<open>T2\<close>; all others count.\<close>

lemma race_outcome_high:
  assumes "k \<le> n" "0 < n"
  shows "race_outcome n (2 * int n - int k)"
proof -
  let ?a = "race_init\<lparr>race_tmp := (race_tmp race_init)(T1 := Some 0)\<rparr>"
  let ?b = "?a\<lparr>race_x := int k, race_i := (race_i ?a)(T2 := k)\<rparr>"
  let ?c = "?b\<lparr>race_x := 1, race_i := (race_i ?b)(T1 := 1), race_tmp := (\<lambda>_. None)\<rparr>"
  let ?d = "?c\<lparr>race_x := int n, race_i := (race_i ?c)(T1 := n)\<rparr>"
  let ?e = "?d\<lparr>race_x := 2 * int n - int k, race_i := (race_i ?d)(T2 := n)\<rparr>"
  have "run (race_step n) [T1] race_init = Some ?a"
    using assms by (simp add: race_step_def race_init_def)
  then have "reach (race_step n) race_init ?a" by (rule run_imp_reach)
  also have "run (race_step n) (replicate (2 * k) T2) ?a = Some ?b"
    using race_solo [of ?a T2 k n] assms by (simp add: race_init_def)
  then have "reach (race_step n) ?a ?b" by (rule run_imp_reach)
  also have "run (race_step n) [T1] ?b = Some ?c"
    using assms by (simp add: race_step_def race_init_def fun_eq_iff all_thread)
  then have "reach (race_step n) ?b ?c" by (rule run_imp_reach)
  also have "run (race_step n) (replicate (2 * (n - 1)) T1) ?c = Some ?d"
    using race_solo [of ?c T1 "n - 1" n] assms by (simp add: race_init_def)
  then have "reach (race_step n) ?c ?d" by (rule run_imp_reach)
  also have "run (race_step n) (replicate (2 * (n - k)) T2) ?d = Some ?e"
    using race_solo [of ?d T2 "n - k" n] assms by (simp add: race_init_def)
  then have "reach (race_step n) ?d ?e" by (rule run_imp_reach)
  finally have "reach (race_step n) race_init ?e" .
  moreover have "race_final n ?e" using assms by (simp add: race_final_def all_thread)
  ultimately show ?thesis by (force simp: race_outcome_def)
qed

lemma race_outcome_bounds:
  assumes "race_outcome n x"
  shows "x \<le> 2 * int n \<and> (2 \<le> n \<longrightarrow> 2 \<le> x)"
proof -
  obtain s where s: "reach (race_step n) race_init s" "race_final n s" "race_x s = x"
    using assms by (auto simp: race_outcome_def)
  have inv: "race_inv n s" using s(1) by (rule race.reach_inv)
  then have "race_i s t = n" for t using s(2) by (auto simp: race_inv_def race_final_def not_less le_antisym)
  then show ?thesis using inv s(3) by (auto simp: race_inv_def race_total_def)
qed

lemma race_outcome_iff:
  assumes "2 \<le> n"
  shows "race_outcome n x \<longleftrightarrow> 2 \<le> x \<and> x \<le> 2 * int n"
proof
  assume x: "2 \<le> x \<and> x \<le> 2 * int n"
  show "race_outcome n x"
  proof (cases "x \<le> int n")
    case True
    then show ?thesis using race_outcome_low [of "nat (x - 2)" n] x by simp
  next
    case False
    then show ?thesis using race_outcome_high [of "nat (2 * int n - x)" n] x assms by simp
  qed
qed (use race_outcome_bounds [of n x] assms in simp)

section \<open>Properties\<close>

text \<open>C40: the unsynchronised increments of \<^verbatim>\<open>sync_intro/data_race.cpp\<close> can leave every sum from 2
  to 2000, and no other, so the program can print any split of its 1000 runs into correct and
  incorrect ones.\<close>

theorem race_sum_range:
  "(race_outcome 1000 x \<longleftrightarrow> 2 \<le> x \<and> x \<le> 2000) \<and>
   (race_main out \<longleftrightarrow> (\<exists>c i. c + i = 1000 \<and> out = summary ''sum'' c i))"
proof
  show "race_outcome 1000 x \<longleftrightarrow> 2 \<le> x \<and> x \<le> 2000" by (simp add: race_outcome_iff)
  show "race_main out \<longleftrightarrow> (\<exists>c i. c + i = 1000 \<and> out = summary ''sum'' c i)"
    unfolding race_main_def
    by (rule printed_any [of "race_outcome 1000" 2000 _ 2]) (simp_all add: race_outcome_iff)
qed

end
