(* ===== verification/Std_Atomic.thy ===== *)
theory Std_Atomic
  imports Prelude
begin

text \<open>
  The operations of \<^verbatim>\<open>std::atomic<T>\<close> the programs use, as functions on the value of the
  cell, in the sequentially consistent order that every call of the repository asks for
  (none passes a weaker \<^verbatim>\<open>memory_order\<close>). \<^verbatim>\<open>std::atomic<int>\<close> is a 32-bit two's complement
  value whose arithmetic wraps around. The weak compare-and-exchange may fail although
  the values agree; that choice is an argument.
\<close>

type_synonym int32 = "32 word"

text \<open>Each read-modify-write operation returns the old value and the new cell.\<close>

definition atomic_exchange :: "'a \<Rightarrow> 'a \<Rightarrow> 'a \<times> 'a" where
  "atomic_exchange x v = (x, v)"

definition fetch_add :: "int32 \<Rightarrow> int32 \<Rightarrow> int32 \<times> int32" where
  "fetch_add x d = (x, x + d)"

definition fetch_sub :: "int32 \<Rightarrow> int32 \<Rightarrow> int32 \<times> int32" where
  "fetch_sub x d = (x, x - d)"

text \<open>The result, the new cell and the new value of \<^verbatim>\<open>expected\<close>: a successful exchange leaves
  \<^verbatim>\<open>expected\<close> alone, a failed one loads the cell into it.\<close>

definition compare_exchange_weak :: "bool \<Rightarrow> 'a \<Rightarrow> 'a \<Rightarrow> 'a \<Rightarrow> bool \<times> 'a \<times> 'a" where
  "compare_exchange_weak spurious x expected desired =
     (if x = expected \<and> \<not> spurious then (True, desired, expected) else (False, x, x))"

definition compare_exchange_strong :: "'a \<Rightarrow> 'a \<Rightarrow> 'a \<Rightarrow> bool \<times> 'a \<times> 'a" where
  "compare_exchange_strong x expected desired = compare_exchange_weak False x expected desired"

lemmas atomic_defs =
  atomic_exchange_def fetch_add_def fetch_sub_def compare_exchange_weak_def compare_exchange_strong_def

end
