(* ===== verification/Atomics.thy ===== *)
theory Atomics
  imports Std_Atomic Harness
begin

text \<open>
  The programs of \<^verbatim>\<open>synchronization_primitives/atomics\<close>: a tour of the operations of
  \<^verbatim>\<open>std::atomic<int>\<close> (\<^verbatim>\<open>atomic_operations.cpp\<close>), atomic increments (\<^verbatim>\<open>data_race.cpp\<close>), a
  check-then-act race on an atomic (\<^verbatim>\<open>race_condition.cpp\<close>) and its repair by a
  compare-and-exchange loop (\<^verbatim>\<open>cas.cpp\<close>).
\<close>

section \<open>atomic\_operations.cpp\<close>

definition cas_line :: "int32 \<Rightarrow> bool \<Rightarrow> string" where
  "cas_line expected exchanged =
     ''Actual value: '' @ show_int (sint expected) @ '', exchanged: '' @ show_bool exchanged"

definition rmw_line :: "string \<Rightarrow> int32 \<Rightarrow> int32 \<Rightarrow> string" where
  "rmw_line op previousValue x =
     ''Before '' @ op @ '': '' @ show_int (sint previousValue) @ '', after '' @ op @ '': '' @
     show_int (sint x)"

text \<open>The lines printed and the final value; the two flags say whether the two weak
  exchanges fail spuriously.\<close>

definition atomic_operations_main :: "bool \<Rightarrow> bool \<Rightarrow> string list \<times> int32" where
  "atomic_operations_main sp1 sp2 =
     (let x = (100 :: int32);
          o1 = ''Initial value:'' @ show_int (sint x);
          o2 = ''Initial value: '' @ show_int (sint x);
          x = (1337 :: int32);
          o3 = ''Value after assignment: '' @ show_int (sint x);
          x = (228 :: int32);
          o4 = ''Value after store: '' @ show_int (sint x);
          (previousValue, x) = atomic_exchange x 322;
          o5 = rmw_line ''exchange'' previousValue x;
          (previousValue, x) = fetch_add x 1;
          o6 = rmw_line ''fetch_add'' previousValue x;
          (previousValue, x) = fetch_sub x 10;
          o7 = rmw_line ''fetch_sub'' previousValue x;
          expected = 0;
          (exchanged, x, expected) = compare_exchange_strong x expected 322;
          o8 = cas_line expected exchanged;
          (exchanged, x, expected) = compare_exchange_strong x expected 322;
          o9 = cas_line expected exchanged;
          expected = 0;
          (exchanged, x, expected) = compare_exchange_weak sp1 x expected 322;
          o10 = cas_line expected exchanged;
          (exchanged, x, expected) = compare_exchange_weak sp2 x expected 322;
          o11 = cas_line expected exchanged
      in ([o1, o2, o3, o4, o5, o6, o7, o8, o9, o10, o11], x))"

section \<open>data\_race.cpp: atomic increments\<close>

record ainc_state =
  ainc_x :: int32
  ainc_i :: "thread \<Rightarrow> nat"

definition ainc_init :: ainc_state where
  "ainc_init = \<lparr>ainc_x = 0, ainc_i = (\<lambda>_. 0)\<rparr>"

text \<open>One iteration: \<^verbatim>\<open>++x\<close> on the atomic is one indivisible \<^verbatim>\<open>fetch_add\<close>.\<close>

definition ainc_step :: "nat \<Rightarrow> (thread, ainc_state) machine" where
  "ainc_step n t s =
     (if ainc_i s t < n
      then Some (s\<lparr>ainc_x := snd (fetch_add (ainc_x s) 1),
                   ainc_i := (ainc_i s)(t := Suc (ainc_i s t))\<rparr>)
      else None)"

definition ainc_final :: "nat \<Rightarrow> ainc_state \<Rightarrow> bool" where
  "ainc_final n s \<longleftrightarrow> (\<forall>t. \<not> ainc_i s t < n)"

definition ainc_outcome :: "nat \<Rightarrow> int32 \<Rightarrow> bool" where
  "ainc_outcome n x \<longleftrightarrow> (\<exists>s. reach (ainc_step n) ainc_init s \<and> ainc_final n s \<and> ainc_x s = x)"

definition ainc_main :: "string \<Rightarrow> bool" where
  "ainc_main out \<longleftrightarrow> printed ''sum'' 1000 (ainc_outcome 1000) (\<lambda>x. x = 2000) out"

definition ainc_inv :: "nat \<Rightarrow> ainc_state \<Rightarrow> bool" where
  "ainc_inv n s \<longleftrightarrow>
     (\<forall>t. ainc_i s t \<le> n) \<and> ainc_x s = word_of_nat (ainc_i s T1 + ainc_i s T2)"

definition ainc_rank :: "nat \<Rightarrow> ainc_state \<Rightarrow> nat" where
  "ainc_rank n s = (n - ainc_i s T1) + (n - ainc_i s T2)"

interpretation ainc: machine_term "ainc_step n" ainc_init "ainc_inv n" "ainc_rank n" "ainc_final n" for n
proof unfold_locales
  show "ainc_inv n ainc_init" by (simp add: ainc_inv_def ainc_init_def)
  show "ainc_inv n s'" if "ainc_inv n s" "ainc_step n t s = Some s'" for s t s'
    using that by (cases t) (auto simp: ainc_inv_def ainc_step_def fetch_add_def split: if_splits)
  show "\<exists>l t. ainc_step n l s = Some t" if "\<not> ainc_final n s" for s
    using that by (auto simp: ainc_final_def ainc_step_def)
  show "ainc_rank n s' < ainc_rank n s" if "ainc_step n t s = Some s'" for s t s'
    using that by (cases t) (auto simp: ainc_rank_def ainc_step_def split: if_splits)
qed

lemma ainc_outcome_sum: "ainc_outcome n x \<Longrightarrow> x = word_of_nat (2 * n)"
proof -
  assume "ainc_outcome n x"
  then obtain s where s: "reach (ainc_step n) ainc_init s" "ainc_final n s" "ainc_x s = x"
    by (auto simp: ainc_outcome_def)
  have inv: "ainc_inv n s" using s(1) by (rule ainc.reach_inv)
  then have "ainc_i s t \<le> n" for t by (simp add: ainc_inv_def)
  moreover have "n \<le> ainc_i s t" for t using s(2) by (simp add: ainc_final_def not_less)
  ultimately have "ainc_i s T1 = n" "ainc_i s T2 = n" by (simp_all add: le_antisym)
  then show ?thesis using inv s(3) by (simp only: ainc_inv_def mult_2)
qed

lemma ainc_outcome_exists: "\<exists>x. ainc_outcome n x"
  using ainc.live.final_reachable [OF reach_init, of n] by (auto simp: ainc_outcome_def)

section \<open>race\_condition.cpp: check, then act\<close>

datatype rc_pc = RcCheck | RcSub | RcDone

record rc_state =
  rc_x :: int32
  rc_pc :: "thread \<Rightarrow> rc_pc"

definition rc_init :: rc_state where
  "rc_init = \<lparr>rc_x = 100, rc_pc = (\<lambda>_. RcCheck)\<rparr>"

text \<open>\<^verbatim>\<open>if (x > 0) { yield(); x -= 100; }\<close>: the check and the subtraction are atomic each,
  but not together.\<close>

definition rc_step :: "(thread, rc_state) machine" where
  "rc_step t s =
     (case rc_pc s t of
        RcCheck \<Rightarrow> Some (s\<lparr>rc_pc := (rc_pc s)(t := if 0 < sint (rc_x s) then RcSub else RcDone)\<rparr>)
      | RcSub \<Rightarrow> Some (s\<lparr>rc_x := snd (fetch_sub (rc_x s) 100), rc_pc := (rc_pc s)(t := RcDone)\<rparr>)
      | RcDone \<Rightarrow> None)"

definition rc_final :: "rc_state \<Rightarrow> bool" where
  "rc_final s \<longleftrightarrow> (\<forall>t. rc_pc s t = RcDone)"

definition rc_outcome :: "int32 \<Rightarrow> bool" where
  "rc_outcome x \<longleftrightarrow> (\<exists>s. reach rc_step rc_init s \<and> rc_final s \<and> rc_x s = x)"

definition rc_main :: "string \<Rightarrow> bool" where
  "rc_main out \<longleftrightarrow> printed ''value'' 10000 rc_outcome (\<lambda>x. x = 0) out"

definition rc_weight :: "rc_pc \<Rightarrow> nat" where
  "rc_weight p = (case p of RcCheck \<Rightarrow> 2 | RcSub \<Rightarrow> 1 | RcDone \<Rightarrow> 0)"

text \<open>The value is 100 until the first thread has subtracted; both threads can be past the
  check only if both saw 100.\<close>

definition rc_inv :: "rc_state \<Rightarrow> bool" where
  "rc_inv s \<longleftrightarrow>
     (rc_x s = 100 \<and> (\<forall>t. rc_pc s t \<noteq> RcDone)) \<or>
     (rc_x s = 0 \<and> (\<exists>t. rc_pc s t = RcDone)) \<or>
     (rc_x s = -100 \<and> (\<forall>t. rc_pc s t = RcDone))"

interpretation rc: machine_term rc_step rc_init rc_inv
  "\<lambda>s. rc_weight (rc_pc s T1) + rc_weight (rc_pc s T2)" rc_final
proof unfold_locales
  show "rc_inv rc_init" by (simp add: rc_inv_def rc_init_def)
  show "rc_inv s'" if "rc_inv s" "rc_step t s = Some s'" for s t s'
    using that by (cases "rc_pc s t"; cases "rc_pc s (other t)"; cases t)
      (auto simp: rc_inv_def rc_step_def fetch_sub_def all_thread ex_thread)
  show "\<exists>l t. rc_step l s = Some t" if "\<not> rc_final s" for s
    using that by (auto simp: rc_final_def rc_step_def split: rc_pc.splits)
  show "rc_weight (rc_pc s' T1) + rc_weight (rc_pc s' T2) < rc_weight (rc_pc s T1) + rc_weight (rc_pc s T2)"
    if "rc_step t s = Some s'" for s t s'
    using that by (cases t) (auto simp: rc_weight_def rc_step_def split: rc_pc.splits if_splits)
qed

lemma rc_outcome_sub: "rc_outcome x \<Longrightarrow> x = 0 \<or> x = -100"
  using rc.reach_inv by (auto simp: rc_outcome_def rc_inv_def rc_final_def)

lemma rc_outcome_run:
  assumes "run rc_step ls rc_init = Some s" "rc_final s"
  shows "rc_outcome (rc_x s)"
  using run_imp_reach [OF assms(1)] assms(2) by (auto simp: rc_outcome_def)

lemma rc_outcome_correct: "rc_outcome 0"
proof -
  let ?s = "rc_init\<lparr>rc_x := 0, rc_pc := (\<lambda>_. RcDone)\<rparr>"
  have "run rc_step [T1, T1, T2] rc_init = Some ?s"
    by (simp add: rc_step_def rc_init_def fetch_sub_def fun_eq_iff all_thread)
  then have "rc_outcome (rc_x ?s)" by (rule rc_outcome_run) (simp add: rc_final_def)
  then show ?thesis by simp
qed

lemma rc_outcome_incorrect: "rc_outcome (-100)"
proof -
  let ?s = "rc_init\<lparr>rc_x := -100, rc_pc := (\<lambda>_. RcDone)\<rparr>"
  have "run rc_step [T1, T2, T1, T2] rc_init = Some ?s"
    by (simp add: rc_step_def rc_init_def fetch_sub_def fun_eq_iff all_thread)
  then have "rc_outcome (rc_x ?s)" by (rule rc_outcome_run) (simp add: rc_final_def)
  then show ?thesis by simp
qed

section \<open>cas.cpp: the compare-and-exchange loop\<close>

datatype cas_pc = CasLoad | CasLoop int32 | CasDone

record cas_state =
  cas_x :: int32
  cas_pc :: "thread \<Rightarrow> cas_pc"

definition cas_init :: cas_state where
  "cas_init = \<lparr>cas_x = 100, cas_pc = (\<lambda>_. CasLoad)\<rparr>"

text \<open>
  \<^verbatim>\<open>int expected = x.load(); while (expected > 0) x.compare_exchange_weak(expected, expected - 100);\<close>
  The program point \<open>CasLoop\<close> holds the local \<^verbatim>\<open>expected\<close>. A successful exchange does not
  change it, so the loop goes round once more and learns the new value from a failure.
\<close>

fun cas_step :: "(thread \<times> bool, cas_state) machine" where
  "cas_step (t, spurious) s =
     (case cas_pc s t of
        CasLoad \<Rightarrow> Some (s\<lparr>cas_pc := (cas_pc s)(t := CasLoop (cas_x s))\<rparr>)
      | CasLoop expected \<Rightarrow>
          if 0 < sint expected
          then (case compare_exchange_weak spurious (cas_x s) expected (expected - 100) of
                  (exchanged, x, expected') \<Rightarrow>
                    Some (s\<lparr>cas_x := x, cas_pc := (cas_pc s)(t := CasLoop expected')\<rparr>))
          else Some (s\<lparr>cas_pc := (cas_pc s)(t := CasDone)\<rparr>)
      | CasDone \<Rightarrow> None)"

definition cas_final :: "cas_state \<Rightarrow> bool" where
  "cas_final s \<longleftrightarrow> (\<forall>t. cas_pc s t = CasDone)"

definition cas_outcome :: "int32 \<Rightarrow> bool" where
  "cas_outcome x \<longleftrightarrow> (\<exists>s. reach cas_step cas_init s \<and> cas_final s \<and> cas_x s = x)"

definition cas_main :: "string \<Rightarrow> bool" where
  "cas_main out \<longleftrightarrow> printed ''value'' 10000 cas_outcome (\<lambda>x. x = 0) out"

text \<open>The cell holds 100 or 0, and so does every \<^verbatim>\<open>expected\<close>; nobody has seen 0 while it
  still holds 100.\<close>

fun cas_pc_ok :: "int32 \<Rightarrow> cas_pc \<Rightarrow> bool" where
  "cas_pc_ok x CasLoad = True"
| "cas_pc_ok x (CasLoop e) = (e = 100 \<or> e = 0 \<and> x = 0)"
| "cas_pc_ok x CasDone = (x = 0)"

definition cas_inv :: "cas_state \<Rightarrow> bool" where
  "cas_inv s \<longleftrightarrow> (cas_x s = 100 \<or> cas_x s = 0) \<and> (\<forall>t. cas_pc_ok (cas_x s) (cas_pc s t))"

fun cas_weight :: "cas_pc \<Rightarrow> nat" where
  "cas_weight CasLoad = 3"
| "cas_weight (CasLoop e) = (if e = 0 then 1 else 2)"
| "cas_weight CasDone = 0"

definition cas_rank :: "cas_state \<Rightarrow> nat" where
  "cas_rank s = cas_weight (cas_pc s T1) + cas_weight (cas_pc s T2) + (if cas_x s = 0 then 0 else 1)"

lemma cas_rank_via:
  "cas_rank s = cas_weight (cas_pc s t) + cas_weight (cas_pc s (other t)) + (if cas_x s = 0 then 0 else 1)"
  by (cases t) (simp_all add: cas_rank_def)

lemma cas_inv_via:
  "cas_inv s \<longleftrightarrow> (cas_x s = 100 \<or> cas_x s = 0) \<and>
     cas_pc_ok (cas_x s) (cas_pc s t) \<and> cas_pc_ok (cas_x s) (cas_pc s (other t))"
  by (cases t) (auto simp: cas_inv_def all_thread)

lemma cas_inv_step:
  assumes "cas_inv s" "cas_step (t, sp) s = Some s'"
  shows "cas_inv s'"
proof (cases "cas_pc s t")
  case CasLoad
  then show ?thesis using assms by (auto simp: cas_inv_via [of _ t])
next
  case (CasLoop e)
  then show ?thesis using assms
    by (cases "cas_pc s (other t)")
      (auto simp: cas_inv_via [of _ t] compare_exchange_weak_def split: if_splits)
next
  case CasDone
  then show ?thesis using assms by simp
qed

text \<open>A step whose exchange does not fail spuriously brings the program closer to its end.\<close>

lemma cas_decrease:
  assumes "cas_inv s" "cas_pc s t \<noteq> CasDone"
  shows "\<exists>s'. cas_step (t, False) s = Some s' \<and> cas_rank s' < cas_rank s"
  using assms
  by (cases "cas_pc s t") (auto simp: cas_inv_via [of _ t] cas_rank_via [of _ t] compare_exchange_weak_def)

interpretation cas: machine_live cas_step cas_init cas_inv cas_rank cas_final
proof unfold_locales
  show "cas_inv cas_init" by (simp add: cas_inv_def cas_init_def)
  show "cas_inv s'" if "cas_inv s" "cas_step l s = Some s'" for s l s'
    using that by (cases l) (auto intro: cas_inv_step)
  show "\<exists>l t. cas_step l s = Some t \<and> cas_rank t < cas_rank s" if "cas_inv s" "\<not> cas_final s" for s
    using that cas_decrease unfolding cas_final_def by blast
qed

lemma cas_outcome_zero: "cas_outcome x \<longleftrightarrow> x = 0"
proof
  assume "cas_outcome x"
  then obtain s where s: "reach cas_step cas_init s" "cas_final s" "cas_x s = x"
    by (auto simp: cas_outcome_def)
  have "cas_pc_ok (cas_x s) (cas_pc s T1)" using cas.reach_inv [OF s(1)] by (simp add: cas_inv_def)
  with s(2,3) show "x = 0" by (simp add: cas_final_def)
next
  assume "x = 0"
  moreover obtain s where s: "reach cas_step cas_init s" "cas_final s"
    using cas.final_reachable [OF reach_init] by blast
  moreover have "cas_x s = 0"
    using cas.reach_inv [OF s(1)] s(2) by (simp add: cas_inv_def cas_final_def)
  ultimately show "cas_outcome x" by (auto simp: cas_outcome_def)
qed

section \<open>Properties\<close>

text \<open>The output of \<^verbatim>\<open>atomic_operations.cpp\<close> is determined up to one bit: the two strong
  exchanges and the first weak one behave as documented whatever the hardware does, only the
  last weak exchange may fail spuriously; the final value is 322 in both cases.\<close>

theorem atomic_operations_output:
  "atomic_operations_main sp1 sp2 =
     ([''Initial value:100'', ''Initial value: 100'', ''Value after assignment: 1337'',
       ''Value after store: 228'', ''Before exchange: 228, after exchange: 322'',
       ''Before fetch_add: 322, after fetch_add: 323'',
       ''Before fetch_sub: 323, after fetch_sub: 313'',
       ''Actual value: 313, exchanged: false'', ''Actual value: 313, exchanged: true'',
       ''Actual value: 322, exchanged: false'',
       ''Actual value: 322, exchanged: '' @ show_bool (\<not> sp2)], 322)"
  by (simp add: atomic_operations_main_def atomic_defs rmw_line_def cas_line_def show_int_def
      show_nat.simps digit_def show_bool_def)

text \<open>With \<^verbatim>\<open>std::atomic<int>\<close> the increments of \<^verbatim>\<open>atomics/data_race.cpp\<close> are never lost: the only
  line the program can print is that all 1000 sums are correct.\<close>

theorem ainc_main_prints: "ainc_main out \<longleftrightarrow> out = ''Correct sum: 1000, incorrect sum: 0''"
proof -
  obtain x where "ainc_outcome 1000 x" using ainc_outcome_exists by blast
  moreover have "x = 2000" if "ainc_outcome 1000 x" for x using ainc_outcome_sum [OF that] by simp
  ultimately have "ainc_main out \<longleftrightarrow> out = summary ''sum'' 1000 0"
    unfolding ainc_main_def by (rule printed_all_ok)
  also have "summary ''sum'' 1000 0 = ''Correct sum: 1000, incorrect sum: 0''" by (simp add: summary_def show_nat.simps digit_def)
  finally show ?thesis .
qed

text \<open>An atomic variable does not make check-then-act atomic: an experiment of
  \<^verbatim>\<open>race_condition.cpp\<close> ends with 0 or with -100, both happen, and the program can print any
  split of its 10000 runs.\<close>

theorem race_condition_main_prints:
  "(rc_outcome x \<longleftrightarrow> x = 0 \<or> x = -100) \<and>
   (rc_main out \<longleftrightarrow> (\<exists>c i. c + i = 10000 \<and> out = summary ''value'' c i))"
proof
  show "rc_outcome x \<longleftrightarrow> x = 0 \<or> x = -100"
    using rc_outcome_sub rc_outcome_correct rc_outcome_incorrect by blast
  show "rc_main out \<longleftrightarrow> (\<exists>c i. c + i = 10000 \<and> out = summary ''value'' c i)"
    unfolding rc_main_def
    by (rule printed_any [of rc_outcome 0 _ "-100"]) (simp_all add: rc_outcome_correct rc_outcome_incorrect)
qed

text \<open>The compare-and-exchange loop of \<^verbatim>\<open>cas.cpp\<close> repairs it: whatever the interleaving and
  however often an exchange fails spuriously, exactly one thread subtracts, and the only line
  the program can print is that all 10000 values are correct.\<close>

theorem cas_main_prints: "cas_main out \<longleftrightarrow> out = ''Correct value: 10000, incorrect value: 0''"
proof -
  have "cas_main out \<longleftrightarrow> out = summary ''value'' 10000 0"
    unfolding cas_main_def by (rule printed_all_ok [of cas_outcome 0]) (simp_all add: cas_outcome_zero)
  also have "summary ''value'' 10000 0 = ''Correct value: 10000, incorrect value: 0''" by (simp add: summary_def show_nat.simps digit_def)
  finally show ?thesis .
qed

end
