(* ===== verification/CVLock.thy ===== *)
theory CVLock
  imports Locks
begin

text \<open>
  \<^verbatim>\<open>synchronization_primitives/condition_variable/condvar_intro.cpp\<close>: the class \<^verbatim>\<open>CVLock\<close>, a
  lock made of a mutex, a condition variable and a flag, under the increment program.
  Each statement of \<^verbatim>\<open>lock()\<close> and \<^verbatim>\<open>unlock()\<close> that touches shared state is one step:
  taking \<^verbatim>\<open>m_mtx\<close> in the \<^verbatim>\<open>unique_lock\<close>, testing the flag and going to sleep (\<^verbatim>\<open>wait\<close> gives
  the mutex back and blocks in one step), waking up (by \<^verbatim>\<open>notify_one\<close>, or spuriously as the
  standard allows), taking the mutex again, writing the flag, giving the mutex back.

  \<^verbatim>\<open>lock()\<close> tests the flag with \<^verbatim>\<open>if\<close>, not \<^verbatim>\<open>while\<close>: a woken thread proceeds without looking at
  the flag again. No thread sleeps for ever, even when no wake-up is
  spurious, and the program always terminates; but mutual exclusion fails and increments are lost.
\<close>

section \<open>The lock\<close>

datatype cv_pc =
    CvOut | LCheck | LWaiting | LWoken | LSet | LExit
  | CvHeld | UClear | UNotify | UExit

record cvlock =
  cv_mtx :: "thread option"
  cv_locked :: bool
  cv_pc :: "thread \<Rightarrow> cv_pc"

datatype cv_choice = Go | SpuriousWake

definition cvlock_init :: cvlock where
  "cvlock_init = \<lparr>cv_mtx = None, cv_locked = False, cv_pc = (\<lambda>_. CvOut)\<rparr>"

definition cv_acquire :: "thread \<Rightarrow> cv_pc \<Rightarrow> cvlock \<Rightarrow> cvlock option" where
  "cv_acquire t p k =
     (if cv_mtx k = None then Some (k\<lparr>cv_mtx := Some t, cv_pc := (cv_pc k)(t := p)\<rparr>) else None)"

fun CVLock_lock :: "(thread, cv_choice, cvlock) lock_op" where
  "CVLock_lock t SpuriousWake k =
     (if cv_pc k t = LWaiting then Some (k\<lparr>cv_pc := (cv_pc k)(t := LWoken)\<rparr>) else None)"
| "CVLock_lock t Go k =
     (case cv_pc k t of
        CvOut \<Rightarrow> cv_acquire t LCheck k
      | LCheck \<Rightarrow>
          if cv_locked k
          then Some (k\<lparr>cv_mtx := None, cv_pc := (cv_pc k)(t := LWaiting)\<rparr>)
          else Some (k\<lparr>cv_pc := (cv_pc k)(t := LSet)\<rparr>)
      | LWoken \<Rightarrow> cv_acquire t LSet k
      | LSet \<Rightarrow> Some (k\<lparr>cv_locked := True, cv_pc := (cv_pc k)(t := LExit)\<rparr>)
      | LExit \<Rightarrow> Some (k\<lparr>cv_mtx := None, cv_pc := (cv_pc k)(t := CvHeld)\<rparr>)
      | _ \<Rightarrow> None)"

text \<open>\<^verbatim>\<open>notify_one\<close> wakes a waiting thread if there is one; of two threads only the other can
  be waiting.\<close>

definition notify_one :: "thread \<Rightarrow> (thread \<Rightarrow> cv_pc) \<Rightarrow> thread \<Rightarrow> cv_pc" where
  "notify_one t pcs = (if pcs (other t) = LWaiting then pcs(other t := LWoken) else pcs)"

fun CVLock_unlock :: "(thread, cv_choice, cvlock) lock_op" where
  "CVLock_unlock t SpuriousWake k = None"
| "CVLock_unlock t Go k =
     (case cv_pc k t of
        CvHeld \<Rightarrow> cv_acquire t UClear k
      | UClear \<Rightarrow> Some (k\<lparr>cv_locked := False, cv_pc := (cv_pc k)(t := UNotify)\<rparr>)
      | UNotify \<Rightarrow> Some (k\<lparr>cv_pc := (notify_one t (cv_pc k))(t := UExit)\<rparr>)
      | UExit \<Rightarrow> Some (k\<lparr>cv_mtx := None, cv_pc := (cv_pc k)(t := CvOut)\<rparr>)
      | _ \<Rightarrow> None)"

fun cv_pc_phase :: "cv_pc \<Rightarrow> phase" where
  "cv_pc_phase CvOut = Out"
| "cv_pc_phase CvHeld = Held"
| "cv_pc_phase UClear = Releasing"
| "cv_pc_phase UNotify = Releasing"
| "cv_pc_phase UExit = Releasing"
| "cv_pc_phase _ = Acquiring"

definition cv_phase :: "cvlock \<Rightarrow> thread \<Rightarrow> phase" where
  "cv_phase k t = cv_pc_phase (cv_pc k t)"

definition cv_step :: "nat \<Rightarrow> (thread \<times> cv_choice, cvlock inc_state) machine" where
  "cv_step n = inc_step CVLock_lock CVLock_unlock cv_phase n"

definition cvlock_main :: "string \<Rightarrow> bool" where
  "cvlock_main out \<longleftrightarrow>
     printed ''sum'' 1000 (inc_outcome CVLock_lock CVLock_unlock cv_phase cvlock_init 1000)
       (\<lambda>x. x = 2000) out"

section \<open>Lost updates under any lock\<close>

text \<open>\<open>slack d\<close>: at least \<open>d\<close> of the stored increments are missing from \<^verbatim>\<open>x\<close>, and from every
  value read so far and not yet written back. An update once lost stays lost.\<close>

definition stored :: "'k inc_state \<Rightarrow> int" where
  "stored s = int (inc_done s T1) + int (inc_done s T2)"

definition slack :: "int \<Rightarrow> 'k inc_state \<Rightarrow> bool" where
  "slack d s \<longleftrightarrow> inc_x s + d \<le> stored s \<and> (\<forall>t v. inc_pc s t = AtStore v \<longrightarrow> v + d \<le> stored s)"

lemma slack_step:
  assumes "slack d s" and st: "inc_step lock unlock phase n (t, c) s = Some s'"
  shows "slack d s'"
proof (cases "inc_pc s t")
  case AtLoop
  then show ?thesis using assms
    by (cases "inc_i s t < n"; cases t) (auto simp: slack_def stored_def all_thread)
next
  case InLock
  then show ?thesis using assms
    by (cases t) (auto simp: slack_def stored_def all_thread split: option.splits if_splits)
next
  case AtLoad
  then show ?thesis using assms by (cases t) (auto simp: slack_def stored_def all_thread)
next
  case (AtStore v)
  have s': "s' = s\<lparr>inc_x := v + 1, inc_pc := (inc_pc s)(t := InUnlock)\<rparr>" using AtStore st by simp
  have "stored s' = stored s + 1" using AtStore by (cases t) (simp_all add: s' stored_def)
  moreover have "inc_x s' + d \<le> stored s + 1" using assms(1) AtStore by (simp add: slack_def s')
  moreover have "w + d \<le> stored s + 1" if "inc_pc s' u = AtStore w" for u w
  proof -
    have "inc_pc s u = AtStore w" using that by (simp add: s' split: if_splits)
    then have "w + d \<le> stored s" using assms(1) by (simp add: slack_def)
    then show ?thesis by simp
  qed
  ultimately show ?thesis by (simp add: slack_def)
next
  case InUnlock
  then show ?thesis using assms
    by (cases t) (auto simp: slack_def stored_def all_thread split: option.splits if_splits)
next
  case Finished
  then show ?thesis using st by simp
qed

lemma slack_reach: "reach (inc_step lock unlock phase n) s s' \<Longrightarrow> slack d s \<Longrightarrow> slack d s'"
proof (induction rule: reach.induct)
  case (reach_step s1 l s2)
  then have "slack d s1" by simp
  moreover obtain t c where "l = (t, c)" by (cases l)
  ultimately show ?case using reach_step.hyps(2) slack_step [of d s1 lock unlock phase n t c s2]
    by (simp only:)
qed (simp only:)

section \<open>The invariant of the lock\<close>

fun in_mtx :: "cv_pc \<Rightarrow> bool" where
  "in_mtx p = (p \<in> {LCheck, LSet, LExit, UClear, UNotify, UExit})"

text \<open>The mutex is owned by the thread inside it; the flag is up only between some thread's
  \<^verbatim>\<open>m_locked = true\<close> and its \<^verbatim>\<open>m_locked = false\<close>; a sleeping thread's partner has a
  \<^verbatim>\<open>notify_one\<close> still to come.\<close>

definition cv_inv :: "cvlock \<Rightarrow> bool" where
  "cv_inv k \<longleftrightarrow>
     (\<forall>t. cv_mtx k = Some t \<longleftrightarrow> in_mtx (cv_pc k t)) \<and>
     (cv_locked k \<longrightarrow> (\<exists>t. cv_pc k t \<in> {LExit, CvHeld, UClear})) \<and>
     (\<forall>t. cv_pc k t = LWaiting \<longrightarrow> cv_pc k (other t) \<in> {LExit, CvHeld, UClear, UNotify})"

lemma cv_inv_via:
  "cv_inv k \<longleftrightarrow>
     (cv_mtx k = Some t \<longleftrightarrow> in_mtx (cv_pc k t)) \<and>
     (cv_mtx k = Some (other t) \<longleftrightarrow> in_mtx (cv_pc k (other t))) \<and>
     (cv_locked k \<longrightarrow> cv_pc k t \<in> {LExit, CvHeld, UClear} \<or> cv_pc k (other t) \<in> {LExit, CvHeld, UClear}) \<and>
     (cv_pc k t = LWaiting \<longrightarrow> cv_pc k (other t) \<in> {LExit, CvHeld, UClear, UNotify}) \<and>
     (cv_pc k (other t) = LWaiting \<longrightarrow> cv_pc k t \<in> {LExit, CvHeld, UClear, UNotify})"
  unfolding cv_inv_def by (cases t) (auto simp: all_thread ex_thread)

lemma cv_inv_lock:
  assumes "cv_inv k" "CVLock_lock t c k = Some k'"
  shows "cv_inv k'"
  using assms
  by (cases c; cases "cv_pc k t"; cases "cv_pc k (other t)")
    (auto simp: cv_inv_via [of _ t] cv_acquire_def split: if_splits)

lemma cv_inv_unlock:
  assumes "cv_inv k" "CVLock_unlock t c k = Some k'"
  shows "cv_inv k'"
  using assms
  by (cases c; cases "cv_pc k t"; cases "cv_pc k (other t)")
    (auto simp: cv_inv_via [of _ t] cv_acquire_def notify_one_def split: if_splits)

section \<open>The increment program on this lock\<close>

definition cvc_ok :: "nat \<Rightarrow> cvlock inc_state \<Rightarrow> thread \<Rightarrow> bool" where
  "cvc_ok n s t \<longleftrightarrow>
     cv_phase (inc_lk s) t \<in> pc_phase (inc_pc s t) \<and> pc_count_ok n (inc_pc s t) (inc_i s t)"

definition cvc_inv :: "nat \<Rightarrow> cvlock inc_state \<Rightarrow> bool" where
  "cvc_inv n s \<longleftrightarrow> cv_inv (inc_lk s) \<and> (\<forall>t. cvc_ok n s t)"

lemma cvc_inv_via:
  "cvc_inv n s \<longleftrightarrow> cv_inv (inc_lk s) \<and> cvc_ok n s t \<and> cvc_ok n s (other t)"
  by (cases t) (auto simp: cvc_inv_def all_thread)

lemma cv_lock_phase:
  assumes "CVLock_lock t c k = Some k'"
  shows "cv_phase k' t \<in> {Acquiring, Held}" "cv_phase k' (other t) = cv_phase k (other t)"
  using assms
  by (cases c; cases "cv_pc k t"; auto simp: cv_phase_def cv_acquire_def split: if_splits)+

lemma cv_unlock_phase:
  assumes "CVLock_unlock t c k = Some k'"
  shows "cv_phase k' t \<in> {Releasing, Out}" "cv_phase k' (other t) = cv_phase k (other t)"
  using assms
  by (cases c; cases "cv_pc k t"; auto simp: cv_phase_def cv_acquire_def notify_one_def split: if_splits)+

lemma cvc_inv_step:
  assumes inv: "cvc_inv n s" and st: "cv_step n (t, c) s = Some s'"
  shows "cvc_inv n s'"
proof -
  have k: "cv_inv (inc_lk s)" and t: "cvc_ok n s t" and u: "cvc_ok n s (other t)"
    using inv by (simp_all add: cvc_inv_via [of n s t])
  note defs = cvc_inv_via [of n _ t] cvc_ok_def cv_step_def
  show ?thesis
  proof (cases "inc_pc s t")
    case AtLoop
    then show ?thesis using st k t u by (cases "inc_i s t < n") (auto simp: defs)
  next
    case InLock
    then obtain k' where k': "CVLock_lock t c (inc_lk s) = Some k'"
      and s': "s' = s\<lparr>inc_lk := k', inc_pc := (inc_pc s)(t := if cv_phase k' t = Held then AtLoad else InLock)\<rparr>"
      using st by (auto simp: cv_step_def split: option.splits)
    show ?thesis
      using cv_inv_lock [OF k k'] cv_lock_phase [OF k'] InLock t u by (auto simp: defs s')
  next
    case InUnlock
    then obtain k' where k': "CVLock_unlock t c (inc_lk s) = Some k'"
      and s': "s' = (if cv_phase k' t = Out
          then s\<lparr>inc_lk := k', inc_i := (inc_i s)(t := Suc (inc_i s t)), inc_pc := (inc_pc s)(t := AtLoop)\<rparr>
          else s\<lparr>inc_lk := k'\<rparr>)"
      using st by (auto simp: cv_step_def split: option.splits if_splits)
    show ?thesis
      using cv_inv_unlock [OF k k'] cv_unlock_phase [OF k'] InUnlock t u by (auto simp: defs s')
  qed (use st k t u in \<open>auto simp: defs\<close>)
qed

text \<open>A bound on the remaining steps of a thread: its iterations, its program point, and its
  position inside the lock's code. A thread waits at most once in a call of \<^verbatim>\<open>lock()\<close>.\<close>

fun cv_pos :: "cv_pc \<Rightarrow> nat" where
  "cv_pos CvOut = 6" | "cv_pos LCheck = 5" | "cv_pos LWaiting = 4" | "cv_pos LWoken = 3"
| "cv_pos LSet = 2" | "cv_pos LExit = 1"
| "cv_pos CvHeld = 4" | "cv_pos UClear = 3" | "cv_pos UNotify = 2" | "cv_pos UExit = 1"

fun cvc_pos :: "inc_pc \<Rightarrow> cv_pc \<Rightarrow> nat" where
  "cvc_pos AtLoop p = 15"
| "cvc_pos InLock p = 8 + cv_pos p"
| "cvc_pos AtLoad p = 7"
| "cvc_pos (AtStore v) p = 6"
| "cvc_pos InUnlock p = 1 + cv_pos p"
| "cvc_pos Finished p = 0"

fun cvc_weight :: "nat \<Rightarrow> cvlock inc_state \<Rightarrow> thread \<Rightarrow> nat" where
  "cvc_weight n s t = 15 * (n - inc_i s t) + cvc_pos (inc_pc s t) (cv_pc (inc_lk s) t)"

definition cvc_rank :: "nat \<Rightarrow> cvlock inc_state \<Rightarrow> nat" where
  "cvc_rank n s = cvc_weight n s T1 + cvc_weight n s T2"

lemma cvc_rank_via: "cvc_rank n s = cvc_weight n s t + cvc_weight n s (other t)"
  by (cases t) (simp_all add: cvc_rank_def)

lemma cv_lock_pos:
  assumes "CVLock_lock t c k = Some k'"
  shows "cv_phase k' t = Held \<or> cv_pos (cv_pc k' t) < cv_pos (cv_pc k t)"
    "cv_pc k' (other t) = cv_pc k (other t)"
  using assms
  by (cases c; cases "cv_pc k t"; auto simp: cv_phase_def cv_acquire_def split: if_splits)+

lemma cv_unlock_pos:
  assumes "CVLock_unlock t c k = Some k'"
  shows "cv_phase k' t = Out \<or> cv_pos (cv_pc k' t) < cv_pos (cv_pc k t)"
    "cv_pc k' (other t) = cv_pc k (other t) \<or> cv_pc k (other t) = LWaiting \<and> cv_pc k' (other t) = LWoken"
  using assms
  by (cases c; cases "cv_pc k t"; auto simp: cv_phase_def cv_acquire_def notify_one_def split: if_splits)+

lemma cvc_pos_mono: "cv_pos p \<le> cv_pos q \<Longrightarrow> cvc_pos a p \<le> cvc_pos a q"
  by (cases a) auto

lemma cv_pos_phase:
  "cv_pc_phase p = Out \<Longrightarrow> cv_pos p = 6" "cv_pc_phase p = Held \<Longrightarrow> cv_pos p = 4"
  by (cases p; simp)+

lemma cvc_decrease:
  assumes inv: "cvc_inv n s" and st: "cv_step n (t, c) s = Some s'"
  shows "cvc_rank n s' < cvc_rank n s"
proof -
  have t: "cvc_ok n s t" using inv by (simp add: cvc_inv_def)
  note r = cvc_rank_via [of n _ t]
  show ?thesis
  proof (cases "inc_pc s t")
    case InLock
    then obtain k' where k': "CVLock_lock t c (inc_lk s) = Some k'"
      and s': "s' = s\<lparr>inc_lk := k', inc_pc := (inc_pc s)(t := if cv_phase k' t = Held then AtLoad else InLock)\<rparr>"
      using st by (auto simp: cv_step_def split: option.splits)
    show ?thesis using cv_lock_pos [OF k'] InLock by (auto simp: r s')
  next
    case InUnlock
    then obtain k' where k': "CVLock_unlock t c (inc_lk s) = Some k'"
      and s': "s' = (if cv_phase k' t = Out
          then s\<lparr>inc_lk := k', inc_i := (inc_i s)(t := Suc (inc_i s t)), inc_pc := (inc_pc s)(t := AtLoop)\<rparr>
          else s\<lparr>inc_lk := k'\<rparr>)"
      using st by (auto simp: cv_step_def split: option.splits if_splits)
    have "inc_i s t < n" using t InUnlock by (simp add: cvc_ok_def)
    moreover have "cv_pos (cv_pc k' (other t)) \<le> cv_pos (cv_pc (inc_lk s) (other t))"
      using cv_unlock_pos(2) [OF k'] by auto
    then have "cvc_weight n s' (other t) \<le> cvc_weight n s (other t)"
      using cvc_pos_mono [of _ _ "inc_pc s (other t)"] by (simp add: s')
    moreover have "cvc_weight n s' t < cvc_weight n s t"
      using cv_unlock_pos(1) [OF k'] InUnlock \<open>inc_i s t < n\<close> by (auto simp: s')
    ultimately show ?thesis unfolding r by linarith
  qed (use st t in \<open>auto simp: r cv_step_def cvc_ok_def cv_phase_def cv_pos_phase\<close>)
qed

text \<open>A thread that owns the mutex moves, and so does one that needs it while it is free; the
  only other blocked position is the wait, and there the partner is on its way to
  \<^verbatim>\<open>notify_one\<close>.\<close>

lemma cvc_moves:
  assumes inv: "cvc_inv n s" and p: "inc_pc s t \<noteq> Finished" "cv_pc (inc_lk s) t \<noteq> LWaiting"
    and m: "cv_mtx (inc_lk s) = None \<or> cv_mtx (inc_lk s) = Some t"
  shows "\<exists>s'. cv_step n (t, Go) s = Some s'"
proof -
  have "cvc_ok n s t" "cv_mtx (inc_lk s) = Some t \<longleftrightarrow> in_mtx (cv_pc (inc_lk s) t)"
    using inv by (simp_all add: cvc_inv_def cv_inv_def del: in_mtx.simps)
  then show ?thesis using p m
    by (cases "inc_pc s t"; cases "cv_pc (inc_lk s) t")
      (auto simp: cvc_ok_def cv_step_def cv_phase_def cv_acquire_def)
qed

lemma cvc_enabled:
  assumes inv: "cvc_inv n s" and nf: "\<not> inc_final s"
  shows "\<exists>t s'. cv_step n (t, Go) s = Some s'"
proof (cases "cv_mtx (inc_lk s)")
  case (Some t)
  have "in_mtx (cv_pc (inc_lk s) t)" "cvc_ok n s t"
    using inv Some unfolding cvc_inv_def cv_inv_def by blast+
  then have "inc_pc s t \<noteq> Finished" "cv_pc (inc_lk s) t \<noteq> LWaiting"
    by (auto simp: cvc_ok_def cv_phase_def)
  then show ?thesis using cvc_moves [OF inv] Some by blast
next
  case None
  obtain t where t: "inc_pc s t \<noteq> Finished" using nf by (auto simp: inc_final_def)
  show ?thesis
  proof (cases "cv_pc (inc_lk s) t = LWaiting")
    case True
    have "cv_pc (inc_lk s) (other t) \<in> {LExit, CvHeld, UClear, UNotify}" "cvc_ok n s (other t)"
      using inv True by (simp_all add: cvc_inv_def cv_inv_def)
    then have "inc_pc s (other t) \<noteq> Finished" "cv_pc (inc_lk s) (other t) \<noteq> LWaiting"
      by (auto simp: cvc_ok_def cv_phase_def)
    then show ?thesis using cvc_moves [OF inv] None by blast
  next
    case False
    then show ?thesis using cvc_moves [OF inv t] None by blast
  qed
qed

interpretation cvc: machine_term "cv_step n" "inc_init cvlock_init" "cvc_inv n" "cvc_rank n" inc_final for n
proof unfold_locales
  show "cvc_inv n (inc_init cvlock_init)"
    by (simp add: cvc_inv_def cv_inv_def cvc_ok_def cv_phase_def inc_init_def cvlock_init_def)
  show "cvc_inv n s'" if "cvc_inv n s" "cv_step n l s = Some s'" for s l s'
    using that by (cases l) (auto intro: cvc_inv_step)
  show "\<exists>l t. cv_step n l s = Some t" if "cvc_inv n s" "\<not> inc_final s" for s
    using cvc_enabled [OF that] by blast
  show "cvc_rank n s' < cvc_rank n s" if "cvc_inv n s" "cv_step n l s = Some s'" for s l s'
    using that by (cases l) (auto intro: cvc_decrease)
qed

section \<open>The stolen wake-up\<close>

text \<open>
  The schedule that breaks the lock, with no spurious wake-up: the second thread sleeps
  while the first holds the lock; the first unlocks, notifies it and takes the lock again
  before the sleeper gets the mutex; the sleeper then proceeds without testing the flag.
\<close>

definition stolen_wakeup :: "(thread \<times> cv_choice) list" where
  "stolen_wakeup =
     replicate 5 (T1, Go) @ replicate 3 (T2, Go) @ replicate 6 (T1, Go) @
     replicate 5 (T1, Go) @ replicate 3 (T2, Go)"

definition both_inside :: "cvlock inc_state" where
  "both_inside =
     \<lparr>inc_lk = \<lparr>cv_mtx = None, cv_locked = True, cv_pc = (\<lambda>_. CvHeld)\<rparr>, inc_x = 1,
      inc_i = (\<lambda>_. 0)(T1 := 1), inc_pc = (\<lambda>_. AtLoad)\<rparr>"

lemma stolen_wakeup_run:
  "2 \<le> n \<Longrightarrow> run (cv_step n) stolen_wakeup (inc_init cvlock_init) = Some both_inside"
  by (simp add: stolen_wakeup_def both_inside_def numeral_eq_Suc cv_step_def cv_acquire_def cv_phase_def
      notify_one_def inc_init_def cvlock_init_def fun_eq_iff all_thread)

definition update_lost :: "cvlock inc_state" where
  "update_lost = both_inside\<lparr>inc_x := 2, inc_pc := (\<lambda>_. InUnlock)\<rparr>"

lemma update_lost_run:
  "run (cv_step n) [(T1, Go), (T2, Go), (T1, Go), (T2, Go)] both_inside = Some update_lost"
  by (simp add: both_inside_def update_lost_def cv_step_def fun_eq_iff all_thread)

lemma update_lost_reach: "2 \<le> n \<Longrightarrow> reach (cv_step n) (inc_init cvlock_init) update_lost"
  using run_imp_reach [OF stolen_wakeup_run] run_imp_reach [OF update_lost_run] by (rule reach_trans)

lemma cv_final_stored:
  assumes "reach (cv_step n) (inc_init cvlock_init) s" "inc_final s"
  shows "stored s = 2 * int n"
proof -
  have "cvc_inv n s" using assms(1) by (rule cvc.reach_inv)
  then have "pc_count_ok n (inc_pc s t) (inc_i s t)" for t by (simp add: cvc_inv_def cvc_ok_def)
  then have "inc_i s t = n" for t using assms(2) by (simp add: inc_final_def)
  then show ?thesis using assms(2) by (simp add: stored_def inc_final_def)
qed

lemma cv_outcome_incorrect:
  assumes "2 \<le> n"
  shows "\<exists>x. inc_outcome CVLock_lock CVLock_unlock cv_phase cvlock_init n x \<and> x < 2 * int n"
proof -
  have r: "reach (cv_step n) (inc_init cvlock_init) update_lost" using assms by (rule update_lost_reach)
  then obtain s where s: "reach (cv_step n) update_lost s" "inc_final s"
    using cvc.live.final_reachable by blast
  have r': "reach (cv_step n) (inc_init cvlock_init) s" using r s(1) by (rule reach_trans)
  have "slack 1 update_lost"
    by (simp add: slack_def stored_def update_lost_def both_inside_def)
  then have "slack 1 s" using s(1) unfolding cv_step_def by (rule slack_reach [rotated])
  then have "inc_x s < 2 * int n" using cv_final_stored [OF r' s(2)] by (simp add: slack_def)
  then show ?thesis using r' s(2) unfolding inc_outcome_def cv_step_def [symmetric] by blast
qed

section \<open>Properties\<close>

text \<open>C34: the increment program on \<^verbatim>\<open>CVLock\<close> always terminates: every schedule, spurious
  wake-ups included, has at most \<open>30 * (n + 1)\<close> steps, and a state in which no thread can go on
  by itself, that is without a spurious wake-up of a sleeper, has joined both threads. So no
  wake-up is lost, no thread sleeps for ever and there is no deadlock, even if spurious
  wake-ups never happen.\<close>

theorem cvlock_terminates:
  assumes "run (cv_step n) ls (inc_init cvlock_init) = Some s"
  shows "length ls \<le> 30 * (n + 1) \<and> ((\<forall>t. cv_step n (t, Go) s = None) \<longrightarrow> inc_final s)"
proof
  show "length ls \<le> 30 * (n + 1)"
    using cvc.run_length [OF assms] by (simp add: cvc_rank_def inc_init_def)
  have "cvc_inv n s" using assms by (rule cvc.run_inv)
  then show "(\<forall>t. cv_step n (t, Go) s = None) \<longrightarrow> inc_final s"
    using cvc_enabled [of n s] by force
qed

theorem cvlock_terminates_witness:
  "\<exists>s. run (cv_step 2) stolen_wakeup (inc_init cvlock_init) = Some s \<and>
     length stolen_wakeup \<le> 30 * (2 + 1) \<and> ((\<forall>t. cv_step 2 (t, Go) s = None) \<longrightarrow> inc_final s)"
  using cvlock_terminates [OF stolen_wakeup_run [of 2]] stolen_wakeup_run [of 2] by auto

text \<open>C35: \<^verbatim>\<open>CVLock\<close> does not exclude: without any spurious wake-up, both threads can be past
  \<^verbatim>\<open>lock()\<close> at the same time.\<close>

theorem cvlock_not_exclusive:
  "\<exists>ls s. set ls \<subseteq> {(T1, Go), (T2, Go)} \<and> run (cv_step 1000) ls (inc_init cvlock_init) = Some s \<and>
     cv_phase (inc_lk s) T1 = Held \<and> cv_phase (inc_lk s) T2 = Held"
proof (intro exI conjI)
  show "set stolen_wakeup \<subseteq> {(T1, Go), (T2, Go)}" by (auto simp: stolen_wakeup_def)
  show "run (cv_step 1000) stolen_wakeup (inc_init cvlock_init) = Some both_inside"
    by (rule stolen_wakeup_run) simp
qed (simp_all add: both_inside_def cv_phase_def)

text \<open>\<^verbatim>\<open>condvar_intro.cpp\<close> can lose updates: an experiment can end with a sum below 2000,
  and the program can print that every run was incorrect.\<close>

theorem cvlock_loses_updates:
  "(\<exists>x < 2000. inc_outcome CVLock_lock CVLock_unlock cv_phase cvlock_init 1000 x) \<and>
   cvlock_main ''Correct sum: 0, incorrect sum: 1000''"
proof -
  obtain x where x: "inc_outcome CVLock_lock CVLock_unlock cv_phase cvlock_init 1000 x" "x < 2000"
    using cv_outcome_incorrect [of 1000] by auto
  then have "runs (inc_outcome CVLock_lock CVLock_unlock cv_phase cvlock_init 1000) (\<lambda>x. x = 2000) 1000 0 1000"
    by (intro runs_repeat_bad [of _ x]) auto
  moreover have "summary ''sum'' 0 1000 = ''Correct sum: 0, incorrect sum: 1000''"
    by (simp add: summary_def show_nat.simps digit_def)
  ultimately have "cvlock_main ''Correct sum: 0, incorrect sum: 1000''"
    unfolding cvlock_main_def printed_def by metis
  with x show ?thesis by blast
qed

end
