(* ===== verification/Deadlock.thy ===== *)
theory Deadlock
  imports Prelude
begin

text \<open>
  Two threads and two mutexes: \<^verbatim>\<open>synchronization_primitives/mutex/deadlock.cpp\<close> (blocking
  guards, in opposite orders and in the same order) and \<^verbatim>\<open>livelock.cpp\<close> (guards with a time
  limit).
\<close>

section \<open>deadlock.cpp\<close>

datatype mtx = M1 | M2

text \<open>A thread body: \<^verbatim>\<open>lock_guard guard1{a}; yield(); lock_guard guard2{b};\<close> and the two
  destructors in reverse order.\<close>

datatype dl_pc = DlFirst | DlYield | DlSecond | DlBoth | DlRelease | DlDone

record dl_state =
  dl_owner :: "mtx \<Rightarrow> thread option"
  dl_pc :: "thread \<Rightarrow> dl_pc"

type_synonym dl_prog = "thread \<Rightarrow> mtx \<times> mtx"

definition dl_init :: dl_state where
  "dl_init = \<lparr>dl_owner = (\<lambda>_. None), dl_pc = (\<lambda>_. DlFirst)\<rparr>"

definition dl_lock :: "mtx \<Rightarrow> thread \<Rightarrow> dl_pc \<Rightarrow> dl_state \<Rightarrow> dl_state option" where
  "dl_lock m t p s =
     (if dl_owner s m = None
      then Some (s\<lparr>dl_owner := (dl_owner s)(m \<mapsto> t), dl_pc := (dl_pc s)(t := p)\<rparr>)
      else None)"

definition dl_unlock :: "mtx \<Rightarrow> thread \<Rightarrow> dl_pc \<Rightarrow> dl_state \<Rightarrow> dl_state option" where
  "dl_unlock m t p s = Some (s\<lparr>dl_owner := (dl_owner s)(m := None), dl_pc := (dl_pc s)(t := p)\<rparr>)"

definition dl_step :: "dl_prog \<Rightarrow> (thread, dl_state) machine" where
  "dl_step prog t s =
     (case dl_pc s t of
        DlFirst \<Rightarrow> dl_lock (fst (prog t)) t DlYield s
      | DlYield \<Rightarrow> Some (s\<lparr>dl_pc := (dl_pc s)(t := DlSecond)\<rparr>)
      | DlSecond \<Rightarrow> dl_lock (snd (prog t)) t DlBoth s
      | DlBoth \<Rightarrow> dl_unlock (snd (prog t)) t DlRelease s
      | DlRelease \<Rightarrow> dl_unlock (fst (prog t)) t DlDone s
      | DlDone \<Rightarrow> None)"

fun deadlock_prog :: dl_prog where
  "deadlock_prog T1 = (M1, M2)"
| "deadlock_prog T2 = (M2, M1)"

fun no_deadlock_prog :: dl_prog where
  "no_deadlock_prog t = (M1, M2)"

definition dl_final :: "dl_state \<Rightarrow> bool" where
  "dl_final s \<longleftrightarrow> (\<forall>t. dl_pc s t = DlDone)"

text \<open>The circular wait: each thread owns its first mutex and waits for the other's.\<close>

definition circular_wait :: "dl_state \<Rightarrow> bool" where
  "circular_wait s \<longleftrightarrow>
     (\<forall>t. dl_pc s t = DlSecond) \<and> dl_owner s M1 = Some T1 \<and> dl_owner s M2 = Some T2"

fun dl_held :: "mtx \<times> mtx \<Rightarrow> dl_pc \<Rightarrow> mtx set" where
  "dl_held ab DlYield = {fst ab}"
| "dl_held ab DlSecond = {fst ab}"
| "dl_held ab DlBoth = {fst ab, snd ab}"
| "dl_held ab DlRelease = {fst ab}"
| "dl_held ab _ = {}"

definition dl_inv :: "dl_prog \<Rightarrow> dl_state \<Rightarrow> bool" where
  "dl_inv prog s \<longleftrightarrow> (\<forall>m t. dl_owner s m = Some t \<longleftrightarrow> m \<in> dl_held (prog t) (dl_pc s t))"

lemma dl_inv_init: "dl_inv prog dl_init"
  by (simp add: dl_inv_def dl_init_def)

lemma dl_inv_step:
  assumes inv: "dl_inv prog s" and st: "dl_step prog t s = Some s'"
    and ne: "fst (prog t) \<noteq> snd (prog t)"
  shows "dl_inv prog s'"
proof -
  have o: "dl_owner s m = Some u \<longleftrightarrow> m \<in> dl_held (prog u) (dl_pc s u)" for m u
    using inv by (simp add: dl_inv_def)
  have "dl_owner s' m = Some u \<longleftrightarrow> m \<in> dl_held (prog u) (dl_pc s' u)" for m u
  proof (cases "u = t")
    case True
    then show ?thesis using st ne o [of m t] o [of "fst (prog t)" t] o [of "snd (prog t)" t]
      by (cases "dl_pc s t") (auto simp: dl_step_def dl_lock_def dl_unlock_def split: if_splits)
  next
    case False
    then show ?thesis using st o [of m u] o [of m t]
      by (cases "dl_pc s t") (auto simp: dl_step_def dl_lock_def dl_unlock_def split: if_splits)
  qed
  then show ?thesis by (simp add: dl_inv_def)
qed

fun dl_weight :: "dl_pc \<Rightarrow> nat" where
  "dl_weight DlFirst = 5" | "dl_weight DlYield = 4" | "dl_weight DlSecond = 3"
| "dl_weight DlBoth = 2" | "dl_weight DlRelease = 1" | "dl_weight DlDone = 0"

definition dl_rank :: "dl_state \<Rightarrow> nat" where
  "dl_rank s = dl_weight (dl_pc s T1) + dl_weight (dl_pc s T2)"

lemma dl_decrease: "dl_step prog t s = Some s' \<Longrightarrow> dl_rank s' < dl_rank s"
  by (cases t; cases "dl_pc s t")
    (auto simp: dl_step_def dl_lock_def dl_unlock_def dl_rank_def split: if_splits)

text \<open>A thread is blocked only at a guard whose mutex is owned.\<close>

lemma dl_blocked:
  "dl_step prog t s = None \<longleftrightarrow>
     dl_pc s t = DlDone \<or>
     dl_pc s t = DlFirst \<and> dl_owner s (fst (prog t)) \<noteq> None \<or>
     dl_pc s t = DlSecond \<and> dl_owner s (snd (prog t)) \<noteq> None"
  by (auto simp: dl_step_def dl_lock_def dl_unlock_def split: dl_pc.splits)

text \<open>In the same order, the owner of the second mutex is never blocked.\<close>

interpretation nd: machine_term "dl_step no_deadlock_prog" dl_init "dl_inv no_deadlock_prog" dl_rank dl_final
proof unfold_locales
  show "dl_inv no_deadlock_prog dl_init" by (rule dl_inv_init)
  show "dl_inv no_deadlock_prog s'" if "dl_inv no_deadlock_prog s" "dl_step no_deadlock_prog t s = Some s'" for s t s'
    using that by (rule dl_inv_step) simp
  show "dl_rank s' < dl_rank s" if "dl_step no_deadlock_prog t s = Some s'" for s t s'
    using that by (rule dl_decrease)
  show "\<exists>t s'. dl_step no_deadlock_prog t s = Some s'" if inv: "dl_inv no_deadlock_prog s" and nf: "\<not> dl_final s" for s
  proof (rule ccontr)
    assume "\<nexists>t s'. dl_step no_deadlock_prog t s = Some s'"
    then have none: "dl_step no_deadlock_prog t s = None" for t by (meson not_None_eq)
    have o: "dl_owner s m = Some u \<longleftrightarrow> m \<in> dl_held (M1, M2) (dl_pc s u)" for m u
      using inv by (simp add: dl_inv_def)
    show False
      using nf none [of T1] none [of T2]
      unfolding dl_blocked owned_iff o dl_final_def all_thread
      by (cases "dl_pc s T1"; cases "dl_pc s T2") simp_all
  qed
qed

interpretation dl: machine_inv "dl_step deadlock_prog" dl_init "dl_inv deadlock_prog"
proof unfold_locales
  show "dl_inv deadlock_prog dl_init" by (rule dl_inv_init)
  show "dl_inv deadlock_prog s'" if "dl_inv deadlock_prog s" "dl_step deadlock_prog t s = Some s'" for s t s'
    using that by (rule dl_inv_step) (cases t; simp)
qed

lemma dl_stuck_circular:
  assumes inv: "dl_inv deadlock_prog s" and st: "stuck (dl_step deadlock_prog) s" and nf: "\<not> dl_final s"
  shows "circular_wait s"
proof -
  have none: "dl_step deadlock_prog t s = None" for t using st by (simp add: stuck_def)
  have o1: "dl_owner s m = Some T1 \<longleftrightarrow> m \<in> dl_held (M1, M2) (dl_pc s T1)"
    and o2: "dl_owner s m = Some T2 \<longleftrightarrow> m \<in> dl_held (M2, M1) (dl_pc s T2)" for m
    using inv by (simp_all add: dl_inv_def)
  show ?thesis
    using nf none [of T1] none [of T2]
    unfolding dl_blocked owned_iff o1 o2 circular_wait_def dl_final_def all_thread
    by (cases "dl_pc s T1"; cases "dl_pc s T2") simp_all
qed

text \<open>\<^verbatim>\<open>main\<close>: a thousand runs of \<^verbatim>\<open>Deadlock\<close>, then a thousand of \<^verbatim>\<open>NoDeadlock\<close>. A loop returns, or hangs in one of its runs.\<close>

definition dl_run :: "dl_prog \<Rightarrow> dl_state \<Rightarrow> bool" where
  "dl_run prog s \<longleftrightarrow> reach (dl_step prog) dl_init s \<and> stuck (dl_step prog) s"

inductive dl_loop :: "dl_prog \<Rightarrow> nat \<Rightarrow> bool \<Rightarrow> bool" for prog :: dl_prog where
  dl_loop_end: "dl_loop prog 0 True"
| dl_loop_next: "dl_run prog s \<Longrightarrow> dl_final s \<Longrightarrow> dl_loop prog n r \<Longrightarrow> dl_loop prog (Suc n) r"
| dl_loop_hangs: "dl_run prog s \<Longrightarrow> \<not> dl_final s \<Longrightarrow> dl_loop prog (Suc n) False"

inductive_cases dl_loop_SucE: "dl_loop prog (Suc n) r"

definition deadlock_main :: "bool \<Rightarrow> bool" where
  "deadlock_main returned \<longleftrightarrow>
     dl_loop deadlock_prog 1000 True \<and> dl_loop no_deadlock_prog 1000 returned \<or>
     dl_loop deadlock_prog 1000 False \<and> \<not> returned"

lemma dl_loop_total: "(\<And>s. dl_run prog s \<Longrightarrow> dl_final s) \<Longrightarrow> dl_loop prog n r \<Longrightarrow> r"
  by (rotate_tac, induction rule: dl_loop.induct) auto

lemma dl_loop_returns: "dl_run prog s \<Longrightarrow> dl_final s \<Longrightarrow> dl_loop prog n True"
  by (induction n) (auto intro: dl_loop.intros)

section \<open>livelock.cpp\<close>

text \<open>
  \<^verbatim>\<open>unique_lock guard{m, 5s}\<close> waits for the mutex at most five seconds: it either takes the
  mutex or gives up, and the choice is in the label. A thread that gives up prints a
  message and returns; its first guard's destructor gives the first mutex back.
\<close>

datatype lv_choice = Take | TimeOut

datatype lv_pc = LvFirst | LvCheck bool | LvSecond | LvCheck2 bool | LvRelease2 | LvRelease1 | LvDone

record lv_state =
  lv_owner :: "mtx \<Rightarrow> thread option"
  lv_pc :: "thread \<Rightarrow> lv_pc"
  lv_out :: "string list"

definition lv_init :: lv_state where
  "lv_init = \<lparr>lv_owner = (\<lambda>_. None), lv_pc = (\<lambda>_. LvFirst), lv_out = []\<rparr>"

fun lv_who :: "thread \<Rightarrow> string" where
  "lv_who T1 = ''First''" | "lv_who T2 = ''Second''"

fun mtx_name :: "mtx \<Rightarrow> string" where
  "mtx_name M1 = ''m1''" | "mtx_name M2 = ''m2''"

definition lv_failed :: "thread \<Rightarrow> mtx \<Rightarrow> string" where
  "lv_failed t m = lv_who t @ '' thread failed to get '' @ mtx_name m @ '' lock''"

definition lv_try :: "mtx \<Rightarrow> thread \<Rightarrow> lv_choice \<Rightarrow> (bool \<Rightarrow> lv_pc) \<Rightarrow> lv_state \<Rightarrow> lv_state option" where
  "lv_try m t c p s =
     (case c of
        Take \<Rightarrow>
          if lv_owner s m = None
          then Some (s\<lparr>lv_owner := (lv_owner s)(m \<mapsto> t), lv_pc := (lv_pc s)(t := p True)\<rparr>)
          else None
      | TimeOut \<Rightarrow> Some (s\<lparr>lv_pc := (lv_pc s)(t := p False)\<rparr>))"

fun lv_step :: "(thread \<times> lv_choice, lv_state) machine" where
  "lv_step (t, c) s =
     (let a = fst (deadlock_prog t); b = snd (deadlock_prog t)
      in case lv_pc s t of
           LvFirst \<Rightarrow> lv_try a t c LvCheck s
         | LvCheck owns \<Rightarrow>
             if owns then Some (s\<lparr>lv_pc := (lv_pc s)(t := LvSecond)\<rparr>)
             else Some (s\<lparr>lv_out := lv_out s @ [lv_failed t a], lv_pc := (lv_pc s)(t := LvDone)\<rparr>)
         | LvSecond \<Rightarrow> lv_try b t c LvCheck2 s
         | LvCheck2 owns \<Rightarrow>
             if owns then Some (s\<lparr>lv_pc := (lv_pc s)(t := LvRelease2)\<rparr>)
             else Some (s\<lparr>lv_out := lv_out s @ [lv_failed t b], lv_pc := (lv_pc s)(t := LvRelease1)\<rparr>)
         | LvRelease2 \<Rightarrow> Some (s\<lparr>lv_owner := (lv_owner s)(b := None), lv_pc := (lv_pc s)(t := LvRelease1)\<rparr>)
         | LvRelease1 \<Rightarrow> Some (s\<lparr>lv_owner := (lv_owner s)(a := None), lv_pc := (lv_pc s)(t := LvDone)\<rparr>)
         | LvDone \<Rightarrow> None)"

definition lv_final :: "lv_state \<Rightarrow> bool" where
  "lv_final s \<longleftrightarrow> (\<forall>t. lv_pc s t = LvDone)"

text \<open>\<^verbatim>\<open>main\<close>: a thousand runs with their output.\<close>

inductive lv_loop :: "nat \<Rightarrow> string list \<Rightarrow> bool" where
  lv_loop_end: "lv_loop 0 []"
| lv_loop_next: "reach lv_step lv_init s \<Longrightarrow> stuck lv_step s \<Longrightarrow> lv_loop n out \<Longrightarrow> lv_loop (Suc n) (lv_out s @ out)"

definition livelock_main :: "string list \<Rightarrow> bool" where
  "livelock_main out \<longleftrightarrow> lv_loop 1000 out"

fun lv_held :: "mtx \<times> mtx \<Rightarrow> lv_pc \<Rightarrow> mtx set" where
  "lv_held ab (LvCheck owns) = (if owns then {fst ab} else {})"
| "lv_held ab LvSecond = {fst ab}"
| "lv_held ab (LvCheck2 owns) = (if owns then {fst ab, snd ab} else {fst ab})"
| "lv_held ab LvRelease2 = {fst ab, snd ab}"
| "lv_held ab LvRelease1 = {fst ab}"
| "lv_held ab _ = {}"

definition lv_inv :: "lv_state \<Rightarrow> bool" where
  "lv_inv s \<longleftrightarrow>
     (\<forall>m t. lv_owner s m = Some t \<longleftrightarrow> m \<in> lv_held (deadlock_prog t) (lv_pc s t))"

fun lv_weight :: "lv_pc \<Rightarrow> nat" where
  "lv_weight LvFirst = 6" | "lv_weight (LvCheck b) = 5" | "lv_weight LvSecond = 4"
| "lv_weight (LvCheck2 b) = 3" | "lv_weight LvRelease2 = 2" | "lv_weight LvRelease1 = 1"
| "lv_weight LvDone = 0"

definition lv_rank :: "lv_state \<Rightarrow> nat" where
  "lv_rank s = lv_weight (lv_pc s T1) + lv_weight (lv_pc s T2)"

lemma deadlock_prog_neq: "fst (deadlock_prog t) \<noteq> snd (deadlock_prog t)"
  by (cases t) simp_all

lemma lv_inv_step:
  assumes inv: "lv_inv s" and st: "lv_step (t, c) s = Some s'"
  shows "lv_inv s'"
proof -
  let ?a = "fst (deadlock_prog t)" and ?b = "snd (deadlock_prog t)"
  have o: "lv_owner s m = Some u \<longleftrightarrow> m \<in> lv_held (deadlock_prog u) (lv_pc s u)" for m u
    using inv by (simp add: lv_inv_def)
  have "lv_owner s' m = Some u \<longleftrightarrow> m \<in> lv_held (deadlock_prog u) (lv_pc s' u)" for m u
  proof (cases "u = t")
    case True
    then show ?thesis using st o [of m t] o [of ?a t] o [of ?b t] deadlock_prog_neq [of t]
      by (cases "lv_pc s t")
        (auto simp: lv_try_def Let_def split: if_splits lv_choice.splits)
  next
    case False
    then show ?thesis using st o [of m u] o [of m t]
      by (cases "lv_pc s t")
        (auto simp: lv_try_def Let_def split: if_splits lv_choice.splits)
  qed
  then show ?thesis by (simp add: lv_inv_def)
qed

interpretation lv: machine_term lv_step lv_init lv_inv lv_rank lv_final
proof unfold_locales
  show "lv_inv lv_init" by (simp add: lv_inv_def lv_init_def)
  show "lv_inv s'" if "lv_inv s" "lv_step l s = Some s'" for s l s'
    using that by (cases l) (auto intro: lv_inv_step simp del: lv_step.simps)
  show "lv_rank s' < lv_rank s" if "lv_step l s = Some s'" for s l s'
  proof -
    obtain t c where "l = (t, c)" by (cases l)
    with that show ?thesis
      by (cases t; cases "lv_pc s t")
        (auto simp: lv_rank_def lv_try_def Let_def split: if_splits lv_choice.splits)
  qed
  show "\<exists>l s'. lv_step l s = Some s'" if nf: "\<not> lv_final s" for s
  proof -
    obtain t where "lv_pc s t \<noteq> LvDone" using nf by (auto simp: lv_final_def)
    then have "\<exists>s'. lv_step (t, TimeOut) s = Some s'"
      by (cases "lv_pc s t") (auto simp: lv_try_def Let_def)
    then show ?thesis by blast
  qed
qed

section \<open>Properties\<close>

lemma deadlock_hangs:
  "\<exists>s. reach (dl_step deadlock_prog) dl_init s \<and> stuck (dl_step deadlock_prog) s \<and> circular_wait s"
proof -
  let ?s = "\<lparr>dl_owner = (\<lambda>_. None)(M1 \<mapsto> T1, M2 \<mapsto> T2), dl_pc = (\<lambda>_. DlSecond)\<rparr>"
  have "run (dl_step deadlock_prog) [T1, T1, T2, T2] dl_init = Some ?s"
    by (simp add: dl_step_def dl_lock_def dl_init_def fun_eq_iff all_thread)
  then have "reach (dl_step deadlock_prog) dl_init ?s" by (rule run_imp_reach)
  moreover have "stuck (dl_step deadlock_prog) ?s"
    unfolding stuck_def all_thread by (simp add: dl_step_def dl_lock_def)
  moreover have "circular_wait ?s" by (simp add: circular_wait_def)
  ultimately show ?thesis by blast
qed

text \<open>C36: \<^verbatim>\<open>Deadlock()\<close> can hang, and in exactly one way: a schedule leads to the circular wait,
  from which no thread moves, and every stuck state that is not the normal end is that wait.\<close>

theorem deadlock_possible:
  "(\<exists>s. reach (dl_step deadlock_prog) dl_init s \<and> stuck (dl_step deadlock_prog) s \<and> circular_wait s) \<and>
   (\<forall>s. reach (dl_step deadlock_prog) dl_init s \<longrightarrow> stuck (dl_step deadlock_prog) s \<longrightarrow>
      dl_final s \<or> circular_wait s)"
proof
  show "\<exists>s. reach (dl_step deadlock_prog) dl_init s \<and> stuck (dl_step deadlock_prog) s \<and> circular_wait s"
    by (rule deadlock_hangs)
  show "\<forall>s. reach (dl_step deadlock_prog) dl_init s \<longrightarrow> stuck (dl_step deadlock_prog) s \<longrightarrow>
      dl_final s \<or> circular_wait s"
    using dl.reach_inv dl_stuck_circular by blast
qed

theorem deadlock_possible_witness:
  "\<exists>s. reach (dl_step deadlock_prog) dl_init s \<and> stuck (dl_step deadlock_prog) s \<and>
     (dl_final s \<or> circular_wait s)"
  using deadlock_possible by blast

text \<open>C37: \<^verbatim>\<open>NoDeadlock()\<close> always terminates: every schedule has at most ten steps, and one that
  cannot go on has finished both threads and given both mutexes back.\<close>

theorem no_deadlock_terminates:
  assumes "run (dl_step no_deadlock_prog) ls dl_init = Some s"
  shows "length ls \<le> 10 \<and>
    (stuck (dl_step no_deadlock_prog) s \<longrightarrow> dl_final s \<and> dl_owner s M1 = None \<and> dl_owner s M2 = None)"
proof
  show "length ls \<le> 10" using nd.run_length [OF assms] by (simp add: dl_rank_def dl_init_def)
  have "dl_owner s m = None" if "dl_final s" for m
    using nd.run_inv [OF assms] that by (cases "dl_owner s m") (auto simp: dl_inv_def dl_final_def)
  then show "stuck (dl_step no_deadlock_prog) s \<longrightarrow> dl_final s \<and> dl_owner s M1 = None \<and> dl_owner s M2 = None"
    using nd.live.stuck_final [OF run_imp_reach [OF assms]] by blast
qed

theorem no_deadlock_terminates_witness:
  "\<exists>s. run (dl_step no_deadlock_prog) [T1, T1, T1, T1, T1, T2, T2, T2, T2, T2] dl_init = Some s \<and>
     length [T1, T1, T1, T1, T1, T2, T2, T2, T2, T2] \<le> 10 \<and> dl_final s \<and> dl_owner s M1 = None"
proof -
  let ?s = "\<lparr>dl_owner = (\<lambda>_. None), dl_pc = (\<lambda>_. DlDone)\<rparr>"
  have "run (dl_step no_deadlock_prog) [T1, T1, T1, T1, T1, T2, T2, T2, T2, T2] dl_init = Some ?s"
    by (simp add: dl_step_def dl_lock_def dl_unlock_def dl_init_def fun_eq_iff all_thread)
  moreover have "stuck (dl_step no_deadlock_prog) ?s" by (simp add: stuck_def dl_step_def)
  ultimately show ?thesis using no_deadlock_terminates by blast
qed

text \<open>\<^verbatim>\<open>Livelock()\<close> always terminates, whatever the timed waits do: every schedule has at most
  twelve steps, and one that cannot go on has finished both threads with both mutexes
  free.\<close>

theorem livelock_terminates:
  assumes "run lv_step ls lv_init = Some s"
  shows "length ls \<le> 12 \<and>
    (stuck lv_step s \<longrightarrow> lv_final s \<and> lv_owner s M1 = None \<and> lv_owner s M2 = None)"
proof
  show "length ls \<le> 12" using lv.run_length [OF assms] by (simp add: lv_rank_def lv_init_def)
  have "lv_owner s m = None" if "lv_final s" for m
    using lv.run_inv [OF assms] that by (cases "lv_owner s m") (auto simp: lv_inv_def lv_final_def)
  then show "stuck lv_step s \<longrightarrow> lv_final s \<and> lv_owner s M1 = None \<and> lv_owner s M2 = None"
    using lv.live.stuck_final [OF run_imp_reach [OF assms]] by blast
qed

text \<open>The schedule the example is about: each thread takes its first mutex and gives up on
  the second.\<close>

definition both_fail :: "(thread \<times> lv_choice) list" where
  "both_fail = [(T1, Take), (T2, Take), (T1, Take), (T2, Take), (T1, TimeOut), (T2, TimeOut),
     (T1, Take), (T2, Take), (T1, Take), (T2, Take)]"

lemma both_fail_run:
  "run lv_step both_fail lv_init = Some \<lparr>lv_owner = (\<lambda>_. None), lv_pc = (\<lambda>_. LvDone),
     lv_out = [''First thread failed to get m2 lock'', ''Second thread failed to get m1 lock'']\<rparr>"
  by (simp add: both_fail_def lv_try_def lv_init_def lv_failed_def fun_eq_iff all_thread)

theorem livelock_terminates_witness:
  "\<exists>s. run lv_step both_fail lv_init = Some s \<and> length both_fail \<le> 12 \<and> lv_final s \<and> lv_owner s M1 = None \<and>
     lv_out s = [''First thread failed to get m2 lock'', ''Second thread failed to get m1 lock'']"
proof -
  let ?s = "\<lparr>lv_owner = (\<lambda>_. None), lv_pc = (\<lambda>_. LvDone),
    lv_out = [''First thread failed to get m2 lock'', ''Second thread failed to get m1 lock'']\<rparr>"
  have "stuck lv_step ?s" by (simp add: stuck_def)
  then show ?thesis using livelock_terminates [OF both_fail_run] both_fail_run by auto
qed

text \<open>\<^verbatim>\<open>main\<close> of \<^verbatim>\<open>deadlock.cpp\<close> may return or hang, and it hangs in the first loop only.\<close>

theorem deadlock_main_outcomes:
  "deadlock_main True \<and> deadlock_main False \<and> \<not> dl_loop no_deadlock_prog n False"
proof -
  have run: "dl_run deadlock_prog \<lparr>dl_owner = (\<lambda>_. None), dl_pc = (\<lambda>_. DlDone)\<rparr>"
  proof -
    have "run (dl_step deadlock_prog) [T1, T1, T1, T1, T1, T2, T2, T2, T2, T2] dl_init =
        Some \<lparr>dl_owner = (\<lambda>_. None), dl_pc = (\<lambda>_. DlDone)\<rparr>"
      by (simp add: dl_step_def dl_lock_def dl_unlock_def dl_init_def fun_eq_iff all_thread)
    then have "reach (dl_step deadlock_prog) dl_init \<lparr>dl_owner = (\<lambda>_. None), dl_pc = (\<lambda>_. DlDone)\<rparr>" by (rule run_imp_reach)
    then show ?thesis by (simp add: dl_run_def stuck_def dl_step_def)
  qed
  have final: "dl_final s" if "dl_run no_deadlock_prog s" for s using that nd.live.stuck_final by (auto simp: dl_run_def)
  obtain s where "reach (dl_step no_deadlock_prog) dl_init s" "dl_final s" using nd.live.final_reachable [OF reach_init] by blast
  then have s: "dl_run no_deadlock_prog s" by (simp add: dl_run_def stuck_def dl_final_def dl_step_def)
  have first: "dl_loop deadlock_prog n True" for n using dl_loop_returns [OF run] by (simp add: dl_final_def)
  have "deadlock_main True" using first dl_loop_returns [OF s final [OF s]] by (simp add: deadlock_main_def)
  moreover have "deadlock_main False"
  proof -
    obtain u where "dl_run deadlock_prog u" "\<not> dl_final u"
      using deadlock_hangs by (auto simp: dl_run_def circular_wait_def dl_final_def)
    then have "dl_loop deadlock_prog (Suc 999) False" by (rule dl_loop_hangs)
    then show ?thesis by (simp add: deadlock_main_def)
  qed
  moreover have "\<not> dl_loop no_deadlock_prog n False" using dl_loop_total [OF final] by blast
  ultimately show ?thesis by blast
qed

text \<open>\<^verbatim>\<open>main\<close> of \<^verbatim>\<open>livelock.cpp\<close> can print the two failures of \<open>both_fail\<close> in every run.\<close>

theorem livelock_main_output:
  "livelock_main (concat (replicate 1000 [''First thread failed to get m2 lock'', ''Second thread failed to get m1 lock'']))"
proof -
  let ?s = "\<lparr>lv_owner = (\<lambda>_. None), lv_pc = (\<lambda>_. LvDone),
    lv_out = [''First thread failed to get m2 lock'', ''Second thread failed to get m1 lock'']\<rparr>"
  have r: "reach lv_step lv_init ?s" using both_fail_run by (rule run_imp_reach)
  have st: "stuck lv_step ?s" by (simp add: stuck_def)
  have "lv_loop n (concat (replicate n (lv_out ?s)))" for n
    by (induction n) (use lv_loop_next [OF r st] in \<open>auto intro: lv_loop_end\<close>)
  from this [of 1000] show ?thesis unfolding livelock_main_def lv_state.simps .
qed

end
