(* ===== verification/Guards.thy ===== *)
theory Guards
  imports Prelude
begin

text \<open>
  Classes that protect their data with a mutex: \<^verbatim>\<open>ProtectedData\<close> of
  \<^verbatim>\<open>synchronization_primitives/mutex/lock_guard.cpp\<close> (explicit \<^verbatim>\<open>lock()\<close> and \<^verbatim>\<open>unlock()\<close>, with an
  early return between them), \<^verbatim>\<open>DataManager\<close> of \<^verbatim>\<open>shared_mutex.cpp\<close> (a guard in every method, whose
  accesses to the vector are several steps)
  and the double lock of \<^verbatim>\<open>recursive_mutex.cpp\<close>.
\<close>

section \<open>lock\_guard.cpp: ProtectedData\<close>

record protected_data =
  pd_locked :: bool
  m_data :: int

definition protected_data_init :: protected_data where
  "protected_data_init = \<lparr>pd_locked = False, m_data = 0\<rparr>"

text \<open>\<open>None\<close>: the call blocks for ever in \<^verbatim>\<open>m_mtx.lock()\<close>; the threads of \<^verbatim>\<open>main\<close> run one after
  the other, so nobody else can unlock.\<close>

definition UpdateData :: "int \<Rightarrow> protected_data \<Rightarrow> protected_data option" where
  "UpdateData newValue d =
     (if pd_locked d then None
      else let d = d\<lparr>pd_locked := True\<rparr>
           in if m_data d = 42 then Some d
              else Some (d\<lparr>m_data := newValue, pd_locked := False\<rparr>))"

text \<open>The \<^verbatim>\<open>updater\<close> calls of \<^verbatim>\<open>main\<close>: each starts a thread that runs \<^verbatim>\<open>UpdateData\<close> and joins it.\<close>

fun updater_all :: "int list \<Rightarrow> protected_data \<Rightarrow> protected_data option" where
  "updater_all [] d = Some d"
| "updater_all (v # vs) d =
     (case UpdateData v d of None \<Rightarrow> None | Some d' \<Rightarrow> updater_all vs d')"

definition lock_guard_main :: "protected_data option" where
  "lock_guard_main = updater_all [12, 42, 34, 25] protected_data_init"

lemma updater_all_append:
  "updater_all (us @ vs) d = (case updater_all us d of None \<Rightarrow> None | Some e \<Rightarrow> updater_all vs e)"
  by (induction us arbitrary: d) (auto split: option.splits)

lemma updater_all_unlocked:
  assumes "\<not> pd_locked d" "m_data d \<noteq> 42" "42 \<notin> set (butlast vs)"
  shows "updater_all vs d = Some (d\<lparr>m_data := last (m_data d # vs)\<rparr>)"
  using assms
proof (induction vs arbitrary: d)
  case Nil
  then show ?case by simp
next
  case (Cons v vs)
  have u: "UpdateData v d = Some (d\<lparr>m_data := v\<rparr>)"
    using Cons.prems by (cases d) (simp add: UpdateData_def Let_def)
  show ?case
  proof (cases vs)
    case Nil
    then show ?thesis using u by simp
  next
    case (Cons w ws)
    then have "v \<noteq> 42" "42 \<notin> set (butlast vs)" using Cons.prems(3) by auto
    then show ?thesis using Cons.IH [of "d\<lparr>m_data := v\<rparr>"] u Cons Cons.prems(1) by simp
  qed
qed

section \<open>recursive\_mutex.cpp\<close>

text \<open>One thread constructs two guards on the same non-recursive mutex. The state is the
  mutex and the number of guards already constructed.\<close>

definition recursive_step :: "(unit, bool \<times> nat) machine" where
  "recursive_step l s =
     (case s of (locked, guards) \<Rightarrow>
        if guards < 2 then (if locked then None else Some (True, Suc guards)) else None)"

definition recursive_final :: "bool \<times> nat \<Rightarrow> bool" where
  "recursive_final s \<longleftrightarrow> snd s = 2"

section \<open>shared\_mutex.cpp: DataManager\<close>

datatype dm_request = ChangeData "int list" | GetCopy

datatype dm_event = Changed thread "int list" | Copied thread "int list"

text \<open>Each method is a guard around an access that takes several steps. \<^verbatim>\<open>ChangeData\<close> moves the
  argument in: the old contents go (\<open>DmMoved\<close>), then the new ones arrive. \<^verbatim>\<open>GetCopy\<close> reads the
  size, then copies one element at a time: \<open>DmCopying n buf\<close> has copied \<open>buf\<close> of \<open>n\<close> elements.
  Reading an element that is no longer there is undefined; \<open>dm_fault\<close> records it and the
  program ends there. \<open>dm_todo\<close> is what a thread still calls, \<open>dm_log\<close> the completed accesses with
  their results (last one first).\<close>

datatype dm_pc = DmOutside | DmInside | DmMoved | DmCopying nat "int list" | DmLeaving

record dm_state =
  dm_mtx :: "thread option"
  dm_data :: "int list"
  dm_fault :: bool
  dm_pc :: "thread \<Rightarrow> dm_pc"
  dm_todo :: "thread \<Rightarrow> dm_request list"
  dm_log :: "dm_event list"

definition dm_init :: "(thread \<Rightarrow> dm_request list) \<Rightarrow> dm_state" where
  "dm_init prog =
     \<lparr>dm_mtx = None, dm_data = [], dm_fault = False, dm_pc = (\<lambda>_. DmOutside), dm_todo = prog, dm_log = []\<rparr>"

abbreviation dm_goto :: "thread \<Rightarrow> dm_pc \<Rightarrow> dm_state \<Rightarrow> dm_state" where
  "dm_goto t p s \<equiv> s\<lparr>dm_pc := (dm_pc s)(t := p)\<rparr>"

text \<open>One step of \<^verbatim>\<open>m_data = std::move(newData)\<close> and of the copy in \<^verbatim>\<open>return m_data\<close>.\<close>

fun dm_access :: "thread \<Rightarrow> dm_request \<Rightarrow> dm_pc \<Rightarrow> dm_state \<Rightarrow> dm_state" where
  "dm_access t (ChangeData newData) DmInside s = dm_goto t DmMoved (s\<lparr>dm_data := []\<rparr>)"
| "dm_access t (ChangeData newData) _ s =
     dm_goto t DmLeaving (s\<lparr>dm_data := newData, dm_log := Changed t newData # dm_log s\<rparr>)"
| "dm_access t GetCopy (DmCopying n buf) s =
     (if length buf < n
      then if length buf < length (dm_data s)
           then dm_goto t (DmCopying n (buf @ [dm_data s ! length buf])) s
           else s\<lparr>dm_fault := True\<rparr>
      else dm_goto t DmLeaving (s\<lparr>dm_log := Copied t buf # dm_log s\<rparr>))"
| "dm_access t GetCopy _ s = dm_goto t (DmCopying (length (dm_data s)) []) s"

definition dm_step :: "(thread, dm_state) machine" where
  "dm_step t s =
     (case dm_todo s t of
        [] \<Rightarrow> None
      | r # rs \<Rightarrow>
          if dm_fault s then None
          else (case dm_pc s t of
             DmOutside \<Rightarrow>
               if dm_mtx s = None
               then Some (dm_goto t DmInside (s\<lparr>dm_mtx := Some t\<rparr>))
               else None
           | DmLeaving \<Rightarrow>
               Some (dm_goto t DmOutside (s\<lparr>dm_mtx := None, dm_todo := (dm_todo s)(t := rs)\<rparr>))
           | p \<Rightarrow> Some (dm_access t r p s)))"

definition dm_final :: "dm_state \<Rightarrow> bool" where
  "dm_final s \<longleftrightarrow> (\<forall>t. dm_todo s t = [])"

definition shared_mutex_main :: "thread \<Rightarrow> dm_request list" where
  "shared_mutex_main t = replicate 5 GetCopy"

text \<open>A sequential object: what the data is after the accesses of a log, and that each copy
  returned the data as it was.\<close>

fun seq_data :: "dm_event list \<Rightarrow> int list" where
  "seq_data [] = []"
| "seq_data (Changed t d # es) = d"
| "seq_data (Copied t d # es) = seq_data es"

fun seq_legal :: "dm_event list \<Rightarrow> bool" where
  "seq_legal [] = True"
| "seq_legal (Changed t d # es) = seq_legal es"
| "seq_legal (Copied t d # es) = (d = seq_data es \<and> seq_legal es)"

text \<open>The requests a thread has completed, as its part of the log shows them.\<close>

fun ev_thread :: "dm_event \<Rightarrow> thread" where
  "ev_thread (Changed t d) = t" | "ev_thread (Copied t d) = t"

fun ev_request :: "dm_event \<Rightarrow> dm_request" where
  "ev_request (Changed t d) = ChangeData d" | "ev_request (Copied t d) = GetCopy"

definition dm_done :: "dm_state \<Rightarrow> thread \<Rightarrow> dm_request list" where
  "dm_done s t = rev (map ev_request (filter (\<lambda>e. ev_thread e = t) (dm_log s)))"

definition dm_rest :: "dm_state \<Rightarrow> thread \<Rightarrow> dm_request list" where
  "dm_rest s t = (if dm_pc s t = DmLeaving then tl (dm_todo s t) else dm_todo s t)"

text \<open>Only the owner of the mutex is inside a method. What it has copied is a prefix of the data;
  the data differs from the last change of the log only while its owner moves new data in.\<close>

definition dm_pc_ok :: "dm_state \<Rightarrow> thread \<Rightarrow> bool" where
  "dm_pc_ok s t \<longleftrightarrow>
     (dm_pc s t \<noteq> DmOutside \<longrightarrow> dm_todo s t \<noteq> []) \<and>
     (dm_pc s t = DmMoved \<longrightarrow> (\<exists>d. hd (dm_todo s t) = ChangeData d)) \<and>
     (\<forall>n buf. dm_pc s t = DmCopying n buf \<longrightarrow>
        hd (dm_todo s t) = GetCopy \<and> n = length (dm_data s) \<and> length buf \<le> n \<and> buf = take (length buf) (dm_data s))"

definition dm_inv :: "(thread \<Rightarrow> dm_request list) \<Rightarrow> dm_state \<Rightarrow> bool" where
  "dm_inv prog s \<longleftrightarrow>
     (\<forall>t. dm_mtx s = Some t \<longleftrightarrow> dm_pc s t \<noteq> DmOutside) \<and>
     (\<forall>t. dm_pc_ok s t) \<and> \<not> dm_fault s \<and>
     (DmMoved \<notin> range (dm_pc s) \<longrightarrow> dm_data s = seq_data (dm_log s)) \<and> seq_legal (dm_log s) \<and>
     (\<forall>t. dm_done s t @ dm_rest s t = prog t)"

text \<open>The longest vector of a program bounds the length of a copy.\<close>

fun request_size :: "dm_request \<Rightarrow> nat" where
  "request_size (ChangeData d) = length d"
| "request_size GetCopy = 0"

definition dm_width :: "(thread \<Rightarrow> dm_request list) \<Rightarrow> nat" where
  "dm_width prog = sum_list (map request_size (prog T1 @ prog T2))"

definition dm_sized :: "nat \<Rightarrow> dm_state \<Rightarrow> bool" where
  "dm_sized k s \<longleftrightarrow> length (dm_data s) \<le> k \<and> (\<forall>t. \<forall>r \<in> set (dm_todo s t). request_size r \<le> k)"

fun dm_left :: "nat \<Rightarrow> dm_pc \<Rightarrow> nat" where
  "dm_left k DmOutside = k + 4" | "dm_left k DmInside = k + 3" | "dm_left k DmMoved = 2"
| "dm_left k (DmCopying n buf) = 2 + (n - length buf)" | "dm_left k DmLeaving = 1"

fun dm_weight :: "nat \<Rightarrow> dm_request list \<Rightarrow> dm_pc \<Rightarrow> nat" where
  "dm_weight k [] p = 0"
| "dm_weight k (r # rs) p = (k + 4) * length rs + dm_left k p"

definition dm_rank :: "nat \<Rightarrow> dm_state \<Rightarrow> nat" where
  "dm_rank k s = dm_weight k (dm_todo s T1) (dm_pc s T1) + dm_weight k (dm_todo s T2) (dm_pc s T2)"

lemma dm_rank_via:
  "dm_rank k s = dm_weight k (dm_todo s t) (dm_pc s t) +
     dm_weight k (dm_todo s (other t)) (dm_pc s (other t))"
  by (cases t) (simp_all add: dm_rank_def)

lemma dm_inv_via:
  "dm_inv prog s \<longleftrightarrow>
     (dm_mtx s = Some t \<longleftrightarrow> dm_pc s t \<noteq> DmOutside) \<and>
     (dm_mtx s = Some (other t) \<longleftrightarrow> dm_pc s (other t) \<noteq> DmOutside) \<and>
     dm_pc_ok s t \<and> dm_pc_ok s (other t) \<and> \<not> dm_fault s \<and>
     (dm_pc s t \<noteq> DmMoved \<and> dm_pc s (other t) \<noteq> DmMoved \<longrightarrow> dm_data s = seq_data (dm_log s)) \<and>
     seq_legal (dm_log s) \<and>
     dm_done s t @ dm_rest s t = prog t \<and> dm_done s (other t) @ dm_rest s (other t) = prog (other t)"
  by (cases t) (auto simp: dm_inv_def all_thread image_iff ex_thread)

text \<open>The steps by their labels: taking the mutex, the access, giving the mutex back.\<close>

lemma dm_step_cases [consumes 1, case_names Lock Access Unlock]:
  assumes "dm_step t s = Some s'"
  obtains (Lock) r rs where "dm_todo s t = r # rs" "dm_pc s t = DmOutside" "dm_mtx s = None"
      "s' = dm_goto t DmInside (s\<lparr>dm_mtx := Some t\<rparr>)"
  | (Access) r rs where "dm_todo s t = r # rs" "dm_pc s t \<notin> {DmOutside, DmLeaving}"
      "s' = dm_access t r (dm_pc s t) s"
  | (Unlock) r rs where "dm_todo s t = r # rs" "dm_pc s t = DmLeaving"
      "s' = dm_goto t DmOutside (s\<lparr>dm_mtx := None, dm_todo := (dm_todo s)(t := rs)\<rparr>)"
  using assms by (auto simp: dm_step_def split: list.splits if_splits dm_pc.splits)

lemma dm_inv_step:
  assumes inv: "dm_inv prog s" and st: "dm_step t s = Some s'"
  shows "dm_inv prog s'"
  using st
proof (cases rule: dm_step_cases)
  case (Lock r rs)
  then show ?thesis using inv
    by (auto simp: dm_inv_via [of _ _ t] dm_pc_ok_def dm_done_def dm_rest_def)
next
  case (Access r rs)
  have "dm_mtx s = Some t" using inv Access(2) by (simp add: dm_inv_via [of _ _ t])
  then have "dm_pc s (other t) = DmOutside" using inv by (simp add: dm_inv_via [of _ _ t])
  then show ?thesis using inv Access
    by (cases r; cases "dm_pc s t")
      (auto simp: dm_inv_via [of _ _ t] dm_pc_ok_def dm_done_def dm_rest_def take_Suc_conv_app_nth)
next
  case (Unlock r rs)
  have "dm_mtx s = Some t" using inv Unlock(2) by (simp add: dm_inv_via [of _ _ t])
  then have "dm_pc s (other t) = DmOutside" using inv by (simp add: dm_inv_via [of _ _ t])
  then show ?thesis using inv Unlock
    by (auto simp: dm_inv_via [of _ _ t] dm_pc_ok_def dm_done_def dm_rest_def)
qed

lemma dm_sized_step:
  assumes "dm_sized k s" "dm_step t s = Some s'"
  shows "dm_sized k s'"
  using assms(2)
proof (cases rule: dm_step_cases)
  case (Access r rs)
  have "dm_todo s' = dm_todo s" "dm_data s' \<in> {dm_data s, [], case r of ChangeData d \<Rightarrow> d | GetCopy \<Rightarrow> []}"
    using Access by (cases r; cases "dm_pc s t"; simp)+
  moreover have "request_size r \<le> k" using assms(1) Access(1) unfolding dm_sized_def by (metis list.set_intros(1))
  ultimately show ?thesis using assms(1) by (cases r) (auto simp: dm_sized_def)
next
  case (Unlock r rs)
  then have "set (dm_todo s' u) \<subseteq> set (dm_todo s u)" "dm_data s' = dm_data s" for u by auto
  then show ?thesis using assms(1) by (auto simp: dm_sized_def)
qed (use assms(1) in \<open>auto simp: dm_sized_def\<close>)

lemma dm_rank_step:
  assumes inv: "dm_inv prog s" and k: "dm_sized k s" and st: "dm_step t s = Some s'"
  shows "dm_rank k s' < dm_rank k s"
  using st
proof (cases rule: dm_step_cases)
  case (Access r rs)
  have "length (dm_data s) \<le> k" "dm_pc_ok s t" using k inv by (simp_all add: dm_sized_def dm_inv_def)
  then show ?thesis using Access
    by (cases r; cases "dm_pc s t") (auto simp: dm_rank_via [of _ _ t] dm_pc_ok_def)
next
  case (Unlock r rs)
  then show ?thesis by (cases rs) (auto simp: dm_rank_via [of _ _ t])
qed (auto simp: dm_rank_via [of _ _ t])

lemma dm_enabled:
  assumes inv: "dm_inv prog s" and nf: "\<not> dm_final s"
  shows "\<exists>t s'. dm_step t s = Some s'"
proof (cases "dm_mtx s")
  case None
  obtain t where "dm_todo s t \<noteq> []" using nf by (auto simp: dm_final_def)
  moreover have "dm_pc s t = DmOutside" "\<not> dm_fault s" using inv None unfolding dm_inv_def by auto
  ultimately have "\<exists>s'. dm_step t s = Some s'"
    using None by (cases "dm_todo s t") (auto simp: dm_step_def)
  then show ?thesis by blast
next
  case (Some t)
  then have "dm_pc s t \<noteq> DmOutside" "dm_pc_ok s t" "\<not> dm_fault s" using inv unfolding dm_inv_def by auto
  then have "\<exists>s'. dm_step t s = Some s'"
    by (cases "dm_todo s t"; cases "dm_pc s t") (auto simp: dm_step_def dm_pc_ok_def)
  then show ?thesis by blast
qed

interpretation dm: machine_term dm_step "dm_init prog" "\<lambda>s. dm_inv prog s \<and> dm_sized (dm_width prog) s"
  "dm_rank (dm_width prog)" dm_final for prog
proof unfold_locales
  have "request_size r \<le> dm_width prog" if "r \<in> set (prog t)" for r t
    unfolding dm_width_def by (rule member_le_sum_list) (use that in \<open>(cases t; auto)\<close>, simp)
  then show "dm_inv prog (dm_init prog) \<and> dm_sized (dm_width prog) (dm_init prog)"
    by (simp add: dm_inv_def dm_pc_ok_def dm_init_def dm_done_def dm_rest_def dm_sized_def)
qed (blast intro: dm_inv_step dm_sized_step dm_rank_step dm_enabled)+

section \<open>Properties\<close>

text \<open>C39: the early return of \<^verbatim>\<open>UpdateData\<close> leaks the mutex. The calls up to and including the
  first one that stores 42 all return; the next call returns with the mutex locked; every
  call after that blocks for ever. \<^verbatim>\<open>main\<close> never returns from its fourth call.\<close>

theorem update_data_leaks_mutex:
  assumes "42 \<notin> set us"
  shows "updater_all us protected_data_init = Some \<lparr>pd_locked = False, m_data = last (0 # us)\<rparr> \<and>
    updater_all (us @ [42]) protected_data_init = Some \<lparr>pd_locked = False, m_data = 42\<rparr> \<and>
    updater_all (us @ [42, v]) protected_data_init = Some \<lparr>pd_locked = True, m_data = 42\<rparr> \<and>
    updater_all (us @ [42, v, w] @ ws) protected_data_init = None \<and>
    lock_guard_main = None"
proof (intro conjI)
  have un: "updater_all vs protected_data_init = Some \<lparr>pd_locked = False, m_data = last (0 # vs)\<rparr>"
    if "42 \<notin> set (butlast vs)" for vs
    using updater_all_unlocked [of protected_data_init vs] that by (simp add: protected_data_init_def)
  show "updater_all us protected_data_init = Some \<lparr>pd_locked = False, m_data = last (0 # us)\<rparr>"
    using assms by (intro un) (auto dest: in_set_butlastD)
  show a: "updater_all (us @ [42]) protected_data_init = Some \<lparr>pd_locked = False, m_data = 42\<rparr>"
    using assms un [of "us @ [42]"] by (simp add: butlast_append)
  have b: "updater_all ((us @ [42]) @ [v]) protected_data_init = Some \<lparr>pd_locked = True, m_data = 42\<rparr>" for v
    unfolding updater_all_append [of "us @ [42]"] a by (simp add: UpdateData_def)
  then show "updater_all (us @ [42, v]) protected_data_init = Some \<lparr>pd_locked = True, m_data = 42\<rparr>" by simp
  have "updater_all (((us @ [42]) @ [v]) @ (w # ws)) protected_data_init = None"
    unfolding updater_all_append [of "(us @ [42]) @ [v]"] b by (simp add: UpdateData_def)
  then show "updater_all (us @ [42, v, w] @ ws) protected_data_init = None" by simp
  show "lock_guard_main = None"
    by (simp add: lock_guard_main_def UpdateData_def protected_data_init_def)
qed

theorem update_data_leaks_mutex_witness:
  "updater_all ([12] @ [42, 34, 25] @ []) protected_data_init = None \<and> lock_guard_main = None"
  using update_data_leaks_mutex [of "[12]" 34 25 "[]"] by simp

text \<open>\<^verbatim>\<open>recursive_mutex.cpp\<close> blocks itself: after the first guard the second can never be
  constructed, so \<^verbatim>\<open>main\<close> is stuck before its end on every schedule.\<close>

theorem recursive_lock_hangs:
  "(reach recursive_step (False, 0) s \<longleftrightarrow> s = (False, 0) \<or> s = (True, 1)) \<and>
   stuck recursive_step (True, 1) \<and> \<not> recursive_final (True, 1)"
proof -
  have "reach recursive_step (False, 0) s \<Longrightarrow> s = (False, 0) \<or> s = (True, 1)"
    by (induction rule: reach.induct) (auto simp: recursive_step_def split: if_splits)
  moreover have "reach recursive_step (False, 0) (True, 1)"
    using reach_step [OF reach_init, of recursive_step "()" "(False, 0)" "(True, 1)"]
    by (simp add: recursive_step_def)
  ultimately show ?thesis
    by (auto simp: stuck_def recursive_step_def recursive_final_def)
qed

text \<open>C38: \<^verbatim>\<open>DataManager\<close> is linearizable and its methods do not deadlock. Whatever two threads
  call, the accesses form a legal sequential history, in which every copy, made element by
  element, is the data of the last change before it. Each thread's calls appear in its program
  order, each between its first step and its return: the calls that have taken effect and those that
  have not make up the thread's program. The data is that of the last change whenever the mutex
  is free, no element is read that is not there, a schedule has at most \<open>dm_width prog + 4\<close> steps per
  call, and a state from which no thread can move has completed all calls.\<close>

theorem data_manager_linearizable:
  assumes "run dm_step ls (dm_init prog) = Some s"
  shows "length ls \<le> (dm_width prog + 4) * (length (prog T1) + length (prog T2)) \<and>
    seq_legal (dm_log s) \<and> (dm_mtx s = None \<longrightarrow> dm_data s = seq_data (dm_log s)) \<and> \<not> dm_fault s \<and>
    (\<forall>t. dm_done s t @ dm_rest s t = prog t) \<and>
    (stuck dm_step s \<longrightarrow> (\<forall>t. dm_done s t = prog t \<and> dm_todo s t = []))"
proof -
  have inv: "dm_inv prog s" using dm.run_inv [OF assms] by blast
  have d: "dm_done s t @ dm_rest s t = prog t" for t using inv by (simp add: dm_inv_def)
  have "dm_done s t = prog t \<and> dm_todo s t = []" if "stuck dm_step s" for t
  proof -
    have "dm_todo s t = []"
      using dm.live.stuck_final [OF run_imp_reach [OF assms] that] by (simp add: dm_final_def)
    then show ?thesis using d [of t] by (simp add: dm_rest_def split: if_splits)
  qed
  moreover have "dm_mtx s = None \<longrightarrow> dm_data s = seq_data (dm_log s)"
    using inv by (auto simp: dm_inv_def)
  moreover have "dm_weight k (prog t) DmOutside = (k + 4) * length (prog t)" for k t
    by (cases "prog t") simp_all
  then have "length ls \<le> (dm_width prog + 4) * (length (prog T1) + length (prog T2))"
    using dm.run_length [OF assms] by (simp add: dm_rank_def dm_init_def algebra_simps)
  ultimately show ?thesis using inv by (simp add: dm_inv_def)
qed

text \<open>Both threads of \<^verbatim>\<open>main\<close> call \<^verbatim>\<open>GetCopy\<close> five times; and a change of two elements, copied by the
  other thread.\<close>

definition dm_example :: "thread \<Rightarrow> dm_request list" where
  "dm_example = (\<lambda>_. [])(T1 := [ChangeData [1, 2]], T2 := [GetCopy])"

lemma dm_example_run:
  "\<exists>s. run dm_step [T1, T1, T1, T1, T2, T2, T2, T2, T2, T2] (dm_init dm_example) = Some s \<and>
     dm_log s = [Copied T2 [1, 2], Changed T1 [1, 2]]"
  by (simp add: dm_step_def dm_init_def dm_example_def)

theorem data_manager_linearizable_witness:
  "(\<exists>ls s. run dm_step ls (dm_init shared_mutex_main) = Some s \<and> stuck dm_step s \<and>
      length ls \<le> 40 \<and> (\<forall>t. dm_done s t = replicate 5 GetCopy)) \<and>
   (\<exists>s. run dm_step [T1, T1, T1, T1, T2, T2, T2, T2, T2, T2] (dm_init dm_example) = Some s \<and>
      dm_log s = [Copied T2 [1, 2], Changed T1 [1, 2]] \<and> seq_legal (dm_log s))"
proof
  obtain s where s: "reach dm_step (dm_init shared_mutex_main) s" "dm_final s"
    using dm.live.final_reachable [OF reach_init] by blast
  obtain ls where r: "run dm_step ls (dm_init shared_mutex_main) = Some s" using reach_imp_run [OF s(1)] ..
  have "dm_todo s t = []" for t using s(2) by (simp add: dm_final_def)
  then have st: "stuck dm_step s" unfolding stuck_def dm_step_def by (metis list.simps(4))
  show "\<exists>ls s. run dm_step ls (dm_init shared_mutex_main) = Some s \<and> stuck dm_step s \<and>
      length ls \<le> 40 \<and> (\<forall>t. dm_done s t = replicate 5 GetCopy)"
  proof (intro exI conjI)
    have "dm_width shared_mutex_main = 0" "\<And>t. length (shared_mutex_main t) = 5"
      by (simp_all add: dm_width_def shared_mutex_main_def map_replicate_const)
    then show "length ls \<le> 40" using data_manager_linearizable [OF r] by simp
    show "\<forall>t. dm_done s t = replicate 5 GetCopy"
      using data_manager_linearizable [OF r] st unfolding shared_mutex_main_def by blast
  qed (rule r, rule st)
  obtain u where "run dm_step [T1, T1, T1, T1, T2, T2, T2, T2, T2, T2] (dm_init dm_example) = Some u"
    and "dm_log u = [Copied T2 [1, 2], Changed T1 [1, 2]]" using dm_example_run by blast
  then show "\<exists>s. run dm_step [T1, T1, T1, T1, T2, T2, T2, T2, T2, T2] (dm_init dm_example) = Some s \<and>
      dm_log s = [Copied T2 [1, 2], Changed T1 [1, 2]] \<and> seq_legal (dm_log s)"
    using data_manager_linearizable by blast
qed

end
