(* ===== verification/Futex_Latch.thy ===== *)
theory Futex_Latch
  imports Std_Atomic
begin

text \<open>
  \<^verbatim>\<open>futex/latch.cpp\<close>: the class \<^verbatim>\<open>Latch\<close>, a count-down latch on the Linux \<^verbatim>\<open>futex\<close> system call, and
  the program that uses it: \<open>N\<close> workers call \<^verbatim>\<open>ArriveAndWait()\<close> and the main thread calls
  \<^verbatim>\<open>Wait()\<close> (the source has \<open>N = 3\<close>). The kernel's part is modelled by its documented
  behaviour: \<^verbatim>\<open>FUTEX_WAIT\<close> compares the word with the expected value and goes to sleep in one
  step, or returns at once if they differ; \<^verbatim>\<open>FUTEX_WAKE\<close> wakes the sleepers (here all of
  them, the count being \<^verbatim>\<open>INT_MAX\<close>); a sleeper may also return early because of a signal.
\<close>

section \<open>The latch and its threads\<close>

text \<open>Program points: before the \<^verbatim>\<open>fetch_sub\<close> of \<^verbatim>\<open>CountDown\<close>, before its \<^verbatim>\<open>FutexWake\<close>, before the
  \<^verbatim>\<open>load\<close> of \<^verbatim>\<open>Wait\<close>, before \<^verbatim>\<open>FutexWait(&m_count, current)\<close> with the value loaded, asleep in
  the kernel, returned from \<^verbatim>\<open>Wait\<close>.\<close>

datatype lt_pc = LtCountDown | LtWake | LtLoad | LtFutexWait int32 | LtSleep | LtDone

record latch =
  m_count :: int32
  lt_pc :: "tid \<Rightarrow> lt_pc"

definition latch_init :: "nat \<Rightarrow> latch" where
  "latch_init N =
     \<lparr>m_count = word_of_nat N,
      lt_pc = (\<lambda>t. if t < N then LtCountDown else if t = N then LtLoad else LtDone)\<rparr>"

definition FutexWait :: "tid \<Rightarrow> int32 \<Rightarrow> latch \<Rightarrow> latch" where
  "FutexWait t expectedValue s =
     s\<lparr>lt_pc := (lt_pc s)(t := if m_count s = expectedValue then LtSleep else LtLoad)\<rparr>"

definition FutexWake :: "latch \<Rightarrow> latch" where
  "FutexWake s = s\<lparr>lt_pc := (\<lambda>u. if lt_pc s u = LtSleep then LtLoad else lt_pc s u)\<rparr>"

definition CountDown :: "tid \<Rightarrow> latch \<Rightarrow> latch" where
  "CountDown t s =
     (let (oldValue, new) = fetch_sub (m_count s) 1
      in s\<lparr>m_count := new, lt_pc := (lt_pc s)(t := if oldValue = 1 then LtWake else LtLoad)\<rparr>)"

definition Wait_load :: "tid \<Rightarrow> latch \<Rightarrow> latch" where
  "Wait_load t s =
     (let current = m_count s
      in s\<lparr>lt_pc := (lt_pc s)(t := if current = 0 then LtDone else LtFutexWait current)\<rparr>)"

text \<open>One step of thread \<open>t\<close> through \<^verbatim>\<open>ArriveAndWait\<close> (a worker) or \<^verbatim>\<open>Wait\<close> (the main thread).\<close>

definition latch_go :: "(tid, latch) machine" where
  "latch_go t s =
     (case lt_pc s t of
        LtCountDown \<Rightarrow> Some (CountDown t s)
      | LtWake \<Rightarrow> Some ((FutexWake s)\<lparr>lt_pc := (lt_pc (FutexWake s))(t := LtLoad)\<rparr>)
      | LtLoad \<Rightarrow> Some (Wait_load t s)
      | LtFutexWait current \<Rightarrow> Some (FutexWait t current s)
      | LtSleep \<Rightarrow> None
      | LtDone \<Rightarrow> None)"

datatype lt_label = LtGo tid | LtSignal tid

fun latch_step :: "(lt_label, latch) machine" where
  "latch_step (LtGo t) s = latch_go t s"
| "latch_step (LtSignal t) s =
     (if lt_pc s t = LtSleep then Some (s\<lparr>lt_pc := (lt_pc s)(t := LtLoad)\<rparr>) else None)"

definition latch_final :: "nat \<Rightarrow> latch \<Rightarrow> bool" where
  "latch_final N s \<longleftrightarrow> (\<forall>t \<le> N. lt_pc s t = LtDone)"

section \<open>The invariant\<close>

definition pending :: "nat \<Rightarrow> latch \<Rightarrow> tid set" where
  "pending N s = {t. t < N \<and> lt_pc s t = LtCountDown}"

text \<open>The counter is the number of workers that have not counted down; a thread sleeps only
  while the counter is positive or the last worker's \<^verbatim>\<open>FutexWake\<close> is still to come; nobody
  has returned before the counter was zero.\<close>

definition latch_inv :: "nat \<Rightarrow> latch \<Rightarrow> bool" where
  "latch_inv N s \<longleftrightarrow>
     unat (m_count s) = card (pending N s) \<and>
     (\<forall>t. lt_pc s t = LtCountDown \<longrightarrow> t < N) \<and>
     (\<forall>t. N < t \<longrightarrow> lt_pc s t = LtDone) \<and>
     (\<forall>t. lt_pc s t \<noteq> LtFutexWait 0) \<and>
     (\<forall>t. lt_pc s t = LtWake \<longrightarrow> m_count s = 0) \<and>
     (\<forall>t \<le> N. lt_pc s t = LtDone \<longrightarrow> m_count s = 0) \<and>
     (\<forall>t. lt_pc s t = LtSleep \<longrightarrow> m_count s \<noteq> 0 \<or> (\<exists>u. lt_pc s u = LtWake))"

lemma finite_pending [simp]: "finite (pending N s)"
  by (simp add: pending_def)

lemma pending_upd:
  "p \<noteq> LtCountDown \<Longrightarrow> pending N (s\<lparr>m_count := c, lt_pc := (lt_pc s)(t := p)\<rparr>) = pending N s - {t}"
  by (auto simp: pending_def)

lemma pending_upd_same:
  "p \<noteq> LtCountDown \<Longrightarrow> lt_pc s t \<noteq> LtCountDown \<Longrightarrow> pending N (s\<lparr>lt_pc := (lt_pc s)(t := p)\<rparr>) = pending N s"
  by (auto simp: pending_def)

text \<open>Moves of one thread between program points that do not touch the counter.\<close>

lemma latch_inv_move:
  assumes "latch_inv N s" and old: "lt_pc s t \<notin> {LtCountDown, LtWake, LtDone}"
    and new: "p = LtLoad \<or> p = LtDone \<and> m_count s = 0 \<or> (\<exists>e. p = LtFutexWait e \<and> e \<noteq> 0) \<or> p = LtSleep \<and> m_count s \<noteq> 0"
  shows "latch_inv N (s\<lparr>lt_pc := (lt_pc s)(t := p)\<rparr>)"
proof -
  have "pending N (s\<lparr>lt_pc := (lt_pc s)(t := p)\<rparr>) = pending N s"
    using old new by (intro pending_upd_same) auto
  moreover have "t \<le> N" using assms(1) old unfolding latch_inv_def by (metis insertCI leI)
  ultimately show ?thesis using assms unfolding latch_inv_def by (auto split: if_splits)
qed

lemma latch_inv_CountDown:
  assumes inv: "latch_inv N s" and t: "lt_pc s t = LtCountDown"
  shows "latch_inv N (CountDown t s)"
proof -
  let ?s = "CountDown t s"
  have tN: "t < N" using inv t by (simp add: latch_inv_def)
  then have mem: "t \<in> pending N s" using t by (simp add: pending_def)
  have c: "unat (m_count s) = card (pending N s)" using inv by (simp add: latch_inv_def)
  have pos: "0 < card (pending N s)" using mem by (auto simp: card_gt_0_iff)
  then have nz: "m_count s \<noteq> 0" using c by auto
  have s: "?s = s\<lparr>m_count := m_count s - 1, lt_pc := (lt_pc s)(t := if m_count s = 1 then LtWake else LtLoad)\<rparr>"
    by (simp add: CountDown_def fetch_sub_def)
  have p: "pending N ?s = pending N s - {t}" unfolding s by (rule pending_upd) simp
  have "unat (m_count ?s) = card (pending N ?s)"
    unfolding p using c mem nz by (simp add: s unat_minus_one)
  moreover have "m_count ?s = 0 \<longleftrightarrow> m_count s = 1" by (simp add: s)
  moreover have "lt_pc s u \<noteq> LtWake" "u \<le> N \<Longrightarrow> lt_pc s u \<noteq> LtDone" for u
    using inv nz by (auto simp: latch_inv_def)
  ultimately show ?thesis using inv t tN unfolding latch_inv_def by (auto simp: s)
qed

lemma latch_inv_FutexWake:
  assumes inv: "latch_inv N s" and t: "lt_pc s t = LtWake"
  shows "latch_inv N ((FutexWake s)\<lparr>lt_pc := (lt_pc (FutexWake s))(t := LtLoad)\<rparr>)" (is "latch_inv N ?s")
proof -
  have "pending N ?s = pending N s" using t by (auto simp: pending_def FutexWake_def)
  moreover have "t \<le> N" using inv t unfolding latch_inv_def by (metis leI lt_pc.distinct(17))
  ultimately show ?thesis using inv unfolding latch_inv_def by (auto simp: FutexWake_def)
qed

lemma latch_inv_go:
  assumes inv: "latch_inv N s" and st: "latch_go t s = Some s'"
  shows "latch_inv N s'"
proof (cases "lt_pc s t")
  case LtCountDown
  then show ?thesis using inv st latch_inv_CountDown [OF inv LtCountDown] by (simp add: latch_go_def)
next
  case LtWake
  then show ?thesis using inv st latch_inv_FutexWake [OF inv LtWake] by (simp add: latch_go_def)
next
  case LtLoad
  then have "s' = Wait_load t s" using st by (simp add: latch_go_def)
  then show ?thesis using latch_inv_move [OF inv, of t] LtLoad by (simp add: Wait_load_def Let_def)
next
  case (LtFutexWait e)
  then have "s' = FutexWait t e s" using st by (simp add: latch_go_def)
  moreover have "e \<noteq> 0" using inv LtFutexWait by (auto simp: latch_inv_def)
  ultimately show ?thesis using latch_inv_move [OF inv, of t] LtFutexWait by (simp add: FutexWait_def)
qed (use st in \<open>simp_all add: latch_go_def\<close>)

lemma latch_inv_step: "latch_inv N s \<Longrightarrow> latch_step l s = Some s' \<Longrightarrow> latch_inv N s'"
  by (cases l) (auto intro: latch_inv_go intro!: latch_inv_move split: if_splits)

lemma latch_inv_init: "N < 2 ^ 32 \<Longrightarrow> latch_inv N (latch_init N)"
proof -
  assume N: "N < 2 ^ 32"
  have p: "pending N (latch_init N) = {..<N}" by (auto simp: pending_def latch_init_def)
  have "unat (word_of_nat N :: int32) = N" using N by (simp add: unat_of_nat)
  then show ?thesis unfolding latch_inv_def p by (auto simp: latch_init_def split: if_splits)
qed

section \<open>Progress\<close>

text \<open>A bound on the remaining steps. \<^verbatim>\<open>CountDown\<close> can make every other thread's loaded value
  stale, and \<^verbatim>\<open>FutexWake\<close> sends every sleeper back to its \<^verbatim>\<open>load\<close>; each happens once per worker.\<close>

fun lt_weight :: "nat \<Rightarrow> int32 \<Rightarrow> lt_pc \<Rightarrow> nat" where
  "lt_weight N c LtCountDown = 2 * (2 * N + 4)"
| "lt_weight N c LtWake = 2 * N + 4"
| "lt_weight N c LtLoad = 3"
| "lt_weight N c (LtFutexWait e) = (if e = c then 2 else 4)"
| "lt_weight N c LtSleep = 1"
| "lt_weight N c LtDone = 0"

definition latch_rank :: "nat \<Rightarrow> latch \<Rightarrow> nat" where
  "latch_rank N s = (\<Sum>t \<le> N. lt_weight N (m_count s) (lt_pc s t))"

lemma latch_rank_split:
  "t \<le> N \<Longrightarrow> latch_rank N s =
     lt_weight N (m_count s) (lt_pc s t) + (\<Sum>u \<in> {..N} - {t}. lt_weight N (m_count s) (lt_pc s u))"
  unfolding latch_rank_def by (rule sum.remove) simp_all

text \<open>If the moving thread pays for the others, the rank goes down.\<close>

lemma latch_rank_less:
  assumes t: "t \<le> N"
    and own: "lt_weight N (m_count s') (lt_pc s' t) + 2 * N < lt_weight N (m_count s) (lt_pc s t)"
    and oth: "\<And>u. u \<noteq> t \<Longrightarrow> lt_weight N (m_count s') (lt_pc s' u) \<le> lt_weight N (m_count s) (lt_pc s u) + 2"
  shows "latch_rank N s' < latch_rank N s"
proof -
  have "(\<Sum>u \<in> {..N} - {t}. lt_weight N (m_count s') (lt_pc s' u))
      \<le> (\<Sum>u \<in> {..N} - {t}. lt_weight N (m_count s) (lt_pc s u) + 2)"
    using oth by (intro sum_mono) auto
  also have "\<dots> = (\<Sum>u \<in> {..N} - {t}. lt_weight N (m_count s) (lt_pc s u)) + 2 * N"
    using t by (simp only: sum.distrib) simp
  finally show ?thesis using own unfolding latch_rank_split [OF t] by linarith
qed

lemma latch_rank_less_same:
  assumes t: "t \<le> N" and "lt_weight N (m_count s) p < lt_weight N (m_count s) (lt_pc s t)"
  shows "latch_rank N (s\<lparr>lt_pc := (lt_pc s)(t := p)\<rparr>) < latch_rank N s"
proof -
  have "(\<Sum>u \<in> {..N} - {t}. lt_weight N (m_count s) (((lt_pc s)(t := p)) u))
      = (\<Sum>u \<in> {..N} - {t}. lt_weight N (m_count s) (lt_pc s u))"
    by (rule sum.cong) auto
  then show ?thesis using assms(2) by (simp add: latch_rank_split [OF t])
qed

lemma lt_weight_count: "lt_weight N c' p \<le> lt_weight N c p + 2"
  by (cases p) simp_all

lemma latch_decrease:
  assumes inv: "latch_inv N s" and st: "latch_go t s = Some s'"
  shows "latch_rank N s' < latch_rank N s"
proof -
  have t: "t \<le> N"
    using inv st unfolding latch_inv_def by (cases "N < t") (auto simp: latch_go_def)
  show ?thesis
  proof (cases "lt_pc s t")
    case LtCountDown
    then have s': "s' = CountDown t s" using st by (simp add: latch_go_def)
    show ?thesis
    proof (rule latch_rank_less [OF t])
      show "lt_weight N (m_count s') (lt_pc s' t) + 2 * N < lt_weight N (m_count s) (lt_pc s t)"
        using LtCountDown by (simp add: s' CountDown_def fetch_sub_def)
      show "lt_weight N (m_count s') (lt_pc s' u) \<le> lt_weight N (m_count s) (lt_pc s u) + 2" if "u \<noteq> t" for u
        using that lt_weight_count [of N "m_count s'" "lt_pc s u"] by (simp add: s' CountDown_def fetch_sub_def)
    qed
  next
    case LtWake
    then have s': "s' = (FutexWake s)\<lparr>lt_pc := (lt_pc (FutexWake s))(t := LtLoad)\<rparr>"
      using st by (simp add: latch_go_def)
    show ?thesis
      by (rule latch_rank_less [OF t]) (simp_all add: s' LtWake FutexWake_def)
  next
    case LtLoad
    then have "s' = Wait_load t s" using st by (simp add: latch_go_def)
    then show ?thesis using latch_rank_less_same [OF t] LtLoad by (simp add: Wait_load_def Let_def)
  next
    case (LtFutexWait e)
    then have "s' = FutexWait t e s" using st by (simp add: latch_go_def)
    then show ?thesis using latch_rank_less_same [OF t] LtFutexWait by (simp add: FutexWait_def)
  qed (use st in \<open>simp_all add: latch_go_def\<close>)
qed

text \<open>No lost wake-up: if everybody were asleep or gone, the counter would be zero and the
  last worker's \<^verbatim>\<open>FutexWake\<close> would still be to come.\<close>

lemma latch_enabled:
  assumes inv: "latch_inv N s" and nf: "\<not> latch_final N s"
  shows "\<exists>t s'. latch_go t s = Some s'"
proof (rule ccontr)
  assume "\<nexists>t s'. latch_go t s = Some s'"
  then have go: "latch_go t s = None" for t by (meson not_None_eq)
  have none: "lt_pc s t = LtSleep \<or> lt_pc s t = LtDone" for t
    using go [of t] by (cases "lt_pc s t") (simp_all add: latch_go_def)
  then have nc: "lt_pc s t \<noteq> LtCountDown" "lt_pc s t \<noteq> LtWake" for t
    by (metis lt_pc.distinct)+
  then have "pending N s = {}" by (simp add: pending_def)
  then have "m_count s = 0" using inv by (simp add: latch_inv_def unat_eq_0)
  moreover obtain t where "lt_pc s t = LtSleep" using nf none by (auto simp: latch_final_def)
  ultimately show False using inv nc(2) by (auto simp: latch_inv_def)
qed

section \<open>The program for any number of workers\<close>

text \<open>The counter is an \<^verbatim>\<open>int\<close>; \<open>N\<close> workers fit into it.\<close>

locale latch_program =
  fixes N :: nat
  assumes fits: "N < 2 ^ 31"

sublocale latch_program \<subseteq> sig: machine_live latch_step "latch_init N" "latch_inv N" "latch_rank N" "latch_final N"
proof unfold_locales
  show "latch_inv N (latch_init N)" using fits by (intro latch_inv_init) simp
  show "latch_inv N s'" if "latch_inv N s" "latch_step l s = Some s'" for s l s'
    using that by (rule latch_inv_step)
  show "\<exists>l s'. latch_step l s = Some s' \<and> latch_rank N s' < latch_rank N s"
    if inv: "latch_inv N s" and nf: "\<not> latch_final N s" for s
  proof -
    obtain t s' where "latch_go t s = Some s'" using latch_enabled [OF inv nf] by blast
    moreover from this have "latch_rank N s' < latch_rank N s" by (rule latch_decrease [OF inv])
    moreover have "latch_step (LtGo t) s = latch_go t s" by simp
    ultimately show ?thesis by metis
  qed
qed

sublocale latch_program \<subseteq> go: machine_term latch_go "latch_init N" "latch_inv N" "latch_rank N" "latch_final N"
proof unfold_locales
  show "latch_inv N (latch_init N)" using fits by (intro latch_inv_init) simp
  show "latch_inv N s'" if "latch_inv N s" "latch_go t s = Some s'" for s t s'
    using that by (rule latch_inv_go)
  show "\<exists>t s'. latch_go t s = Some s'" if "latch_inv N s" "\<not> latch_final N s" for s
    using that by (rule latch_enabled)
  show "latch_rank N s' < latch_rank N s" if "latch_inv N s" "latch_go t s = Some s'" for s t s'
    using that by (rule latch_decrease)
qed

context latch_program
begin

lemma wait_safe:
  assumes "reach latch_step (latch_init N) s"
  shows "unat (m_count s) = card {u. u < N \<and> lt_pc s u = LtCountDown}"
    and "t \<le> N \<Longrightarrow> lt_pc s t = LtDone \<Longrightarrow> m_count s = 0 \<and> (\<forall>u < N. lt_pc s u \<noteq> LtCountDown)"
proof -
  have inv: "latch_inv N s" using assms by (rule sig.reach_inv)
  then show c: "unat (m_count s) = card {u. u < N \<and> lt_pc s u = LtCountDown}"
    by (simp add: latch_inv_def pending_def)
  show "m_count s = 0 \<and> (\<forall>u < N. lt_pc s u \<noteq> LtCountDown)" if "t \<le> N" "lt_pc s t = LtDone"
    using inv that c by (auto simp: latch_inv_def)
qed

lemma rank_init: "latch_rank N (latch_init N) = N * (4 * N + 8) + 3"
  by (simp add: latch_rank_def latch_init_def lessThan_Suc_atMost [symmetric])

lemma no_lost_wakeup:
  assumes "run latch_go ts (latch_init N) = Some s"
  shows "length ts \<le> N * (4 * N + 8) + 3" and "stuck latch_go s \<Longrightarrow> latch_final N s"
  using go.run_length [OF assms] go.live.stuck_final [OF run_imp_reach [OF assms]]
  by (simp_all only: rank_init)

lemma end_reachable:
  "reach latch_step (latch_init N) s \<Longrightarrow> \<exists>s'. reach latch_step s s' \<and> latch_final N s'"
  by (rule sig.final_reachable)

end

text \<open>\<^verbatim>\<open>main\<close> has \<^verbatim>\<open>WorkersCount = 3\<close>.\<close>

interpretation three: latch_program 3
  by unfold_locales simp

section \<open>Properties\<close>

text \<open>C3: \<^verbatim>\<open>Wait()\<close> returns only after all workers have counted down: in every reachable state
  of the latch with \<open>N\<close> workers, early returns of the system call included, a thread that has
  returned from \<^verbatim>\<open>Wait\<close> (or from \<^verbatim>\<open>ArriveAndWait\<close>) finds the counter at zero and every worker
  past its \<^verbatim>\<open>fetch_sub\<close>. The counter is always the number of workers still to count down, so
  it never goes below zero.\<close>

theorem latch_wait_safe:
  assumes "N < 2 ^ 31" and "reach latch_step (latch_init N) s"
  shows "unat (m_count s) = card {u. u < N \<and> lt_pc s u = LtCountDown} \<and>
    (\<forall>t \<le> N. lt_pc s t = LtDone \<longrightarrow> m_count s = 0 \<and> (\<forall>u < N. lt_pc s u \<noteq> LtCountDown))"
  using latch_program.wait_safe [OF latch_program.intro [OF assms(1)] assms(2)] by blast

theorem latch_wait_safe_witness:
  "\<exists>s. reach latch_step (latch_init 3) s \<and> latch_final 3 s \<and> m_count s = 0"
proof -
  obtain s where s: "reach latch_step (latch_init 3) s" "latch_final 3 s"
    using three.sig.final_reachable [OF reach_init] by blast
  moreover have "m_count s = 0"
    using latch_wait_safe [of 3 s] s by (auto simp: latch_final_def)
  ultimately show ?thesis by blast
qed

text \<open>C4: no wake-up is lost and the latch program terminates: with \<open>N\<close> workers every schedule
  of the threads has at most \<open>N * (4 * N + 8) + 3\<close> steps, and one that cannot go on has
  every worker and the main thread past the latch. With early returns of the system call
  thrown in anywhere, that end can still be reached.\<close>

theorem latch_no_lost_wakeup:
  assumes "N < 2 ^ 31"
  shows "(run latch_go ts (latch_init N) = Some s \<longrightarrow>
      length ts \<le> N * (4 * N + 8) + 3 \<and> (stuck latch_go s \<longrightarrow> latch_final N s)) \<and>
    (reach latch_step (latch_init N) s' \<longrightarrow> (\<exists>s''. reach latch_step s' s'' \<and> latch_final N s''))"
proof -
  have p: "latch_program N" using assms by (rule latch_program.intro)
  show ?thesis
    using latch_program.no_lost_wakeup [OF p, of ts s] latch_program.end_reachable [OF p, of s'] by blast
qed

text \<open>A run for one worker in which the main thread falls asleep and is woken.\<close>

definition sleep_and_wake :: "tid list" where
  "sleep_and_wake = [1, 1, 0, 0, 1, 0]"

theorem latch_no_lost_wakeup_witness:
  "\<exists>s. run latch_go sleep_and_wake (latch_init 1) = Some s \<and> stuck latch_go s \<and> latch_final 1 s"
proof -
  let ?s = "\<lparr>m_count = 0, lt_pc = (\<lambda>_. LtDone)\<rparr>"
  have r: "run latch_go sleep_and_wake (latch_init 1) = Some ?s"
    by (simp add: sleep_and_wake_def latch_go_def latch_init_def Wait_load_def FutexWait_def CountDown_def
        FutexWake_def fetch_sub_def Let_def fun_eq_iff)
  moreover have "stuck latch_go ?s" by (simp add: stuck_def latch_go_def)
  ultimately show ?thesis using latch_no_lost_wakeup [of 1 sleep_and_wake ?s] by simp
qed

end
