(* ===== verification/Stack_Spec.thy ===== *)
theory Stack_Spec
  imports Prelude
begin

text \<open>
  What the stacks of \<^verbatim>\<open>lock_free/spsc_stack.cpp\<close> promise, and the program that uses them.

  An implementation gives one step of \<^verbatim>\<open>Push\<close> and one step of \<^verbatim>\<open>Pop\<close>; a call is a sequence of
  steps, interleaved with those of the other threads. The promise is atomicity: each call
  takes effect at one of its steps, as on a sequential stack. It is stated as a forward
  simulation to the abstract machine below, whose state is the list of values together with
  what each call in progress has already done (locale \<open>spsc_stack\<close>).

  The client is \<^verbatim>\<open>main\<close>: a producer that pushes \<open>0, 1, ..., N - 1\<close> and a consumer that pops
  until it has received \<open>N\<close> values. It is proved once, in the locale: when the consumer has
  finished it has received each number exactly once.
\<close>

section \<open>The atomic stack\<close>

record 'v stack_spec =
  sp_stack :: "'v list"
  sp_pushed :: "tid \<Rightarrow> bool"
  sp_popped :: "'v option option"

definition stack_spec_init :: "'v stack_spec" where
  "stack_spec_init = \<lparr>sp_stack = [], sp_pushed = (\<lambda>_. False), sp_popped = None\<rparr>"

text \<open>The effect of a call of \<^verbatim>\<open>Push\<close> by thread \<open>t\<close> and of the consumer's \<^verbatim>\<open>Pop\<close>.\<close>

definition push_effect :: "tid \<Rightarrow> 'v \<Rightarrow> 'v stack_spec \<Rightarrow> 'v stack_spec" where
  "push_effect t v a = a\<lparr>sp_stack := v # sp_stack a, sp_pushed := (sp_pushed a)(t := True)\<rparr>"

definition pop_effect :: "'v stack_spec \<Rightarrow> 'v stack_spec" where
  "pop_effect a =
     (case sp_stack a of
        [] \<Rightarrow> a\<lparr>sp_popped := Some None\<rparr>
      | v # vs \<Rightarrow> a\<lparr>sp_stack := vs, sp_popped := Some (Some v)\<rparr>)"

text \<open>A step of a call does nothing, or takes the call's effect if it has not been taken; a
  step that returns requires the effect to have been taken.\<close>

definition push_spec :: "tid \<Rightarrow> 'v \<Rightarrow> 'v stack_spec \<Rightarrow> bool \<Rightarrow> 'v stack_spec \<Rightarrow> bool" where
  "push_spec t v a ret a' \<longleftrightarrow>
     (\<exists>b. (b = a \<or> \<not> sp_pushed a t \<and> b = push_effect t v a) \<and>
          (if ret then sp_pushed b t \<and> a' = b\<lparr>sp_pushed := (sp_pushed b)(t := False)\<rparr> else a' = b))"

definition pop_spec :: "'v stack_spec \<Rightarrow> 'v option option \<Rightarrow> 'v stack_spec \<Rightarrow> bool" where
  "pop_spec a r a' \<longleftrightarrow>
     (\<exists>b. (b = a \<or> sp_popped a = None \<and> b = pop_effect a) \<and>
          (case r of
             None \<Rightarrow> a' = b
           | Some v \<Rightarrow> sp_popped b = Some v \<and> a' = b\<lparr>sp_popped := None\<rparr>))"

section \<open>Histories\<close>

text \<open>The completed calls with their results, last one first, of the atomic stack and of an
  implementation used by any number of producers and one consumer. A producer that has a
  call in progress continues it; \<open>pend\<close> is its argument.\<close>

datatype 'v returned = PushReturned tid 'v | PopReturned "'v option"

definition push_log :: "tid \<Rightarrow> 'v \<Rightarrow> bool \<Rightarrow> 'v returned list \<Rightarrow> 'v returned list" where
  "push_log t v ret log = (if ret then PushReturned t v # log else log)"

definition pop_log :: "'v option option \<Rightarrow> 'v returned list \<Rightarrow> 'v returned list" where
  "pop_log r log = (case r of None \<Rightarrow> log | Some v \<Rightarrow> PopReturned v # log)"

inductive spec_history :: "'v stack_spec \<Rightarrow> 'v returned list \<Rightarrow> bool" where
  spec_start: "spec_history stack_spec_init []"
| spec_push: "spec_history a log \<Longrightarrow> push_spec t v a ret a' \<Longrightarrow> spec_history a' (push_log t v ret log)"
| spec_pop: "spec_history a log \<Longrightarrow> pop_spec a r a' \<Longrightarrow> spec_history a' (pop_log r log)"

section \<open>The producer and the consumer\<close>

type_synonym ('c, 'v, 'k) push_op = "tid \<Rightarrow> 'c \<Rightarrow> 'v \<Rightarrow> 'k \<Rightarrow> ('k \<times> bool) option"

type_synonym ('c, 'v, 'k) pop_op = "'c \<Rightarrow> 'k \<Rightarrow> ('k \<times> 'v option option) option"

datatype ('c, 'v) mp_label = MpPush tid 'c 'v | MpPop 'c

fun mp_step :: "('c, 'v, 'k) push_op \<Rightarrow> ('c, 'v, 'k) pop_op \<Rightarrow> ('k \<Rightarrow> tid \<Rightarrow> 'v option) \<Rightarrow>
    (('c, 'v) mp_label, 'k \<times> 'v returned list) machine" where
  "mp_step push pop pend (MpPush t c v) (k, log) =
     (if pend k t = None \<or> pend k t = Some v
      then (case push t c v k of None \<Rightarrow> None | Some (k', ret) \<Rightarrow> Some (k', push_log t v ret log))
      else None)"
| "mp_step push pop pend (MpPop c) (k, log) =
     (case pop c k of None \<Rightarrow> None | Some (k', r) \<Rightarrow> Some (k', pop_log r log))"

datatype sc_pc = ScArrive | ScWait | ScLoop | ScDone

datatype 'c sc_label = Producer 'c | Consumer 'c

record 'k sc_state =
  sc_obj :: 'k
  sc_latch :: nat
  sc_prod :: sc_pc
  sc_i :: nat
  sc_cons :: sc_pc
  sc_got :: "int list"

definition sc_init :: "'k \<Rightarrow> 'k sc_state" where
  "sc_init k = \<lparr>sc_obj = k, sc_latch = 2, sc_prod = ScArrive, sc_i = 0, sc_cons = ScArrive, sc_got = []\<rparr>"

text \<open>\<^verbatim>\<open>latch.arrive_and_wait()\<close> counts the latch down and waits for zero; then the loops. The
  consumer's counter \<^verbatim>\<open>consumed\<close> is the number of values received, which are kept.\<close>

fun sc_step :: "('c, int, 'k) push_op \<Rightarrow> ('c, int, 'k) pop_op \<Rightarrow> nat \<Rightarrow> ('c sc_label, 'k sc_state) machine" where
  "sc_step push pop N (Producer c) s =
     (case sc_prod s of
        ScArrive \<Rightarrow> Some (s\<lparr>sc_latch := sc_latch s - 1, sc_prod := ScWait\<rparr>)
      | ScWait \<Rightarrow> if sc_latch s = 0 then Some (s\<lparr>sc_prod := ScLoop\<rparr>) else None
      | ScLoop \<Rightarrow>
          if sc_i s < N
          then (case push 0 c (int (sc_i s)) (sc_obj s) of
                  None \<Rightarrow> None
                | Some (k, ret) \<Rightarrow> Some (s\<lparr>sc_obj := k, sc_i := if ret then Suc (sc_i s) else sc_i s\<rparr>))
          else Some (s\<lparr>sc_prod := ScDone\<rparr>)
      | ScDone \<Rightarrow> None)"
| "sc_step push pop N (Consumer c) s =
     (case sc_cons s of
        ScArrive \<Rightarrow> Some (s\<lparr>sc_latch := sc_latch s - 1, sc_cons := ScWait\<rparr>)
      | ScWait \<Rightarrow> if sc_latch s = 0 then Some (s\<lparr>sc_cons := ScLoop\<rparr>) else None
      | ScLoop \<Rightarrow>
          if length (sc_got s) < N
          then (case pop c (sc_obj s) of
                  None \<Rightarrow> None
                | Some (k, r) \<Rightarrow>
                    Some (s\<lparr>sc_obj := k,
                      sc_got := (case r of Some (Some v) \<Rightarrow> sc_got s @ [v] | _ \<Rightarrow> sc_got s)\<rparr>))
          else Some (s\<lparr>sc_cons := ScDone\<rparr>)
      | ScDone \<Rightarrow> None)"

definition upto_int :: "nat \<Rightarrow> int multiset" where
  "upto_int n = mset (map int [0..<n])"

lemma upto_int_Suc [simp]: "upto_int (Suc n) = add_mset (int n) (upto_int n)"
  by (simp add: upto_int_def)

lemma size_upto_int [simp]: "size (upto_int n) = n"
  by (simp add: upto_int_def)

text \<open>Where the values are: received, on the stack, popped but not yet returned; they are
  the numbers pushed so far, including one whose \<^verbatim>\<open>Push\<close> has taken effect but not returned.\<close>

definition in_flight :: "'v stack_spec \<Rightarrow> 'v multiset" where
  "in_flight a = (case sp_popped a of Some (Some v) \<Rightarrow> {#v#} | _ \<Rightarrow> {#})"

lemma upto_int_mono: "m \<le> n \<Longrightarrow> upto_int m \<subseteq># upto_int n"
  by (induction n) (auto simp: le_Suc_eq intro: subset_mset.order_trans)

definition conserved :: "int stack_spec \<Rightarrow> int list \<Rightarrow> nat \<Rightarrow> bool" where
  "conserved a got i \<longleftrightarrow>
     mset got + mset (sp_stack a) + in_flight a =
       upto_int i + (if sp_pushed a 0 then {#int i#} else {#}) \<and>
     (\<forall>t. t \<noteq> 0 \<longrightarrow> \<not> sp_pushed a t)"

lemma conserved_push:
  assumes "conserved a got i" "push_spec 0 (int i) a ret a'"
  shows "conserved a' got (if ret then Suc i else i)"
  using assms by (auto simp: conserved_def push_spec_def push_effect_def in_flight_def split: if_splits)

lemma conserved_pop:
  assumes "conserved a got i" "pop_spec a r a'"
  shows "conserved a' (case r of Some (Some v) \<Rightarrow> got @ [v] | _ \<Rightarrow> got) i"
  using assms
  by (auto simp: conserved_def pop_spec_def pop_effect_def in_flight_def
      split: option.splits list.splits)

section \<open>The contract of a stack\<close>

text \<open>\<open>pend\<close> is the argument of a \<^verbatim>\<open>Push\<close> in progress; a thread finishes one call before the
  next.\<close>

locale spsc_stack =
  fixes k0 :: 'k
    and push :: "('c, 'v, 'k) push_op"
    and pop :: "('c, 'v, 'k) pop_op"
    and pend :: "'k \<Rightarrow> tid \<Rightarrow> 'v option"
    and sim :: "'k \<Rightarrow> 'v stack_spec \<Rightarrow> bool"
  assumes sim_init: "sim k0 stack_spec_init"
    and pend_init: "pend k0 t = None"
    and push_pend: "push t c v k = Some (k', ret) \<Longrightarrow> pend k' = (pend k)(t := if ret then None else Some v)"
    and pop_pend: "pop c k = Some (k', r) \<Longrightarrow> pend k' = pend k"
    and push_sim: "sim k a \<Longrightarrow> pend k t \<in> {None, Some v} \<Longrightarrow> push t c v k = Some (k', ret) \<Longrightarrow>
      \<exists>a'. push_spec t v a ret a' \<and> sim k' a'"
    and pop_sim: "sim k a \<Longrightarrow> pop c k = Some (k', r) \<Longrightarrow> \<exists>a'. pop_spec a r a' \<and> sim k' a'"

context spsc_stack
begin

text \<open>Trace refinement: every history of the implementation is a history of the atomic stack.\<close>

lemma mp_refines:
  "reach (mp_step push pop pend) (k0, []) s \<Longrightarrow> \<exists>a. spec_history a (snd s) \<and> sim (fst s) a"
proof (induction rule: reach.induct)
  case reach_init
  then show ?case using sim_init spec_start by auto
next
  case (reach_step s l s')
  obtain k log where s: "s = (k, log)" by (cases s)
  obtain a where a: "spec_history a log" "sim k a" using reach_step.IH s by auto
  show ?case
  proof (cases l)
    case (MpPush t c v)
    then obtain k' ret where p: "push t c v k = Some (k', ret)" "s' = (k', push_log t v ret log)"
      and pd: "pend k t \<in> {None, Some v}"
      using reach_step.hyps(2) s by (auto split: if_splits option.splits)
    obtain a' where a': "push_spec t v a ret a'" "sim k' a'" using push_sim [OF a(2) pd p(1)] by blast
    have "spec_history a' (push_log t v ret log)" using a(1) a'(1) by (rule spec_push)
    then show ?thesis using a'(2) p(2) by auto
  next
    case (MpPop c)
    then obtain k' r where p: "pop c k = Some (k', r)" "s' = (k', pop_log r log)"
      using reach_step.hyps(2) s by (auto split: option.splits)
    obtain a' where a': "pop_spec a r a'" "sim k' a'" using pop_sim [OF a(2) p(1)] by blast
    have "spec_history a' (pop_log r log)" using a(1) a'(1) by (rule spec_pop)
    then show ?thesis using a'(2) p(2) by auto
  qed
qed

end

text \<open>The client's locale: the stack holds \<^verbatim>\<open>int\<close>s.\<close>

locale int_stack = spsc_stack k0 push pop pend sim
  for k0 :: 'k and push :: "('c, int, 'k) push_op" and pop :: "('c, int, 'k) pop_op" and pend sim
begin

definition main_inv :: "nat \<Rightarrow> 'k sc_state \<Rightarrow> bool" where
  "main_inv N s \<longleftrightarrow>
     (\<exists>a. sim (sc_obj s) a \<and> conserved a (sc_got s) (sc_i s) \<and> (sp_pushed a 0 \<longrightarrow> sc_i s < N)) \<and>
     sc_i s \<le> N \<and> length (sc_got s) \<le> N \<and>
     pend (sc_obj s) 0 \<in> {None, Some (int (sc_i s))} \<and>
     (sc_cons s = ScDone \<longrightarrow> length (sc_got s) = N)"

lemma main_inv_init: "main_inv N (sc_init k0)"
  using sim_init pend_init
  by (auto simp: main_inv_def sc_init_def conserved_def stack_spec_init_def in_flight_def upto_int_def)

lemma main_inv_push:
  assumes inv: "main_inv N s" and lt: "sc_i s < N" and p: "push 0 c (int (sc_i s)) (sc_obj s) = Some (k, ret)"
  shows "main_inv N (s\<lparr>sc_obj := k, sc_i := if ret then Suc (sc_i s) else sc_i s\<rparr>)"
proof -
  obtain a where a: "sim (sc_obj s) a" "conserved a (sc_got s) (sc_i s)" using inv by (auto simp: main_inv_def)
  have "pend (sc_obj s) 0 \<in> {None, Some (int (sc_i s))}" using inv by (simp add: main_inv_def)
  then obtain a' where a': "push_spec 0 (int (sc_i s)) a ret a'" "sim k a'"
    using push_sim [OF a(1) _ p] by blast
  have "conserved a' (sc_got s) (if ret then Suc (sc_i s) else sc_i s)" using a(2) a'(1) by (rule conserved_push)
  moreover have "sp_pushed a' 0 \<longrightarrow> (if ret then Suc (sc_i s) else sc_i s) < N"
    using a'(1) lt by (auto simp: push_spec_def split: if_splits)
  ultimately show ?thesis using inv lt a'(2) push_pend [OF p] by (auto simp: main_inv_def)
qed

lemma main_inv_pop:
  assumes inv: "main_inv N s" and lt: "length (sc_got s) < N" and nd: "sc_cons s \<noteq> ScDone"
    and p: "pop c (sc_obj s) = Some (k, r)"
  shows "main_inv N (s\<lparr>sc_obj := k, sc_got := (case r of Some (Some v) \<Rightarrow> sc_got s @ [v] | _ \<Rightarrow> sc_got s)\<rparr>)"
proof -
  obtain a where a: "sim (sc_obj s) a" "conserved a (sc_got s) (sc_i s)" "sp_pushed a 0 \<longrightarrow> sc_i s < N"
    using inv by (auto simp: main_inv_def)
  obtain a' where a': "pop_spec a r a'" "sim k a'" using pop_sim [OF a(1) p] by blast
  have "conserved a' (case r of Some (Some v) \<Rightarrow> sc_got s @ [v] | _ \<Rightarrow> sc_got s) (sc_i s)"
    using a(2) a'(1) by (rule conserved_pop)
  moreover have "sp_pushed a' 0 \<longrightarrow> sc_i s < N"
    using a'(1) a(3) by (auto simp: pop_spec_def pop_effect_def split: option.splits list.splits)
  ultimately show ?thesis using inv lt nd a'(2) pop_pend [OF p]
    by (auto simp: main_inv_def split: option.splits)
qed

lemma main_inv_other:
  assumes "main_inv N s"
  shows "main_inv N (s\<lparr>sc_latch := n, sc_prod := p\<rparr>)" "main_inv N (s\<lparr>sc_prod := p\<rparr>)"
    and "q \<noteq> ScDone \<or> length (sc_got s) = N \<Longrightarrow> main_inv N (s\<lparr>sc_latch := n, sc_cons := q\<rparr>)"
    and "q \<noteq> ScDone \<or> length (sc_got s) = N \<Longrightarrow> main_inv N (s\<lparr>sc_cons := q\<rparr>)"
  using assms by (auto simp: main_inv_def)

lemma main_inv_step:
  assumes inv: "main_inv N s" and st: "sc_step push pop N l s = Some s'"
  shows "main_inv N s'"
proof (cases l)
  case (Producer c)
  show ?thesis
  proof (cases "sc_prod s")
    case ScLoop
    show ?thesis
    proof (cases "sc_i s < N")
      case True
      then obtain k ret where "push 0 c (int (sc_i s)) (sc_obj s) = Some (k, ret)"
        and "s' = s\<lparr>sc_obj := k, sc_i := if ret then Suc (sc_i s) else sc_i s\<rparr>"
        using st Producer ScLoop by (auto split: option.splits)
      then show ?thesis using main_inv_push [OF inv True] by simp
    next
      case False
      then show ?thesis using st Producer ScLoop main_inv_other(2) [OF inv] by auto
    qed
  qed (use st Producer main_inv_other [OF inv] in \<open>auto split: if_splits\<close>)
next
  case (Consumer c)
  show ?thesis
  proof (cases "sc_cons s")
    case ScLoop
    show ?thesis
    proof (cases "length (sc_got s) < N")
      case True
      then obtain k r where "pop c (sc_obj s) = Some (k, r)"
        and "s' = s\<lparr>sc_obj := k, sc_got := (case r of Some (Some v) \<Rightarrow> sc_got s @ [v] | _ \<Rightarrow> sc_got s)\<rparr>"
        using st Consumer ScLoop by (auto split: option.splits)
      then show ?thesis using main_inv_pop [OF inv True, of c k r] ScLoop by simp
    next
      case False
      then have "length (sc_got s) = N" using inv by (simp add: main_inv_def)
      then show ?thesis using st Consumer ScLoop main_inv_other(4) [OF inv] by auto
    qed
  qed (use st Consumer main_inv_other [OF inv] in \<open>auto split: if_splits\<close>)
qed

end

sublocale int_stack \<subseteq> main: machine_inv "sc_step push pop N" "sc_init k0" "main_inv N" for N
  by unfold_locales (rule main_inv_init, rule main_inv_step)

context int_stack
begin

text \<open>At any moment the consumer has received different numbers, all pushed before.\<close>

lemma received_pushed:
  assumes "reach (sc_step push pop N) (sc_init k0) s"
  shows "mset (sc_got s) \<subseteq># upto_int (min N (Suc (sc_i s)))"
proof -
  have inv: "main_inv N s" using assms by (rule main.reach_inv)
  then obtain a where c: "conserved a (sc_got s) (sc_i s)" and p: "sp_pushed a 0 \<longrightarrow> sc_i s < N"
    by (auto simp: main_inv_def)
  have le: "sc_i s \<le> N" using inv by (simp add: main_inv_def)
  have "upto_int (if sp_pushed a 0 then Suc (sc_i s) else sc_i s) = mset (sc_got s) + (mset (sp_stack a) + in_flight a)"
    using c by (simp add: conserved_def add.assoc split: if_splits)
  then have "mset (sc_got s) \<subseteq># upto_int (if sp_pushed a 0 then Suc (sc_i s) else sc_i s)"
    by (simp only: mset_subset_eq_add_left)
  also have "\<dots> \<subseteq># upto_int (min N (Suc (sc_i s)))"
    using p le by (intro upto_int_mono) auto
  finally show ?thesis .
qed

text \<open>When the consumer has finished, it has received every number exactly once.\<close>

lemma all_received:
  assumes r: "reach (sc_step push pop N) (sc_init k0) s" and "sc_cons s = ScDone"
  shows "mset (sc_got s) = upto_int N"
proof -
  have "mset (sc_got s) \<subseteq># upto_int N"
    using received_pushed [OF r] upto_int_mono [of "min N (Suc (sc_i s))" N] by (auto intro: subset_mset.order_trans)
  moreover have "size (mset (sc_got s)) = size (upto_int N)"
    using main.reach_inv [OF r] assms(2) by (simp add: main_inv_def)
  ultimately show ?thesis using mset_subset_size [of "mset (sc_got s)" "upto_int N"]
    by (auto simp: subset_mset.le_less)
qed

end

end
