(* ===== verification/Stack_Mutex.thy ===== *)
theory Stack_Mutex
  imports Stack_Spec
begin

text \<open>
  \<^verbatim>\<open>SPSCStack\<close> of \<^verbatim>\<open>lock_free/spsc_stack.cpp\<close>: a \<^verbatim>\<open>std::stack\<close> behind a \<^verbatim>\<open>std::mutex\<close>, and \<^verbatim>\<open>main\<close>
  running on it. The guard's constructor, the accesses to \<^verbatim>\<open>m_stack\<close> and the guard's destructor
  are separate steps; the top of the stack is the head of the list.
\<close>

section \<open>The class\<close>

datatype party = ByProducer tid | ByConsumer

datatype 'v mpush_pc = MPushOut | MPushLocked 'v | MPushDone 'v

datatype 'v mpop_pc = MPopOut | MPopLocked | MPopTop 'v | MPopRet "'v option"

record 'v mstack =
  m_mtx :: "party option"
  m_stack :: "'v list"
  ms_push :: "tid \<Rightarrow> 'v mpush_pc"
  ms_pop :: "'v mpop_pc"

definition mstack_init :: "'v mstack" where
  "mstack_init = \<lparr>m_mtx = None, m_stack = [], ms_push = (\<lambda>_. MPushOut), ms_pop = MPopOut\<rparr>"

text \<open>\<^verbatim>\<open>Push\<close>: lock, push, unlock. A step gives the new state and whether the call returned.\<close>

definition SPSCStack_Push :: "(unit, 'v, 'v mstack) push_op" where
  "SPSCStack_Push t c v k =
     (case ms_push k t of
        MPushOut \<Rightarrow>
          (if m_mtx k = None
           then Some (k\<lparr>m_mtx := Some (ByProducer t), ms_push := (ms_push k)(t := MPushLocked v)\<rparr>, False)
           else None)
      | MPushLocked _ \<Rightarrow>
          Some (k\<lparr>m_stack := v # m_stack k, ms_push := (ms_push k)(t := MPushDone v)\<rparr>, False)
      | MPushDone _ \<Rightarrow> Some (k\<lparr>m_mtx := None, ms_push := (ms_push k)(t := MPushOut)\<rparr>, True))"

text \<open>\<^verbatim>\<open>Pop\<close>: lock; if the stack is empty the result stays empty, else copy the top and remove it;
  unlock on return.\<close>

definition SPSCStack_Pop :: "(unit, 'v, 'v mstack) pop_op" where
  "SPSCStack_Pop c k =
     (case ms_pop k of
        MPopOut \<Rightarrow>
          (if m_mtx k = None then Some (k\<lparr>m_mtx := Some ByConsumer, ms_pop := MPopLocked\<rparr>, None) else None)
      | MPopLocked \<Rightarrow>
          (case m_stack k of
             [] \<Rightarrow> Some (k\<lparr>ms_pop := MPopRet None\<rparr>, None)
           | v # _ \<Rightarrow> Some (k\<lparr>ms_pop := MPopTop v\<rparr>, None))
      | MPopTop v \<Rightarrow> Some (k\<lparr>m_stack := tl (m_stack k), ms_pop := MPopRet (Some v)\<rparr>, None)
      | MPopRet r \<Rightarrow> Some (k\<lparr>m_mtx := None, ms_pop := MPopOut\<rparr>, Some r))"

section \<open>Refinement\<close>

fun mpush_arg :: "'v mpush_pc \<Rightarrow> 'v option" where
  "mpush_arg MPushOut = None"
| "mpush_arg (MPushLocked v) = Some v"
| "mpush_arg (MPushDone v) = Some v"

fun mpush_done :: "'v mpush_pc \<Rightarrow> bool" where
  "mpush_done (MPushDone v) = True"
| "mpush_done p = False"

fun mpop_result :: "'v mpop_pc \<Rightarrow> 'v option option" where
  "mpop_result (MPopRet r) = Some r"
| "mpop_result p = None"

definition mstack_pend :: "'v mstack \<Rightarrow> tid \<Rightarrow> 'v option" where
  "mstack_pend k t = mpush_arg (ms_push k t)"

text \<open>The mutex is owned exactly by the thread inside a call, and the top read by \<^verbatim>\<open>Pop\<close> is still
  the top.\<close>

definition mstack_inv :: "'v mstack \<Rightarrow> bool" where
  "mstack_inv k \<longleftrightarrow>
     (\<forall>t. ms_push k t \<noteq> MPushOut \<longleftrightarrow> m_mtx k = Some (ByProducer t)) \<and>
     (ms_pop k \<noteq> MPopOut \<longleftrightarrow> m_mtx k = Some ByConsumer) \<and>
     (\<forall>v. ms_pop k = MPopTop v \<longrightarrow> (\<exists>vs. m_stack k = v # vs))"

definition mstack_sim :: "'v mstack \<Rightarrow> 'v stack_spec \<Rightarrow> bool" where
  "mstack_sim k a \<longleftrightarrow>
     mstack_inv k \<and> sp_stack a = m_stack k \<and>
     (\<forall>t. sp_pushed a t \<longleftrightarrow> mpush_done (ms_push k t)) \<and>
     sp_popped a = mpop_result (ms_pop k)"

text \<open>\<^verbatim>\<open>Push\<close> takes effect at \<^verbatim>\<open>m_stack.push\<close>.\<close>

lemma mstack_push_sim:
  assumes sim: "mstack_sim k a" and p: "SPSCStack_Push t c v k = Some (k', ret)"
  shows "\<exists>a'. push_spec t v a ret a' \<and> mstack_sim k' a'"
proof (cases "ms_push k t")
  case MPushOut
  then have "push_spec t v a ret a \<and> mstack_sim k' a"
    using sim p by (auto simp: push_spec_def mstack_sim_def mstack_inv_def SPSCStack_Push_def split: if_splits)
  then show ?thesis by blast
next
  case (MPushLocked w)
  then have "push_spec t v a ret (push_effect t v a) \<and> mstack_sim k' (push_effect t v a)"
    using sim p
    by (auto simp: push_spec_def push_effect_def mstack_sim_def mstack_inv_def SPSCStack_Push_def split: if_splits)
  then show ?thesis by blast
next
  case (MPushDone w)
  let ?a = "a\<lparr>sp_pushed := (sp_pushed a)(t := False)\<rparr>"
  have "m_mtx k = Some (ByProducer t)"
    using sim MPushDone unfolding mstack_sim_def mstack_inv_def by (metis mpush_pc.distinct(3))
  then have "push_spec t v a ret ?a \<and> mstack_sim k' ?a"
    using sim p MPushDone by (auto simp: push_spec_def mstack_sim_def mstack_inv_def SPSCStack_Push_def split: if_splits)
  then show ?thesis by blast
qed

text \<open>\<^verbatim>\<open>Pop\<close> takes effect at \<^verbatim>\<open>m_stack.pop\<close>, or where it finds the stack empty.\<close>

lemma mstack_pop_sim:
  assumes sim: "mstack_sim k a" and p: "SPSCStack_Pop c k = Some (k', r)"
  shows "\<exists>a'. pop_spec a r a' \<and> mstack_sim k' a'"
proof (cases "ms_pop k")
  case MPopOut
  then have "pop_spec a r a \<and> mstack_sim k' a"
    using sim p by (auto simp: pop_spec_def mstack_sim_def mstack_inv_def SPSCStack_Pop_def split: if_splits)
  then show ?thesis by blast
next
  case MPopLocked
  show ?thesis
  proof (cases "m_stack k")
    case Nil
    then have "pop_spec a r (pop_effect a) \<and> mstack_sim k' (pop_effect a)"
      using sim p MPopLocked
      by (auto simp: pop_spec_def pop_effect_def mstack_sim_def mstack_inv_def SPSCStack_Pop_def)
    then show ?thesis by blast
  next
    case (Cons v vs)
    then have "pop_spec a r a \<and> mstack_sim k' a"
      using sim p MPopLocked by (auto simp: pop_spec_def mstack_sim_def mstack_inv_def SPSCStack_Pop_def)
    then show ?thesis by blast
  qed
next
  case (MPopTop v)
  then obtain vs where "m_stack k = v # vs" using sim by (auto simp: mstack_sim_def mstack_inv_def)
  then have "pop_spec a r (pop_effect a) \<and> mstack_sim k' (pop_effect a)"
    using sim p MPopTop
    by (auto simp: pop_spec_def pop_effect_def mstack_sim_def mstack_inv_def SPSCStack_Pop_def)
  then show ?thesis by blast
next
  case (MPopRet w)
  let ?a = "a\<lparr>sp_popped := None\<rparr>"
  have "pop_spec a r ?a \<and> mstack_sim k' ?a"
    using sim p MPopRet by (auto simp: pop_spec_def mstack_sim_def mstack_inv_def SPSCStack_Pop_def)
  then show ?thesis by blast
qed

interpretation msg: spsc_stack "mstack_init :: 'v mstack" SPSCStack_Push SPSCStack_Pop mstack_pend mstack_sim
proof unfold_locales
  show "mstack_sim mstack_init stack_spec_init"
    by (simp add: mstack_sim_def mstack_inv_def mstack_init_def stack_spec_init_def)
  show "mstack_pend mstack_init t = None" for t by (simp add: mstack_pend_def mstack_init_def)
  show "mstack_pend k' = (mstack_pend k)(t := if ret then None else Some v)"
    if "SPSCStack_Push t c v k = Some (k', ret)" for t c v and k k' :: "'v mstack" and ret
    using that by (auto simp: SPSCStack_Push_def mstack_pend_def fun_eq_iff split: mpush_pc.splits if_splits)
  show "mstack_pend k' = mstack_pend k" if "SPSCStack_Pop c k = Some (k', r)" for c r and k k' :: "'v mstack"
    using that
    by (auto simp: SPSCStack_Pop_def mstack_pend_def fun_eq_iff split: mpop_pc.splits if_splits list.splits)
qed (auto intro: mstack_push_sim mstack_pop_sim)

interpretation ms: int_stack "mstack_init :: int mstack" SPSCStack_Push SPSCStack_Pop mstack_pend mstack_sim
  by unfold_locales

section \<open>Properties\<close>

text \<open>\<^verbatim>\<open>main\<close> of \<^verbatim>\<open>spsc_stack.cpp\<close>, with \<open>N\<close> elements.\<close>

definition spsc_main :: "nat \<Rightarrow> (unit sc_label, int mstack sc_state) machine" where
  "spsc_main N = sc_step SPSCStack_Push SPSCStack_Pop N"

text \<open>C5: the producer and the consumer of \<^verbatim>\<open>spsc_stack.cpp\<close> exchange every element exactly once:
  when the consumer's loop ends it has received the numbers \<open>0, ..., N - 1\<close>, each once, and at
  every moment it has received only numbers that were pushed, none of them twice.\<close>

theorem spsc_main_received:
  assumes "reach (spsc_main N) (sc_init mstack_init) s"
  shows "mset (sc_got s) \<subseteq># upto_int (min N (Suc (sc_i s))) \<and>
    (sc_cons s = ScDone \<longrightarrow> mset (sc_got s) = upto_int N)"
  using assms ms.received_pushed [of N s] ms.all_received [of N s] by (simp add: spsc_main_def)

theorem spsc_main_received_witness:
  "\<exists>s. reach (spsc_main 1) (sc_init mstack_init) s \<and> sc_cons s = ScDone \<and> mset (sc_got s) = {#0#}"
proof -
  let ?ls = "[Producer (), Consumer (), Producer (), Consumer ()] @ replicate 4 (Producer ()) @ replicate 5 (Consumer ())"
  obtain s where s: "run (spsc_main 1) ?ls (sc_init mstack_init) = Some s" and d: "sc_cons s = ScDone"
    by (simp add: numeral_eq_Suc spsc_main_def sc_init_def mstack_init_def SPSCStack_Push_def SPSCStack_Pop_def)
  have "reach (spsc_main 1) (sc_init mstack_init) s" using s by (rule run_imp_reach)
  then show ?thesis using spsc_main_received [of 1 s] d by (auto simp: upto_int_def)
qed

end
