(* ===== verification/Stack_LockFree.thy ===== *)
theory Stack_LockFree
  imports Stack_Spec
begin

text \<open>
  \<^verbatim>\<open>LockFreeSPSCStack\<close> of \<^verbatim>\<open>lock_free/spsc_stack.cpp\<close>: a linked list whose head is an atomic
  pointer. The heap maps addresses to the nodes that are allocated; \<^verbatim>\<open>new\<close> takes any free
  address (also one that was freed before), \<^verbatim>\<open>delete\<close> frees one. An access to an address that
  is not allocated is undefined behaviour: it sets \<open>lf_uaf\<close>, after which nothing more happens.
  A step is one atomic access to \<^verbatim>\<open>m_head\<close> or one access to a node; a weak exchange may fail
  spuriously. The atomics are sequentially consistent, as written.

  The class is called SPSC, and a comment asks whether it can be used with more producers or
  consumers. With one consumer and any number of producers it refines the atomic stack,
  never touches freed memory and leaks nothing; as soon as two threads pop it can use freed memory.
\<close>

section \<open>The class\<close>

type_synonym addr = nat

record 'v node =
  node_data :: 'v
  node_next :: "addr option"

type_synonym 'v heap = "addr \<Rightarrow> 'v node option"

datatype lf_choice = LfGo | LfSpurious | LfAlloc addr

text \<open>Program points of \<^verbatim>\<open>Push\<close>, with the local \<^verbatim>\<open>newHead\<close>: before the load of the head, before
  the exchange.\<close>

datatype 'v lf_push_pc = LfPushOut | LfPushLoad addr 'v | LfPushCas addr 'v

text \<open>Program points of \<^verbatim>\<open>Pop\<close>, with the local \<^verbatim>\<open>oldHead\<close>: before the test of \<^verbatim>\<open>oldHead\<close> and the read
  of \<^verbatim>\<open>oldHead->next\<close>, before the exchange, before the read of \<^verbatim>\<open>oldHead->data\<close>, before the
  \<^verbatim>\<open>delete\<close>.\<close>

datatype 'v lf_pop_pc =
    LfPopOut | LfPopLoop "addr option" | LfPopCas addr "addr option" | LfPopRead addr | LfPopDelete addr 'v

record 'v lfstack =
  m_head :: "addr option"
  lf_heap :: "'v heap"
  lf_push :: "tid \<Rightarrow> 'v lf_push_pc"
  lf_pop :: "tid \<Rightarrow> 'v lf_pop_pc"
  lf_uaf :: bool

definition lfstack_init :: "'v lfstack" where
  "lfstack_init =
     \<lparr>m_head = None, lf_heap = (\<lambda>_. None), lf_push = (\<lambda>_. LfPushOut), lf_pop = (\<lambda>_. LfPopOut), lf_uaf = False\<rparr>"

text \<open>The weak exchange on \<^verbatim>\<open>m_head\<close>: success, and the new head.\<close>

definition head_cas :: "lf_choice \<Rightarrow> addr option \<Rightarrow> addr option \<Rightarrow> addr option \<Rightarrow> bool \<times> addr option" where
  "head_cas c head expected desired =
     (if head = expected \<and> c \<noteq> LfSpurious then (True, desired) else (False, head))"

fun LockFree_Push :: "(lf_choice, 'v, 'v lfstack) push_op" where
  "LockFree_Push t c v k =
     (if lf_uaf k then None else
      case lf_push k t of
        LfPushOut \<Rightarrow>
          (case c of
             LfAlloc a \<Rightarrow>
               if lf_heap k a = None
               then Some (k\<lparr>lf_heap := (lf_heap k)(a \<mapsto> \<lparr>node_data = v, node_next = None\<rparr>),
                            lf_push := (lf_push k)(t := LfPushLoad a v)\<rparr>, False)
               else None
           | _ \<Rightarrow> None)
      | LfPushLoad newHead _ \<Rightarrow>
          (case lf_heap k newHead of
             None \<Rightarrow> Some (k\<lparr>lf_uaf := True, lf_push := (lf_push k)(t := LfPushLoad newHead v)\<rparr>, False)
           | Some n \<Rightarrow>
               Some (k\<lparr>lf_heap := (lf_heap k)(newHead \<mapsto> n\<lparr>node_next := m_head k\<rparr>),
                       lf_push := (lf_push k)(t := LfPushCas newHead v)\<rparr>, False))
      | LfPushCas newHead _ \<Rightarrow>
          (case lf_heap k newHead of
             None \<Rightarrow> Some (k\<lparr>lf_uaf := True, lf_push := (lf_push k)(t := LfPushCas newHead v)\<rparr>, False)
           | Some n \<Rightarrow>
               (case head_cas c (m_head k) (node_next n) (Some newHead) of
                  (True, head) \<Rightarrow> Some (k\<lparr>m_head := head, lf_push := (lf_push k)(t := LfPushOut)\<rparr>, True)
                | (False, head) \<Rightarrow>
                    Some (k\<lparr>lf_heap := (lf_heap k)(newHead \<mapsto> n\<lparr>node_next := head\<rparr>),
                            lf_push := (lf_push k)(t := LfPushCas newHead v)\<rparr>, False))))"

fun LockFree_Pop :: "tid \<Rightarrow> (lf_choice, 'v, 'v lfstack) pop_op" where
  "LockFree_Pop t c k =
     (if lf_uaf k then None else
      case lf_pop k t of
        LfPopOut \<Rightarrow> Some (k\<lparr>lf_pop := (lf_pop k)(t := LfPopLoop (m_head k))\<rparr>, None)
      | LfPopLoop None \<Rightarrow> Some (k\<lparr>lf_pop := (lf_pop k)(t := LfPopOut)\<rparr>, Some None)
      | LfPopLoop (Some oldHead) \<Rightarrow>
          (case lf_heap k oldHead of
             None \<Rightarrow> Some (k\<lparr>lf_uaf := True\<rparr>, None)
           | Some n \<Rightarrow> Some (k\<lparr>lf_pop := (lf_pop k)(t := LfPopCas oldHead (node_next n))\<rparr>, None))
      | LfPopCas oldHead next \<Rightarrow>
          (case head_cas c (m_head k) (Some oldHead) next of
             (True, head) \<Rightarrow> Some (k\<lparr>m_head := head, lf_pop := (lf_pop k)(t := LfPopRead oldHead)\<rparr>, None)
           | (False, head) \<Rightarrow> Some (k\<lparr>lf_pop := (lf_pop k)(t := LfPopLoop head)\<rparr>, None))
      | LfPopRead oldHead \<Rightarrow>
          (case lf_heap k oldHead of
             None \<Rightarrow> Some (k\<lparr>lf_uaf := True\<rparr>, None)
           | Some n \<Rightarrow> Some (k\<lparr>lf_pop := (lf_pop k)(t := LfPopDelete oldHead (node_data n))\<rparr>, None))
      | LfPopDelete oldHead result \<Rightarrow>
          (case lf_heap k oldHead of
             None \<Rightarrow> Some (k\<lparr>lf_uaf := True\<rparr>, None)
           | Some n \<Rightarrow>
               Some (k\<lparr>lf_heap := (lf_heap k)(oldHead := None), lf_pop := (lf_pop k)(t := LfPopOut)\<rparr>,
                     Some (Some result))))"

text \<open>The destructor's loop; \<open>None\<close> where it would not end, \<open>Inl\<close> for an access to freed memory.\<close>

partial_function (option) lf_delete_all :: "'v heap \<Rightarrow> addr option \<Rightarrow> (addr + 'v heap) option" where
  "lf_delete_all h head =
     (case head of
        None \<Rightarrow> Some (Inr h)
      | Some a \<Rightarrow>
          (case h a of
             None \<Rightarrow> Some (Inl a)
           | Some n \<Rightarrow> lf_delete_all (h(a := None)) (node_next n)))"

definition lf_destroy :: "'v lfstack \<Rightarrow> (addr + 'v heap) option" where
  "lf_destroy k = lf_delete_all (lf_heap k) (m_head k)"

section \<open>Lists in the heap\<close>

fun lf_chain :: "'v heap \<Rightarrow> addr option \<Rightarrow> addr list \<Rightarrow> bool" where
  "lf_chain h p [] = (p = None)"
| "lf_chain h p (a # as) =
     (p = Some a \<and> (case h a of None \<Rightarrow> False | Some n \<Rightarrow> lf_chain h (node_next n) as))"

definition lf_vals :: "'v heap \<Rightarrow> addr list \<Rightarrow> 'v list" where
  "lf_vals h as = map (\<lambda>a. node_data (the (h a))) as"

lemma lf_chain_upd [simp]: "a \<notin> set as \<Longrightarrow> lf_chain (h(a := x)) p as = lf_chain h p as"
  by (induction as arbitrary: p) (auto split: option.splits)

lemma lf_vals_upd [simp]: "a \<notin> set as \<Longrightarrow> lf_vals (h(a := x)) as = lf_vals h as"
  by (auto simp: lf_vals_def)

lemma lf_vals_simps [simp]: "lf_vals h [] = []" "lf_vals h (a # as) = node_data (the (h a)) # lf_vals h as"
  by (simp_all add: lf_vals_def)

lemma lf_chain_alloc: "lf_chain h p as \<Longrightarrow> a \<in> set as \<Longrightarrow> h a \<noteq> None"
  by (induction as arbitrary: p) (auto split: option.splits)

lemma lf_chain_None [simp]: "lf_chain h None as \<longleftrightarrow> as = []"
  by (cases as) auto

lemma lf_chain_Some:
  assumes "lf_chain h (Some a) as"
  obtains bs n where "as = a # bs" "h a = Some n" "lf_chain h (node_next n) bs"
  using assms by (cases as) (auto split: option.splits)

text \<open>The destructor terminates on a list and frees exactly its nodes.\<close>

lemma lf_delete_all_chain:
  assumes "lf_chain h p as" "distinct as"
  shows "lf_delete_all h p = Some (Inr (\<lambda>a. if a \<in> set as then None else h a))"
  using assms
proof (induction as arbitrary: h p)
  case Nil
  then show ?case by (simp add: lf_delete_all.simps)
next
  case (Cons a as)
  then obtain n where n: "p = Some a" "h a = Some n" "lf_chain h (node_next n) as"
    by (auto split: option.splits)
  have c: "lf_chain (h(a := None)) (node_next n) as" using n(3) Cons.prems(2) by simp
  have "distinct as" using Cons.prems(2) by simp
  with c have "lf_delete_all (h(a := None)) (node_next n) =
      Some (Inr (\<lambda>b. if b \<in> set as then None else (h(a := None)) b))"
    by (rule Cons.IH)
  then show ?case using n by (subst lf_delete_all.simps) (auto simp: fun_eq_iff)
qed

section \<open>The invariant, with one consumer\<close>

fun lf_push_arg :: "'v lf_push_pc \<Rightarrow> 'v option" where
  "lf_push_arg LfPushOut = None"
| "lf_push_arg (LfPushLoad a v) = Some v"
| "lf_push_arg (LfPushCas a v) = Some v"

text \<open>The node a \<^verbatim>\<open>Push\<close> has allocated and not yet published, the node a \<^verbatim>\<open>Pop\<close> has taken off the
  list and not yet freed.\<close>

fun lf_private :: "'v lf_push_pc \<Rightarrow> addr option" where
  "lf_private LfPushOut = None"
| "lf_private (LfPushLoad a v) = Some a"
| "lf_private (LfPushCas a v) = Some a"

fun lf_taken :: "'v lf_pop_pc \<Rightarrow> addr option" where
  "lf_taken (LfPopRead a) = Some a"
| "lf_taken (LfPopDelete a v) = Some a"
| "lf_taken p = None"

text \<open>While the consumer has not exchanged the head, the node it looks at is still on the list
  and its \<^verbatim>\<open>next\<close> is what the consumer has read: only the consumer removes nodes, and only the
  owner of an unpublished node writes to it.\<close>

fun lf_pop_ok :: "'v heap \<Rightarrow> addr list \<Rightarrow> 'v lf_pop_pc \<Rightarrow> bool" where
  "lf_pop_ok h as (LfPopLoop (Some a)) = (a \<in> set as)"
| "lf_pop_ok h as (LfPopCas a nxt) = (a \<in> set as \<and> node_next (the (h a)) = nxt)"
| "lf_pop_ok h as (LfPopDelete a v) = (node_data (the (h a)) = v)"
| "lf_pop_ok h as p = True"

fun lf_push_ok :: "'v heap \<Rightarrow> 'v lf_push_pc \<Rightarrow> bool" where
  "lf_push_ok h LfPushOut = True"
| "lf_push_ok h (LfPushLoad a v) = (node_data (the (h a)) = v)"
| "lf_push_ok h (LfPushCas a v) = (node_data (the (h a)) = v)"

text \<open>Who holds an address: the list, one \<^verbatim>\<open>Push\<close>, or the consumer's \<^verbatim>\<open>Pop\<close>; the allocated nodes
  are those that are held, and nobody shares.\<close>

datatype lf_holder = OnList | PushedBy tid | TakenBy tid

definition lf_holds :: "'v lfstack \<Rightarrow> addr list \<Rightarrow> lf_holder \<Rightarrow> addr \<Rightarrow> bool" where
  "lf_holds k as w a =
     (case w of
        OnList \<Rightarrow> a \<in> set as
      | PushedBy t \<Rightarrow> lf_private (lf_push k t) = Some a
      | TakenBy t \<Rightarrow> lf_taken (lf_pop k t) = Some a)"

definition lf_held :: "('w \<Rightarrow> addr \<Rightarrow> bool) \<Rightarrow> 'v heap \<Rightarrow> bool" where
  "lf_held H h \<longleftrightarrow>
     (\<forall>a. h a \<noteq> None \<longleftrightarrow> (\<exists>w. H w a)) \<and> (\<forall>a w w'. H w a \<longrightarrow> H w' a \<longrightarrow> w = w')"

definition lf_inv :: "'v lfstack \<Rightarrow> addr list \<Rightarrow> bool" where
  "lf_inv k as \<longleftrightarrow>
     \<not> lf_uaf k \<and> lf_chain (lf_heap k) (m_head k) as \<and> distinct as \<and>
     lf_held (lf_holds k as) (lf_heap k) \<and>
     (\<forall>t. lf_push_ok (lf_heap k) (lf_push k t)) \<and> lf_pop_ok (lf_heap k) as (lf_pop k 0) \<and> (\<forall>t. t \<noteq> 0 \<longrightarrow> lf_pop k t = LfPopOut)"

lemma lf_holds_simps [simp]:
  "lf_holds k as OnList a \<longleftrightarrow> a \<in> set as"
  "lf_holds k as (PushedBy t) a \<longleftrightarrow> lf_private (lf_push k t) = Some a"
  "lf_holds k as (TakenBy t) a \<longleftrightarrow> lf_taken (lf_pop k t) = Some a"
  by (simp_all add: lf_holds_def)

lemma lf_holds_ext:
  assumes "\<And>a. lf_holds k as OnList a = H OnList a" "\<And>t a. lf_holds k as (PushedBy t) a = H (PushedBy t) a"
    and "\<And>t a. lf_holds k as (TakenBy t) a = H (TakenBy t) a"
  shows "lf_holds k as = H"
proof (intro ext)
  show "lf_holds k as w a = H w a" for w a using assms by (cases w) auto
qed

lemma lf_held_alloc: "lf_held H h \<Longrightarrow> H w a \<Longrightarrow> h a \<noteq> None"
  by (auto simp: lf_held_def)

lemma lf_held_unique: "lf_held H h \<Longrightarrow> H w a \<Longrightarrow> H w' a \<Longrightarrow> w = w'"
  by (auto simp: lf_held_def)

lemma lf_held_add:
  assumes "lf_held H h" "h a = None"
  shows "lf_held (\<lambda>w b. H w b \<or> w = u \<and> b = a) (h(a \<mapsto> n))"
proof -
  have "\<not> H w a" for w using assms lf_held_alloc by metis
  then show ?thesis using assms unfolding lf_held_def by auto
qed

lemma lf_held_remove: "lf_held H h \<Longrightarrow> H u a \<Longrightarrow> lf_held (\<lambda>w b. H w b \<and> b \<noteq> a) (h(a := None))"
  unfolding lf_held_def by auto

lemma lf_held_move: "lf_held H h \<Longrightarrow> H u a \<Longrightarrow> lf_held (\<lambda>w b. if b = a then w = u' else H w b) h"
  unfolding lf_held_def by auto

lemma lf_held_upd: "lf_held H h \<Longrightarrow> H u a \<Longrightarrow> lf_held H (h(a \<mapsto> n))"
  unfolding lf_held_def by auto

lemma lf_pop_ok_upd:
  "lf_pop_ok h as p \<Longrightarrow> a \<notin> set as \<Longrightarrow> lf_taken p \<noteq> Some a \<Longrightarrow> lf_pop_ok (h(a := x)) as p"
  by (cases "(h, as, p)" rule: lf_pop_ok.cases) auto

lemma lf_push_ok_upd [simp]: "lf_private p \<noteq> Some a \<Longrightarrow> lf_push_ok (h(a := x)) p = lf_push_ok h p"
  by (cases p) auto

section \<open>Steps of Push\<close>

lemma lf_free:
  assumes "lf_inv k as" "lf_heap k a = None"
  shows "a \<notin> set as" "lf_private (lf_push k u) \<noteq> Some a" "lf_taken (lf_pop k u) \<noteq> Some a"
proof -
  have "\<not> lf_holds k as w a" for w using assms lf_held_alloc unfolding lf_inv_def by metis
  from this [of OnList] this [of "PushedBy u"] this [of "TakenBy u"]
  show "a \<notin> set as" "lf_private (lf_push k u) \<noteq> Some a" "lf_taken (lf_pop k u) \<noteq> Some a" by simp_all
qed

lemma lf_pushing:
  assumes "lf_inv k as" "lf_private (lf_push k t) = Some a"
  shows "a \<notin> set as" "u \<noteq> t \<Longrightarrow> lf_private (lf_push k u) \<noteq> Some a" "lf_taken (lf_pop k u) \<noteq> Some a"
    and "lf_heap k a \<noteq> None"
proof -
  have held: "lf_held (lf_holds k as) (lf_heap k)" using assms(1) by (simp add: lf_inv_def)
  have t: "lf_holds k as (PushedBy t) a" using assms(2) by simp
  have "w = PushedBy t" if "lf_holds k as w a" for w using held that t by (rule lf_held_unique)
  from this [of OnList] this [of "PushedBy u"] this [of "TakenBy u"]
  show "a \<notin> set as" "u \<noteq> t \<Longrightarrow> lf_private (lf_push k u) \<noteq> Some a" "lf_taken (lf_pop k u) \<noteq> Some a" by auto
  show "lf_heap k a \<noteq> None" using held t by (rule lf_held_alloc)
qed

lemma lf_inv_alloc:
  assumes inv: "lf_inv k as" and pc: "lf_push k t = LfPushOut" and a: "lf_heap k a = None"
  shows "lf_inv (k\<lparr>lf_heap := (lf_heap k)(a \<mapsto> \<lparr>node_data = v, node_next = None\<rparr>),
                   lf_push := (lf_push k)(t := LfPushLoad a v)\<rparr>) as" (is "lf_inv ?k as")
proof -
  note na = lf_free [OF inv a]
  have held: "lf_held (lf_holds k as) (lf_heap k)" using inv by (simp add: lf_inv_def)
  have "lf_holds ?k as = (\<lambda>w b. lf_holds k as w b \<or> w = PushedBy t \<and> b = a)"
    by (rule lf_holds_ext) (auto simp: pc)
  then have "lf_held (lf_holds ?k as) (lf_heap ?k)" using lf_held_add [OF held a, of "PushedBy t"] by simp
  moreover have "lf_push_ok (lf_heap ?k) (lf_push ?k u)" for u
    using inv na(2) [of u] by (cases "u = t") (simp_all add: lf_inv_def)
  moreover have "lf_pop_ok (lf_heap ?k) as (lf_pop k 0)"
    using inv na(1) na(3) [of 0] lf_pop_ok_upd [of "lf_heap k"] by (simp add: lf_inv_def)
  ultimately show ?thesis using inv na(1) by (simp add: lf_inv_def)
qed

text \<open>Writing \<^verbatim>\<open>newHead->next\<close>, by the load or by a failed exchange.\<close>

lemma lf_inv_link:
  assumes inv: "lf_inv k as" and pc: "lf_private (lf_push k t) = Some a" "lf_push_arg (lf_push k t) = Some v"
    and n: "lf_heap k a = Some n"
  shows "lf_inv (k\<lparr>lf_heap := (lf_heap k)(a \<mapsto> n\<lparr>node_next := p\<rparr>),
                   lf_push := (lf_push k)(t := LfPushCas a v)\<rparr>) as" (is "lf_inv ?k as")
proof -
  note na = lf_pushing [OF inv pc(1)]
  have held: "lf_held (lf_holds k as) (lf_heap k)" using inv by (simp add: lf_inv_def)
  have t: "lf_holds k as (PushedBy t) a" by (simp add: pc)
  have "lf_holds ?k as = lf_holds k as" by (rule lf_holds_ext) (auto simp: pc)
  then have "lf_held (lf_holds ?k as) (lf_heap ?k)" using lf_held_upd [OF held t] by simp
  moreover have "lf_push_ok (lf_heap ?k) (lf_push ?k u)" for u
  proof (cases "u = t")
    case True
    have "lf_push_ok (lf_heap k) (lf_push k t)" using inv by (simp add: lf_inv_def)
    then show ?thesis using True pc n by (cases "lf_push k t") auto
  next
    case False
    then show ?thesis using inv na(2) [of u] by (simp add: lf_inv_def)
  qed
  moreover have "lf_pop_ok (lf_heap ?k) as (lf_pop k 0)"
    using inv na(1) na(3) [of 0] lf_pop_ok_upd [of "lf_heap k"] by (simp add: lf_inv_def)
  ultimately show ?thesis using inv na(1) by (simp add: lf_inv_def)
qed

lemma lf_pop_ok_mono: "lf_pop_ok h as p \<Longrightarrow> lf_pop_ok h (a # as) p"
  by (cases "(h, as, p)" rule: lf_pop_ok.cases) auto

text \<open>The successful exchange publishes the node.\<close>

lemma lf_inv_publish:
  assumes inv: "lf_inv k as" and pc: "lf_private (lf_push k t) = Some a"
    and n: "lf_heap k a = Some n" "node_next n = m_head k"
  shows "lf_inv (k\<lparr>m_head := Some a, lf_push := (lf_push k)(t := LfPushOut)\<rparr>) (a # as)" (is "lf_inv ?k ?as")
proof -
  note na = lf_pushing [OF inv pc]
  have held: "lf_held (lf_holds k as) (lf_heap k)" using inv by (simp add: lf_inv_def)
  have t: "lf_holds k as (PushedBy t) a" by (simp add: pc)
  have "lf_holds ?k ?as = (\<lambda>w b. if b = a then w = OnList else lf_holds k as w b)"
    using na(2,3) by (intro lf_holds_ext) (auto simp: pc)
  then have "lf_held (lf_holds ?k ?as) (lf_heap ?k)" using lf_held_move [OF held t, of OnList] by simp
  then show ?thesis using inv na(1) n by (simp add: lf_inv_def lf_pop_ok_mono)
qed

section \<open>Steps of Pop\<close>

lemma lf_taking:
  assumes "lf_inv k as" "lf_taken (lf_pop k t) = Some a"
  shows "a \<notin> set as" "lf_private (lf_push k u) \<noteq> Some a" "lf_heap k a \<noteq> None"
proof -
  have held: "lf_held (lf_holds k as) (lf_heap k)" using assms(1) by (simp add: lf_inv_def)
  have t: "lf_holds k as (TakenBy t) a" using assms(2) by simp
  have "w = TakenBy t" if "lf_holds k as w a" for w using held that t by (rule lf_held_unique)
  from this [of OnList] this [of "PushedBy u"]
  show "a \<notin> set as" "lf_private (lf_push k u) \<noteq> Some a" by auto
  show "lf_heap k a \<noteq> None" using held t by (rule lf_held_alloc)
qed

lemma lf_listed:
  assumes "lf_inv k as" "a \<in> set as"
  shows "lf_heap k a \<noteq> None" "lf_private (lf_push k u) \<noteq> Some a" "lf_taken (lf_pop k u) \<noteq> Some a"
proof -
  have held: "lf_held (lf_holds k as) (lf_heap k)" using assms(1) by (simp add: lf_inv_def)
  have t: "lf_holds k as OnList a" using assms(2) by simp
  have "w = OnList" if "lf_holds k as w a" for w using held that t by (rule lf_held_unique)
  from this [of "PushedBy u"] this [of "TakenBy u"]
  show "lf_private (lf_push k u) \<noteq> Some a" "lf_taken (lf_pop k u) \<noteq> Some a" by auto
  show "lf_heap k a \<noteq> None" using held t by (rule lf_held_alloc)
qed

text \<open>Moves that keep the nodes where they are.\<close>

lemma lf_inv_pop_move:
  assumes inv: "lf_inv k as" and "lf_taken p = lf_taken (lf_pop k 0)" and "lf_pop_ok (lf_heap k) as p"
  shows "lf_inv (k\<lparr>lf_pop := (lf_pop k)(0 := p)\<rparr>) as" (is "lf_inv ?k as")
proof -
  have "lf_holds ?k as = lf_holds k as" using assms(2) by (intro lf_holds_ext) auto
  then show ?thesis using inv assms(3) by (simp add: lf_inv_def)
qed

lemma lf_head_listed: "lf_inv k as \<Longrightarrow> lf_pop_ok (lf_heap k) as (LfPopLoop (m_head k))"
  by (cases "m_head k") (auto simp: lf_inv_def elim: lf_chain_Some)

text \<open>The successful exchange unlinks the first node.\<close>

lemma lf_inv_unlink:
  assumes inv: "lf_inv k as" and pc: "lf_pop k 0 = LfPopCas a nxt" and head: "m_head k = Some a"
  obtains bs where "as = a # bs" "lf_inv (k\<lparr>m_head := nxt, lf_pop := (lf_pop k)(0 := LfPopRead a)\<rparr>) bs"
proof -
  have "lf_chain (lf_heap k) (Some a) as" using inv head by (simp add: lf_inv_def)
  then obtain bs n where bs: "as = a # bs" "lf_heap k a = Some n" "lf_chain (lf_heap k) (node_next n) bs"
    by (rule lf_chain_Some)
  have nxt: "nxt = node_next n" using inv pc bs(2) by (auto simp: lf_inv_def)
  let ?k = "k\<lparr>m_head := nxt, lf_pop := (lf_pop k)(0 := LfPopRead a)\<rparr>"
  have "a \<in> set as" using bs(1) by simp
  note na = lf_listed [OF inv this]
  have dist: "a \<notin> set bs" "distinct bs" using inv bs(1) by (simp_all add: lf_inv_def)
  have held: "lf_held (lf_holds k as) (lf_heap k)" using inv by (simp add: lf_inv_def)
  have "lf_holds ?k bs = (\<lambda>w b. if b = a then w = TakenBy 0 else lf_holds k as w b)"
    using na dist by (intro lf_holds_ext) (auto simp: pc bs(1))
  then have "lf_held (lf_holds ?k bs) (lf_heap ?k)"
    using lf_held_move [OF held, of OnList a "TakenBy 0"] bs(1) by simp
  then have "lf_inv ?k bs" using inv bs dist nxt by (simp add: lf_inv_def)
  with bs(1) show ?thesis by (rule that)
qed

lemma lf_inv_delete:
  assumes inv: "lf_inv k as" and pc: "lf_pop k 0 = LfPopDelete a v"
  shows "lf_inv (k\<lparr>lf_heap := (lf_heap k)(a := None), lf_pop := (lf_pop k)(0 := LfPopOut)\<rparr>) as" (is "lf_inv ?k as")
proof -
  have taken: "lf_taken (lf_pop k 0) = Some a" by (simp add: pc)
  note na = lf_taking [OF inv taken]
  have held: "lf_held (lf_holds k as) (lf_heap k)" using inv by (simp add: lf_inv_def)
  have idle: "lf_taken (lf_pop k u) = None" if "u \<noteq> 0" for u using inv that by (simp add: lf_inv_def)
  have "lf_holds ?k as = (\<lambda>w b. lf_holds k as w b \<and> b \<noteq> a)"
    using na idle by (intro lf_holds_ext) (auto simp: pc)
  then have "lf_held (lf_holds ?k as) (lf_heap ?k)"
    using lf_held_remove [OF held, of "TakenBy 0" a] taken by simp
  then show ?thesis using inv na(1,2) by (simp add: lf_inv_def)
qed

section \<open>Refinement\<close>

definition lf_pend :: "'v lfstack \<Rightarrow> tid \<Rightarrow> 'v option" where
  "lf_pend k t = lf_push_arg (lf_push k t)"

text \<open>What the consumer's \<^verbatim>\<open>Pop\<close> has already decided to return: it takes effect at the exchange,
  or where it reads a null head.\<close>

fun lf_result :: "'v heap \<Rightarrow> 'v lf_pop_pc \<Rightarrow> 'v option option" where
  "lf_result h (LfPopLoop None) = Some None"
| "lf_result h (LfPopRead a) = Some (Some (node_data (the (h a))))"
| "lf_result h (LfPopDelete a v) = Some (Some v)"
| "lf_result h p = None"

definition lf_sim :: "'v lfstack \<Rightarrow> 'v stack_spec \<Rightarrow> bool" where
  "lf_sim k a \<longleftrightarrow>
     (\<exists>as. lf_inv k as \<and> sp_stack a = lf_vals (lf_heap k) as) \<and>
     (\<forall>t. \<not> sp_pushed a t) \<and> sp_popped a = lf_result (lf_heap k) (lf_pop k 0)"

lemma lf_result_upd: "lf_taken p \<noteq> Some a \<Longrightarrow> lf_result (h(a := x)) p = lf_result h p"
  by (cases "(h, p)" rule: lf_result.cases) auto

text \<open>\<^verbatim>\<open>Push\<close> takes effect at its successful exchange, which is also its last step; every other
  step leaves the abstract stack as it is.\<close>

lemma push_spec_stay: "\<not> ret \<Longrightarrow> push_spec t v a ret a"
  by (simp add: push_spec_def)

lemma push_spec_return:
  assumes "\<not> sp_pushed a t"
  shows "push_spec t v a True (a\<lparr>sp_stack := v # sp_stack a\<rparr>)"
proof -
  have "(sp_pushed a)(t := False) = sp_pushed a" using assms by (simp add: fun_upd_idem)
  then show ?thesis unfolding push_spec_def
    by (intro exI [of _ "push_effect t v a"]) (simp add: push_effect_def assms)
qed

lemma lf_simE:
  assumes "lf_sim k a"
  obtains as where "lf_inv k as" "sp_stack a = lf_vals (lf_heap k) as" "\<And>t. \<not> sp_pushed a t"
    "sp_popped a = lf_result (lf_heap k) (lf_pop k 0)"
  using assms by (auto simp: lf_sim_def)

text \<open>Writing to a node that is neither on the list nor taken by the consumer.\<close>

lemma lf_sim_write:
  assumes "lf_inv k' as" "b \<notin> set as" "lf_taken (lf_pop k 0) \<noteq> Some b"
    and "lf_heap k' = (lf_heap k)(b := x)" "lf_pop k' = lf_pop k"
    and "sp_stack a = lf_vals (lf_heap k) as" "\<And>t. \<not> sp_pushed a t" "sp_popped a = lf_result (lf_heap k) (lf_pop k 0)"
  shows "lf_sim k' a"
  using assms by (auto simp: lf_sim_def lf_result_upd)

lemma lf_sim_alloc:
  assumes sim: "lf_sim k a" and pc: "lf_push k t = LfPushOut" and b: "lf_heap k b = None"
  shows "lf_sim (k\<lparr>lf_heap := (lf_heap k)(b \<mapsto> \<lparr>node_data = v, node_next = None\<rparr>),
                   lf_push := (lf_push k)(t := LfPushLoad b v)\<rparr>) a"
proof -
  obtain as where as: "lf_inv k as" "sp_stack a = lf_vals (lf_heap k) as" "\<And>t. \<not> sp_pushed a t"
    "sp_popped a = lf_result (lf_heap k) (lf_pop k 0)" using sim by (rule lf_simE) blast
  show ?thesis
    by (rule lf_sim_write [OF lf_inv_alloc [OF as(1) pc b] lf_free(1,3) [OF as(1) b] _ _ as(2-4)]) simp_all
qed

lemma lf_sim_link:
  assumes sim: "lf_sim k a" and pc: "lf_private (lf_push k t) = Some b" "lf_push_arg (lf_push k t) = Some v"
    and n: "lf_heap k b = Some n"
  shows "lf_sim (k\<lparr>lf_heap := (lf_heap k)(b \<mapsto> n\<lparr>node_next := p\<rparr>),
                   lf_push := (lf_push k)(t := LfPushCas b v)\<rparr>) a"
proof -
  obtain as where as: "lf_inv k as" "sp_stack a = lf_vals (lf_heap k) as" "\<And>t. \<not> sp_pushed a t"
    "sp_popped a = lf_result (lf_heap k) (lf_pop k 0)" using sim by (rule lf_simE) blast
  show ?thesis
    by (rule lf_sim_write [OF lf_inv_link [OF as(1) pc n] lf_pushing(1,3) [OF as(1) pc(1)] _ _ as(2-4)]) simp_all
qed

lemma lf_sim_publish:
  assumes sim: "lf_sim k a" and pc: "lf_push k t = LfPushCas b v"
    and n: "lf_heap k b = Some n" "node_next n = m_head k"
  shows "lf_sim (k\<lparr>m_head := Some b, lf_push := (lf_push k)(t := LfPushOut)\<rparr>) (a\<lparr>sp_stack := v # sp_stack a\<rparr>)"
proof -
  obtain as where as: "lf_inv k as" "sp_stack a = lf_vals (lf_heap k) as" "\<And>t. \<not> sp_pushed a t"
    "sp_popped a = lf_result (lf_heap k) (lf_pop k 0)" using sim by (rule lf_simE) blast
  have "lf_push_ok (lf_heap k) (lf_push k t)" using as(1) by (simp add: lf_inv_def)
  then have "lf_vals (lf_heap k) (b # as) = v # sp_stack a" using pc n(1) as(2) by simp
  moreover have "lf_inv (k\<lparr>m_head := Some b, lf_push := (lf_push k)(t := LfPushOut)\<rparr>) (b # as)"
    using as(1) _ n by (rule lf_inv_publish) (simp add: pc)
  ultimately show ?thesis using as(3,4) by (auto simp: lf_sim_def intro!: exI [of _ "b # as"])
qed

lemma lf_sim_private:
  assumes "lf_sim k a" "lf_private (lf_push k t) = Some b"
  shows "\<exists>n. lf_heap k b = Some n"
proof -
  obtain as where "lf_inv k as" using assms(1) by (rule lf_simE) blast
  then show ?thesis using lf_pushing(4) assms(2) by blast
qed

lemma lf_sim_ok: "lf_sim k a \<Longrightarrow> \<not> lf_uaf k"
  by (auto simp: lf_sim_def lf_inv_def)

lemma lf_push_stay: "\<not> ret \<Longrightarrow> lf_sim k' a \<Longrightarrow> \<exists>a'. push_spec t v a ret a' \<and> lf_sim k' a'"
  by (intro exI [of _ a] conjI push_spec_stay)

lemma lf_push_sim:
  assumes sim: "lf_sim k a" and pend: "lf_pend k t \<in> {None, Some v}"
    and st: "LockFree_Push t c v k = Some (k', ret)"
  shows "\<exists>a'. push_spec t v a ret a' \<and> lf_sim k' a'"
proof (cases "lf_push k t")
  case LfPushOut
  then obtain b where b: "lf_heap k b = None" and "\<not> ret"
    and "k' = k\<lparr>lf_heap := (lf_heap k)(b \<mapsto> \<lparr>node_data = v, node_next = None\<rparr>),
                lf_push := (lf_push k)(t := LfPushLoad b v)\<rparr>"
    using st lf_sim_ok [OF sim] by (auto split: lf_choice.splits if_splits)
  then show ?thesis using lf_sim_alloc [OF sim LfPushOut b] by (simp add: lf_push_stay)
next
  case (LfPushLoad b w)
  then have p: "lf_private (lf_push k t) = Some b" "lf_push_arg (lf_push k t) = Some v"
    using pend by (simp_all add: lf_pend_def)
  obtain n where n: "lf_heap k b = Some n" using lf_sim_private [OF sim p(1)] by blast
  have "\<not> ret" "k' = k\<lparr>lf_heap := (lf_heap k)(b \<mapsto> n\<lparr>node_next := m_head k\<rparr>),
                lf_push := (lf_push k)(t := LfPushCas b v)\<rparr>"
    using st lf_sim_ok [OF sim] LfPushLoad n by auto
  then show ?thesis using lf_sim_link [OF sim p n] by (simp add: lf_push_stay)
next
  case (LfPushCas b w)
  then have p: "lf_private (lf_push k t) = Some b" "lf_push_arg (lf_push k t) = Some v" and "w = v"
    using pend by (simp_all add: lf_pend_def)
  obtain n where n: "lf_heap k b = Some n" using lf_sim_private [OF sim p(1)] by blast
  show ?thesis
  proof (cases "m_head k = node_next n \<and> c \<noteq> LfSpurious")
    case True
    then have "ret" "k' = k\<lparr>m_head := Some b, lf_push := (lf_push k)(t := LfPushOut)\<rparr>"
      using st lf_sim_ok [OF sim] LfPushCas n by (simp_all add: head_cas_def)
    moreover have "\<not> sp_pushed a t" using sim by (simp add: lf_sim_def)
    ultimately show ?thesis
      using lf_sim_publish [OF sim LfPushCas n] True push_spec_return [of a t v] \<open>w = v\<close> by auto
  next
    case False
    then have "\<not> ret" "k' = k\<lparr>lf_heap := (lf_heap k)(b \<mapsto> n\<lparr>node_next := m_head k\<rparr>),
                lf_push := (lf_push k)(t := LfPushCas b v)\<rparr>"
      using st lf_sim_ok [OF sim] LfPushCas n by (auto simp: head_cas_def)
    then show ?thesis using lf_sim_link [OF sim p n] by (simp add: lf_push_stay)
  qed
qed

lemma pop_spec_stay: "pop_spec a None a"
  by (simp add: pop_spec_def)

lemma pop_spec_take: "sp_popped a = None \<Longrightarrow> pop_spec a None (pop_effect a)"
  by (auto simp: pop_spec_def)

lemma pop_spec_return: "sp_popped a = Some r \<Longrightarrow> pop_spec a (Some r) (a\<lparr>sp_popped := None\<rparr>)"
  by (auto simp: pop_spec_def)

text \<open>The consumer reads the head, by the load or by a failed exchange.\<close>

lemma lf_sim_look:
  assumes sim: "lf_sim k a" and pc: "lf_taken (lf_pop k 0) = None" "lf_result (lf_heap k) (lf_pop k 0) = None"
  shows "\<exists>a'. pop_spec a None a' \<and> lf_sim (k\<lparr>lf_pop := (lf_pop k)(0 := LfPopLoop (m_head k))\<rparr>) a'"
proof -
  let ?k = "k\<lparr>lf_pop := (lf_pop k)(0 := LfPopLoop (m_head k))\<rparr>"
  obtain as where as: "lf_inv k as" "sp_stack a = lf_vals (lf_heap k) as" "\<And>t. \<not> sp_pushed a t"
    "sp_popped a = lf_result (lf_heap k) (lf_pop k 0)" using sim by (rule lf_simE) blast
  have inv: "lf_inv ?k as" using as(1) _ lf_head_listed [OF as(1)] by (rule lf_inv_pop_move) (simp add: pc)
  show ?thesis
  proof (cases "m_head k")
    case None
    then have "as = []" using as(1) by (simp add: lf_inv_def)
    then have "lf_sim ?k (pop_effect a)"
      using inv as(2,3) None by (auto simp: lf_sim_def pop_effect_def)
    then show ?thesis using pop_spec_take [of a] as(4) pc(2) by auto
  next
    case (Some b)
    then have "lf_sim ?k a" using inv as pc(2) by (auto simp: lf_sim_def)
    then show ?thesis by (intro exI [of _ a] conjI pop_spec_stay)
  qed
qed

text \<open>The exchange succeeds: \<^verbatim>\<open>Pop\<close> takes the top of the stack.\<close>

lemma lf_sim_unlink:
  assumes sim: "lf_sim k a" and pc: "lf_pop k 0 = LfPopCas b nxt" and head: "m_head k = Some b"
  shows "lf_sim (k\<lparr>m_head := nxt, lf_pop := (lf_pop k)(0 := LfPopRead b)\<rparr>) (pop_effect a)"
proof -
  obtain as where as: "lf_inv k as" "sp_stack a = lf_vals (lf_heap k) as" "\<And>t. \<not> sp_pushed a t"
    using sim by (rule lf_simE) blast
  obtain bs where "as = b # bs" "lf_inv (k\<lparr>m_head := nxt, lf_pop := (lf_pop k)(0 := LfPopRead b)\<rparr>) bs"
    using as(1) pc head by (rule lf_inv_unlink)
  then show ?thesis using as(2,3) by (auto simp: lf_sim_def pop_effect_def)
qed

text \<open>Steps of the consumer that keep the nodes and the result.\<close>

lemma lf_sim_move:
  assumes sim: "lf_sim k a" and "lf_taken p = lf_taken (lf_pop k 0)"
    and "lf_result (lf_heap k) p = lf_result (lf_heap k) (lf_pop k 0)"
    and ok: "\<And>as. lf_inv k as \<Longrightarrow> lf_pop_ok (lf_heap k) as p"
  shows "lf_sim (k\<lparr>lf_pop := (lf_pop k)(0 := p)\<rparr>) a"
proof -
  obtain as where as: "lf_inv k as" "sp_stack a = lf_vals (lf_heap k) as" "\<And>t. \<not> sp_pushed a t"
    "sp_popped a = lf_result (lf_heap k) (lf_pop k 0)" using sim by (rule lf_simE) blast
  have "lf_inv (k\<lparr>lf_pop := (lf_pop k)(0 := p)\<rparr>) as"
    using as(1) assms(2) ok [OF as(1)] by (rule lf_inv_pop_move)
  then show ?thesis using as assms(3) by (auto simp: lf_sim_def)
qed

lemma lf_sim_delete:
  assumes sim: "lf_sim k a" and pc: "lf_pop k 0 = LfPopDelete b v"
  shows "lf_sim (k\<lparr>lf_heap := (lf_heap k)(b := None), lf_pop := (lf_pop k)(0 := LfPopOut)\<rparr>) (a\<lparr>sp_popped := None\<rparr>)"
proof -
  obtain as where as: "lf_inv k as" "sp_stack a = lf_vals (lf_heap k) as" "\<And>t. \<not> sp_pushed a t"
    using sim by (rule lf_simE) blast
  have "b \<notin> set as" using lf_taking(1) [OF as(1), of 0] pc by simp
  then show ?thesis using lf_inv_delete [OF as(1) pc] as(2,3) by (auto simp: lf_sim_def)
qed

text \<open>Every node the consumer looks at is allocated.\<close>

lemma lf_sim_node:
  assumes "lf_sim k a" and "lf_pop k 0 \<in> {LfPopLoop (Some b), LfPopCas b nxt, LfPopRead b, LfPopDelete b v}"
  shows "\<exists>n. lf_heap k b = Some n"
proof -
  obtain as where as: "lf_inv k as" using assms(1) by (rule lf_simE) blast
  then have "b \<in> set as \<or> lf_taken (lf_pop k 0) = Some b" using assms(2) by (auto simp: lf_inv_def)
  then show ?thesis using lf_listed(1) [OF as] lf_taking(3) [OF as] by blast
qed

lemma lf_sim_empty:
  assumes sim: "lf_sim k a" and pc: "lf_pop k 0 = LfPopLoop None"
  shows "sp_popped a = Some None \<and> lf_sim (k\<lparr>lf_pop := (lf_pop k)(0 := LfPopOut)\<rparr>) (a\<lparr>sp_popped := None\<rparr>)"
proof -
  obtain as where as: "lf_inv k as" "sp_stack a = lf_vals (lf_heap k) as" "\<And>t. \<not> sp_pushed a t"
    "sp_popped a = lf_result (lf_heap k) (lf_pop k 0)" using sim by (rule lf_simE) blast
  have "lf_inv (k\<lparr>lf_pop := (lf_pop k)(0 := LfPopOut)\<rparr>) as"
    using as(1) by (rule lf_inv_pop_move) (simp_all add: pc)
  then show ?thesis using as pc by (auto simp: lf_sim_def)
qed

lemma lf_pop_sim:
  assumes sim: "lf_sim k a" and st: "LockFree_Pop 0 c k = Some (k', r)"
  shows "\<exists>a'. pop_spec a r a' \<and> lf_sim k' a'"
proof (cases "lf_pop k 0")
  case LfPopOut
  then have "r = None" "k' = k\<lparr>lf_pop := (lf_pop k)(0 := LfPopLoop (m_head k))\<rparr>"
    using st lf_sim_ok [OF sim] by auto
  then show ?thesis using lf_sim_look [OF sim] LfPopOut by simp
next
  case (LfPopLoop p)
  show ?thesis
  proof (cases p)
    case None
    then have "r = Some None" "k' = k\<lparr>lf_pop := (lf_pop k)(0 := LfPopOut)\<rparr>"
      using st lf_sim_ok [OF sim] LfPopLoop by auto
    then show ?thesis using lf_sim_empty [OF sim] LfPopLoop None pop_spec_return [of a] by auto
  next
    case (Some b)
    obtain n where n: "lf_heap k b = Some n" using lf_sim_node [OF sim] LfPopLoop Some by blast
    then have "r = None" "k' = k\<lparr>lf_pop := (lf_pop k)(0 := LfPopCas b (node_next n))\<rparr>"
      using st lf_sim_ok [OF sim] LfPopLoop Some by auto
    moreover have "lf_sim (k\<lparr>lf_pop := (lf_pop k)(0 := LfPopCas b (node_next n))\<rparr>) a"
      using sim by (rule lf_sim_move) (auto simp: LfPopLoop Some n lf_inv_def)
    ultimately show ?thesis using pop_spec_stay by auto
  qed
next
  case (LfPopCas b nxt)
  show ?thesis
  proof (cases "m_head k = Some b \<and> c \<noteq> LfSpurious")
    case True
    then have "r = None" "k' = k\<lparr>m_head := nxt, lf_pop := (lf_pop k)(0 := LfPopRead b)\<rparr>"
      using st lf_sim_ok [OF sim] LfPopCas by (auto simp: head_cas_def)
    moreover have "sp_popped a = None" using sim LfPopCas by (simp add: lf_sim_def)
    ultimately show ?thesis using lf_sim_unlink [OF sim LfPopCas] True pop_spec_take [of a] by auto
  next
    case False
    then have "r = None" "k' = k\<lparr>lf_pop := (lf_pop k)(0 := LfPopLoop (m_head k))\<rparr>"
      using st lf_sim_ok [OF sim] LfPopCas by (auto simp: head_cas_def)
    then show ?thesis using lf_sim_look [OF sim] LfPopCas by simp
  qed
next
  case (LfPopRead b)
  obtain n where n: "lf_heap k b = Some n" using lf_sim_node [OF sim] LfPopRead by blast
  then have "r = None" "k' = k\<lparr>lf_pop := (lf_pop k)(0 := LfPopDelete b (node_data n))\<rparr>"
    using st lf_sim_ok [OF sim] LfPopRead by auto
  moreover have "lf_sim (k\<lparr>lf_pop := (lf_pop k)(0 := LfPopDelete b (node_data n))\<rparr>) a"
    using sim by (rule lf_sim_move) (auto simp: LfPopRead n)
  ultimately show ?thesis using pop_spec_stay by auto
next
  case (LfPopDelete b v)
  obtain n where n: "lf_heap k b = Some n" using lf_sim_node [OF sim] LfPopDelete by blast
  then have "r = Some (Some v)" "k' = k\<lparr>lf_heap := (lf_heap k)(b := None), lf_pop := (lf_pop k)(0 := LfPopOut)\<rparr>"
    using st lf_sim_ok [OF sim] LfPopDelete by auto
  moreover have "sp_popped a = Some (Some v)" using sim LfPopDelete by (simp add: lf_sim_def)
  ultimately show ?thesis using lf_sim_delete [OF sim LfPopDelete] pop_spec_return [of a] by auto
qed

text \<open>With thread 0 as the only consumer.\<close>

interpretation lfg: spsc_stack "lfstack_init :: 'v lfstack" LockFree_Push "LockFree_Pop 0" lf_pend lf_sim
proof unfold_locales
  show "lf_sim lfstack_init stack_spec_init"
    by (auto simp: lf_sim_def lf_inv_def lf_held_def lf_holds_def lfstack_init_def stack_spec_init_def
        intro!: exI [of _ "[]"] split: lf_holder.splits)
  show "lf_pend lfstack_init t = None" for t by (simp add: lf_pend_def lfstack_init_def)
  show "lf_pend k' = (lf_pend k)(t := if ret then None else Some v)"
    if "LockFree_Push t c v k = Some (k', ret)" for t c v and k k' :: "'v lfstack" and ret
    using that by (auto simp: lf_pend_def fun_eq_iff
        split: lf_push_pc.splits lf_choice.splits option.splits prod.splits bool.splits if_splits)
  show "lf_pend k' = lf_pend k" if "LockFree_Pop 0 c k = Some (k', r)" for c r and k k' :: "'v lfstack"
    using that by (auto simp: lf_pend_def fun_eq_iff
        split: lf_pop_pc.splits option.splits prod.splits bool.splits if_splits)
qed (rule lf_push_sim lf_pop_sim; assumption)+

interpretation lf: int_stack "lfstack_init :: int lfstack" LockFree_Push "LockFree_Pop 0" lf_pend lf_sim
  by unfold_locales

section \<open>Memory\<close>

text \<open>When no call is in progress, the destructor frees every node.\<close>

lemma lf_destroy_all:
  assumes "lf_sim k a" "\<And>t. lf_push k t = LfPushOut" "lf_pop k 0 = LfPopOut"
  shows "lf_destroy k = Some (Inr (\<lambda>_. None))"
proof -
  obtain as where inv: "lf_inv k as" using assms(1) by (rule lf_simE) blast
  have idle: "lf_pop k t = LfPopOut" for t using inv assms(3) by (cases "t = 0") (auto simp: lf_inv_def)
  have held: "lf_held (lf_holds k as) (lf_heap k)" using inv by (simp add: lf_inv_def)
  have "lf_heap k b = None" if "b \<notin> set as" for b
  proof (rule ccontr)
    assume "lf_heap k b \<noteq> None"
    then obtain w where "lf_holds k as w b" using held by (auto simp: lf_held_def)
    then show False using that assms(2) idle by (cases w) auto
  qed
  then have "(\<lambda>b. if b \<in> set as then None else lf_heap k b) = (\<lambda>_. None)" by auto
  then show ?thesis using lf_delete_all_chain [of "lf_heap k" "m_head k" as] inv
    by (simp add: lf_destroy_def lf_inv_def)
qed

section \<open>Any number of consumers\<close>

text \<open>Any threads push, and the threads of the set \<open>C\<close> pop. A thread keeps the argument of its \<^verbatim>\<open>Push\<close> to the
  end of the call.\<close>

datatype 'v lf_label = LfDoPush tid lf_choice 'v | LfDoPop tid lf_choice

fun lf_step :: "tid set \<Rightarrow> ('v lf_label, 'v lfstack) machine" where
  "lf_step C (LfDoPush t c v) k =
     (if lf_pend k t \<in> {None, Some v} then map_option fst (LockFree_Push t c v k) else None)"
| "lf_step C (LfDoPop t c) k = (if t \<in> C then map_option fst (LockFree_Pop t c k) else None)"

text \<open>The name of the only consumer does not matter.\<close>

definition lf_rename :: "tid \<Rightarrow> 'v lfstack \<Rightarrow> 'v lfstack" where
  "lf_rename t k = k\<lparr>lf_pop := (\<lambda>_. LfPopOut)(0 := lf_pop k t)\<rparr>"

lemma lf_rename_simps [simp]:
  "m_head (lf_rename t k) = m_head k" "lf_heap (lf_rename t k) = lf_heap k" "lf_push (lf_rename t k) = lf_push k"
  "lf_uaf (lf_rename t k) = lf_uaf k" "lf_pop (lf_rename t k) 0 = lf_pop k t"
  by (simp_all add: lf_rename_def)

lemma lf_rename_push:
  "LockFree_Push u c v k = Some (k', r) \<Longrightarrow> LockFree_Push u c v (lf_rename t k) = Some (lf_rename t k', r)"
  by (auto simp: lf_rename_def split: lf_push_pc.splits lf_choice.splits option.splits prod.splits bool.splits if_splits)

lemma lf_rename_pop:
  "LockFree_Pop t c k = Some (k', r) \<Longrightarrow> LockFree_Pop 0 c (lf_rename t k) = Some (lf_rename t k', r)"
  by (auto simp: lf_rename_def split: lf_pop_pc.splits option.splits prod.splits bool.splits if_splits)

definition lf_single :: "tid \<Rightarrow> 'v lfstack \<Rightarrow> bool" where
  "lf_single t k \<longleftrightarrow> (\<exists>a. lf_sim (lf_rename t k) a)"

lemma lf_single_step:
  assumes "lf_single t k" "C \<subseteq> {t}" "lf_step C l k = Some k'"
  shows "lf_single t k'"
proof -
  obtain a where a: "lf_sim (lf_rename t k) a" using assms(1) by (auto simp: lf_single_def)
  show ?thesis
  proof (cases l)
    case (LfDoPush u c v)
    then obtain r where "LockFree_Push u c v k = Some (k', r)" and p: "lf_pend k u \<in> {None, Some v}"
      using assms(3) by (auto split: if_splits simp del: LockFree_Push.simps)
    then have "LockFree_Push u c v (lf_rename t k) = Some (lf_rename t k', r)" by (simp only: lf_rename_push)
    moreover have "lf_pend (lf_rename t k) u \<in> {None, Some v}" using p by (simp add: lf_pend_def)
    ultimately show ?thesis using lf_push_sim [OF a, of u v c] unfolding lf_single_def by blast
  next
    case (LfDoPop u c)
    then obtain r where "LockFree_Pop t c k = Some (k', r)"
      using assms(2,3) by (auto split: if_splits simp del: LockFree_Pop.simps)
    then have "LockFree_Pop 0 c (lf_rename t k) = Some (lf_rename t k', r)" by (rule lf_rename_pop)
    then show ?thesis using lf_pop_sim [OF a, of c] unfolding lf_single_def by blast
  qed
qed

lemma lf_single_init: "lf_single t (lfstack_init :: 'v lfstack)"
proof -
  have "lf_rename t lfstack_init = (lfstack_init :: 'v lfstack)" by (simp add: lf_rename_def lfstack_init_def fun_eq_iff)
  moreover have "lf_sim (lfstack_init :: 'v lfstack) stack_spec_init" by (rule lfg.sim_init)
  ultimately show ?thesis unfolding lf_single_def by metis
qed

lemma lf_single_safe:
  assumes "C \<subseteq> {t}" "reach (lf_step C) lfstack_init k"
  shows "\<not> lf_uaf k"
proof -
  have "lf_single t k" using assms(2)
    by (induction rule: reach.induct) (auto intro: lf_single_init lf_single_step [OF _ assms(1)])
  then show ?thesis using lf_sim_ok by (fastforce simp: lf_single_def)
qed

text \<open>The first consumer reads the head, the second pops and frees the node, and the first reads
  \<^verbatim>\<open>oldHead->next\<close> of the freed node.\<close>

definition two_consumers :: "tid \<Rightarrow> tid \<Rightarrow> 'v lf_label list" where
  "two_consumers t u = LfDoPop t LfGo # replicate 5 (LfDoPop u LfGo) @ [LfDoPop t LfGo]"

lemma two_consumers_run:
  assumes "t \<in> C" "u \<in> C" "t \<noteq> u" "lf_pop k t = LfPopOut" "lf_pop k u = LfPopOut" "m_head k = Some a"
    and "\<not> lf_uaf k" "lf_heap k a = Some n"
  shows "\<exists>k'. run (lf_step C) (two_consumers t u) k = Some k' \<and> lf_uaf k'"
  using assms by (simp add: two_consumers_def numeral_eq_Suc head_cas_def)

lemma one_push_run:
  "\<exists>k. run (lf_step C) [LfDoPush 0 (LfAlloc 0) v, LfDoPush 0 LfGo v, LfDoPush 0 LfGo v] lfstack_init = Some k \<and>
     lf_pop k = (\<lambda>_. LfPopOut) \<and> m_head k \<noteq> None"
  by (simp add: lfstack_init_def head_cas_def lf_pend_def)

text \<open>If the head points to a freed node already, a single \<^verbatim>\<open>Pop\<close> is enough.\<close>

lemma dangling_run:
  assumes "t \<in> C" "lf_pop k t = LfPopOut" "m_head k = Some a" "\<not> lf_uaf k" "lf_heap k a = None"
  shows "\<exists>k'. run (lf_step C) (replicate 2 (LfDoPop t LfGo)) k = Some k' \<and> lf_uaf k'"
  using assms by (simp add: numeral_2_eq_2)

lemma two_consumers_uaf:
  assumes "t \<in> C" "u \<in> C" "t \<noteq> u" "lf_pop k t = LfPopOut" "lf_pop k u = LfPopOut" "m_head k \<noteq> None"
  shows "\<exists>k'. reach (lf_step C) k k' \<and> lf_uaf k'"
proof (cases "lf_uaf k")
  case False
  obtain a where a: "m_head k = Some a" using assms(6) by blast
  show ?thesis
  proof (cases "lf_heap k a")
    case None
    show ?thesis using dangling_run [OF assms(1,4) a False None] by (blast intro: run_imp_reach)
  next
    case (Some n)
    show ?thesis using two_consumers_run [OF assms(1-5) a False Some] by (blast intro: run_imp_reach)
  qed
qed auto

section \<open>Properties\<close>

text \<open>C6: the lock-free stack is correct for any number of producers and one consumer. Whatever the
  interleaving, the addresses \<^verbatim>\<open>new\<close> returns and the spurious failures: no freed memory is used,
  every history of completed calls is one of the atomic stack, and whenever no call is in
  progress the destructor terminates and leaves no node allocated.\<close>

theorem lock_free_mpsc:
  assumes "reach (mp_step LockFree_Push (LockFree_Pop 0) lf_pend) (lfstack_init, []) (k, log)"
  shows "\<not> lf_uaf k \<and> (\<exists>a. spec_history a log) \<and>
    ((\<forall>t. lf_push k t = LfPushOut) \<and> lf_pop k 0 = LfPopOut \<longrightarrow> lf_destroy k = Some (Inr (\<lambda>_. None)))"
proof -
  obtain a where a: "spec_history a log" "lf_sim k a" using lfg.mp_refines [OF assms] by auto
  then show ?thesis using lf_sim_ok [OF a(2)] lf_destroy_all [OF a(2)] by blast
qed

theorem lock_free_mpsc_witness:
  "\<exists>k. reach (mp_step LockFree_Push (LockFree_Pop 0) lf_pend) (lfstack_init, [])
      (k, [PopReturned (Some 8), PushReturned 1 8, PushReturned 0 (7 :: int)]) \<and>
    lf_destroy k = Some (Inr (\<lambda>_. None))"
proof -
  let ?step = "mp_step LockFree_Push (LockFree_Pop 0) lf_pend"
  let ?ls = "[MpPush 0 (LfAlloc 3) (7 :: int), MpPush 1 (LfAlloc 5) 8, MpPush 1 LfGo 8, MpPush 0 LfGo 7,
    MpPush 0 LfGo 7, MpPush 1 LfGo 8, MpPush 1 LfGo 8, MpPop LfGo, MpPop LfGo, MpPop LfGo, MpPop LfGo, MpPop LfGo]"
  let ?log = "[PopReturned (Some 8), PushReturned 1 8, PushReturned 0 (7 :: int)]"
  obtain k where k: "run ?step ?ls (lfstack_init, []) = Some (k, ?log)"
    and idle: "\<forall>t. lf_push k t = LfPushOut" "lf_pop k 0 = LfPopOut"
    by (simp add: lfstack_init_def lf_pend_def head_cas_def push_log_def pop_log_def)
  have r: "reach ?step (lfstack_init, []) (k, ?log)" using k by (rule run_imp_reach)
  then show ?thesis using lock_free_mpsc [OF r] idle by blast
qed

text \<open>On the lock-free stack, too, the producer and the consumer of \<^verbatim>\<open>main\<close> exchange every element
  exactly once.\<close>

theorem lock_free_main_received:
  assumes "reach (sc_step LockFree_Push (LockFree_Pop 0) N) (sc_init lfstack_init) s"
  shows "\<not> lf_uaf (sc_obj s) \<and> mset (sc_got s) \<subseteq># upto_int (min N (Suc (sc_i s))) \<and>
    (sc_cons s = ScDone \<longrightarrow> mset (sc_got s) = upto_int N)"
proof -
  have "lf.main_inv N s" using assms by (rule lf.main.reach_inv)
  then have "\<not> lf_uaf (sc_obj s)" by (auto simp: lf.main_inv_def dest: lf_sim_ok)
  then show ?thesis using lf.received_pushed [OF assms] lf.all_received [OF assms] by blast
qed

theorem lock_free_main_received_witness:
  "\<exists>s. reach (sc_step LockFree_Push (LockFree_Pop 0) 1) (sc_init lfstack_init) s \<and>
    sc_cons s = ScDone \<and> mset (sc_got s) = {#0#}"
proof -
  let ?ls = "[Producer LfGo, Consumer LfGo, Producer LfGo, Consumer LfGo, Producer (LfAlloc 9), Producer LfGo,
    Producer LfSpurious, Producer LfGo] @ replicate 6 (Consumer LfGo)"
  obtain s where s: "run (sc_step LockFree_Push (LockFree_Pop 0) 1) ?ls (sc_init lfstack_init) = Some s"
    and d: "sc_cons s = ScDone"
    by (simp add: numeral_eq_Suc sc_init_def lfstack_init_def head_cas_def)
  have r: "reach (sc_step LockFree_Push (LockFree_Pop 0) 1) (sc_init lfstack_init) s" using s by (rule run_imp_reach)
  then show ?thesis using lock_free_main_received [OF r] d by (auto simp: upto_int_def)
qed

text \<open>C7: the stack can be used as MPSC, but not as SPMC or MPMC. If any threads push and the threads of a
  set \<open>C\<close> pop, freed memory is never used, on any schedule and with any addresses and spurious failures, exactly
  when \<open>C\<close> has at most one member. With two members the error can be reached from every state in which the
  stack is not empty and these two threads are between calls: one reads the head, the other pops it and
  deletes the node, and the first reads \<^verbatim>\<open>oldHead->next\<close> of the deleted node.\<close>

theorem lock_free_two_consumers:
  "((\<forall>k. reach (lf_step C) lfstack_init k \<longrightarrow> \<not> lf_uaf k) \<longleftrightarrow> (\<forall>t\<in>C. \<forall>u\<in>C. t = u)) \<and>
   (\<forall>t\<in>C. \<forall>u\<in>C. t \<noteq> u \<and> lf_pop k t = LfPopOut \<and> lf_pop k u = LfPopOut \<and> m_head k \<noteq> None \<longrightarrow>
      (\<exists>k'. reach (lf_step C) k k' \<and> lf_uaf k'))"
proof (intro conjI iffI)
  assume safe: "\<forall>k. reach (lf_step C) (lfstack_init :: 'a lfstack) k \<longrightarrow> \<not> lf_uaf k"
  obtain k :: "'a lfstack" where r: "reach (lf_step C) lfstack_init k"
    and k: "lf_pop k = (\<lambda>_. LfPopOut)" "m_head k \<noteq> None"
    using one_push_run [of C] run_imp_reach by metis
  show "\<forall>t\<in>C. \<forall>u\<in>C. t = u"
  proof (intro ballI, rule ccontr)
    fix t u assume "t \<in> C" "u \<in> C" "t \<noteq> u"
    then obtain k' where "reach (lf_step C) k k'" "lf_uaf k'" using two_consumers_uaf [of t C u k] k by auto
    then show False using safe reach_trans [OF r] by blast
  qed
next
  assume "\<forall>t\<in>C. \<forall>u\<in>C. t = u"
  then obtain t where "C \<subseteq> {t}" by blast
  then show "\<forall>k. reach (lf_step C) (lfstack_init :: 'a lfstack) k \<longrightarrow> \<not> lf_uaf k" using lf_single_safe by blast
qed (use two_consumers_uaf in blast)

theorem lock_free_two_consumers_witness:
  "(\<nexists>k. reach (lf_step {5}) (lfstack_init :: int lfstack) k \<and> lf_uaf k) \<and>
   (\<exists>k. reach (lf_step {1, 2}) (lfstack_init :: int lfstack) k \<and> lf_uaf k)"
  using lock_free_two_consumers [of "{5}"] lock_free_two_consumers [of "{1, 2}"] by fastforce

end
