(* ===== verification/Sys_Error.thy ===== *)
theory Sys_Error
  imports Prelude
begin

text \<open>
  \<^verbatim>\<open>include/utils/error.hpp\<close>: the macro \<^verbatim>\<open>CHECK_ERROR\<close>, and the way the programs of \<^verbatim>\<open>ipc\<close> and
  \<^verbatim>\<open>processes_and_threads\<close> use it. A system call returns a number; \<open>-1\<close> reports an error, on which
  the program logs and exits. Some calls report errors by a null or special pointer, on which the
  program throws. What the system calls return is an argument of the definitions. The theory also
  has the printing of a character array as a C string.
\<close>

datatype failure = ExitFailure | Threw string

type_synonym 'a sys = "failure + 'a"

definition CHECK_ERROR :: "int \<Rightarrow> unit sys" where
  "CHECK_ERROR res = (if res = -1 then Inl ExitFailure else Inr ())"

text \<open>What \<^verbatim>\<open>LogSystemError\<close> writes to standard error: where the macro was used, and the reason, the text and number of \<^verbatim>\<open>errno\<close>.\<close>

record source_location =
  function_name :: string
  file_name :: string
  loc_line :: nat

definition LogSystemError :: "source_location \<Rightarrow> string \<Rightarrow> int \<Rightarrow> string" where
  "LogSystemError loc strerror errno =
     ''Error in '' @ function_name loc @ [CHR 0x0A] @ ''  File: '' @ file_name loc @ '':'' @ show_nat (loc_line loc) @ [CHR 0x0A] @
     ''  Reason: '' @ strerror @ '' (errno: '' @ show_int errno @ '')'' @ [CHR 0x0A]"

text \<open>The macro with its output to standard error.\<close>

definition CHECK_ERROR_log :: "source_location \<Rightarrow> string \<Rightarrow> int \<Rightarrow> int \<Rightarrow> string \<times> unit sys" where
  "CHECK_ERROR_log loc strerror errno res =
     (if res = -1 then (LogSystemError loc strerror errno, Inl ExitFailure) else ([], Inr ()))"

lemma CHECK_ERROR_log: "CHECK_ERROR res = snd (CHECK_ERROR_log loc strerror errno res)"
  by (simp add: CHECK_ERROR_def CHECK_ERROR_log_def)

text \<open>A pointer result: \<open>False\<close> for \<^verbatim>\<open>SEM_FAILED\<close> or \<^verbatim>\<open>MAP_FAILED\<close>. The message of the exception has the text of \<^verbatim>\<open>errno\<close>.\<close>

definition check_pointer :: "string \<Rightarrow> string \<Rightarrow> bool \<Rightarrow> unit sys" where
  "check_pointer what strerror ok = (if ok then Inr () else Inl (Threw (what @ '', error: '' @ strerror)))"

text \<open>\<^verbatim>\<open>sem_open\<close> with \<^verbatim>\<open>O_CREAT\<close> and value 0: a semaphore of that name that exists is opened with the value it has.\<close>

definition sem_open :: "nat option \<Rightarrow> nat" where
  "sem_open existing = (case existing of None \<Rightarrow> 0 | Some v \<Rightarrow> v)"

text \<open>Checks in sequence: the first failure ends the program.\<close>

fun in_order :: "unit sys list \<Rightarrow> unit sys" where
  "in_order [] = Inr ()"
| "in_order (Inl e # cs) = Inl e"
| "in_order (Inr u # cs) = in_order cs"

text \<open>A computation that goes on with the result of another.\<close>

definition and_then :: "'a sys \<Rightarrow> ('a \<Rightarrow> 'b sys) \<Rightarrow> 'b sys" where
  "and_then r f = (case r of Inl e \<Rightarrow> Inl e | Inr x \<Rightarrow> f x)"

lemma and_then_simps [simp]: "and_then (Inl e) f = Inl e" "and_then (Inr x) f = f x"
  by (simp_all add: and_then_def)

lemma and_then_Inr: "and_then r f = Inr y \<longleftrightarrow> (\<exists>x. r = Inr x \<and> f x = Inr y)"
  by (cases r) simp_all

lemma in_order_ok: "in_order cs = Inr () \<longleftrightarrow> (\<forall>c \<in> set cs. c = Inr ())"
  by (induction cs rule: in_order.induct) auto

lemma in_order_fails: "in_order (replicate n (Inr ()) @ Inl e # cs) = Inl e"
  by (induction n) auto

lemma CHECK_ERROR_ok [simp]: "CHECK_ERROR res = Inr () \<longleftrightarrow> res \<noteq> -1"
  by (simp add: CHECK_ERROR_def)

lemma check_pointer_ok [simp]: "check_pointer what strerror ok = Inr () \<longleftrightarrow> ok"
  by (simp add: check_pointer_def)

section \<open>Processes whose calls may fail\<close>

text \<open>The programs check every system call, also while both processes are running. A step of such a machine names the process
  that moves and whether the call it makes succeeds; a process whose call fails logs the error and exits.\<close>

datatype process = Parent | Child

datatype outcome = Succeeds | Fails

lemma all_process: "(\<forall>p. P p) \<longleftrightarrow> P Parent \<and> P Child"
  by (metis process.exhaust)

lemma ex_process: "(\<exists>p. P p) \<longleftrightarrow> P Parent \<or> P Child"
  by (metis process.exhaust)

text \<open>Neither process can move, unless the call it waits in fails.\<close>

definition halted :: "(process \<times> outcome, 's) machine \<Rightarrow> 's \<Rightarrow> bool" where
  "halted step s \<longleftrightarrow> step (Parent, Succeeds) s = None \<and> step (Child, Succeeds) s = None"

lemma halted_iff: "halted step s \<longleftrightarrow> (\<forall>p. step (p, Succeeds) s = None)"
  by (simp add: halted_def all_process)

text \<open>A terminating machine of two processes whose calls may fail: it can halt without a failing call, and when it halts it has
  reached a final state.\<close>

locale failing_calls = machine_term step s0 inv rank final
  for step :: "(process \<times> outcome, 's) machine" and s0 :: 's and inv :: "'s \<Rightarrow> bool" and rank :: "'s \<Rightarrow> nat"
    and final :: "'s \<Rightarrow> bool" +
  fixes failed :: "'s \<Rightarrow> process \<Rightarrow> bool"
  assumes none_failed: "\<not> failed s0 p"
    and keeps: "step (p, Succeeds) s = Some t \<Longrightarrow> failed t = failed s"
    and enabled_ok: "inv s \<Longrightarrow> \<not> final s \<Longrightarrow> \<exists>p t. step (p, Succeeds) s = Some t"
begin

lemma halted_final: "reach step s0 s \<Longrightarrow> halted step s \<Longrightarrow> inv s \<and> final s"
  using reach_inv enabled_ok by (metis halted_iff option.distinct(1))

lemma halts_from: "inv s \<Longrightarrow> \<exists>t. reach step s t \<and> halted step t \<and> failed t = failed s"
proof (induction "rank s" arbitrary: s rule: less_induct)
  case less
  show ?case
  proof (cases "halted step s")
    case False
    then obtain p t where t: "step (p, Succeeds) s = Some t" by (auto simp: halted_iff)
    have "inv t" "rank t < rank s" using less.prems t inv_step decrease by blast+
    then obtain u where u: "reach step t u" "halted step u" "failed u = failed t" using less.hyps by blast
    have "reach step s t" using reach_init t by (rule reach_step)
    then have "reach step s u" using u(1) by (rule reach_trans)
    then show ?thesis using u(2,3) keeps [OF t] by auto
  qed auto
qed

lemma halts_ok: "\<exists>s. reach step s0 s \<and> halted step s \<and> (\<forall>p. \<not> failed s p)"
  using halts_from [OF inv_init] none_failed by metis

end

section \<open>C strings\<close>

text \<open>Printing a \<^verbatim>\<open>char\<close> array prints up to its first zero byte; \<open>None\<close> if there is none, and the
  print runs past the end of the array.\<close>

definition print_c_string :: "string \<Rightarrow> string option" where
  "print_c_string buf = (if CHR 0x00 \<in> set buf then Some (takeWhile (\<lambda>c. c \<noteq> CHR 0x00) buf) else None)"

lemma print_padded:
  assumes "CHR 0x00 \<notin> set xs" "0 < n"
  shows "print_c_string (xs @ replicate n (CHR 0x00)) = Some xs"
proof -
  have "takeWhile (\<lambda>c. c \<noteq> CHR 0x00) (xs @ replicate n (CHR 0x00)) = xs @ takeWhile (\<lambda>c. c \<noteq> CHR 0x00) (replicate n (CHR 0x00))"
    using assms(1) by (subst takeWhile_append2) auto
  also have "takeWhile (\<lambda>c. c \<noteq> CHR 0x00) (replicate n (CHR 0x00)) = []" by (cases n) simp_all
  finally show ?thesis using assms(2) by (simp add: print_c_string_def)
qed

lemma print_overrun: "CHR 0x00 \<notin> set xs \<Longrightarrow> print_c_string xs = None"
  by (simp add: print_c_string_def)

end
