(* ===== verification/Stack_Buffered.thy ===== *)
theory Stack_Buffered
  imports Sys_Error
begin

text \<open>
  \<^verbatim>\<open>BufferedLockFreeSPSCStack\<close> (\<^verbatim>\<open>lock_free/spsc_stack.cpp\<close>, and a copy in \<^verbatim>\<open>ipc/shm_atomics.cpp\<close>): an
  array and an atomic index. A step is one access to \<^verbatim>\<open>m_head\<close> or to the array; a weak exchange
  may fail spuriously. An index outside the array is undefined behaviour and sets \<open>b_oob\<close>.

  \<^verbatim>\<open>Push\<close> moves the index before it writes the element, and \<^verbatim>\<open>Pop\<close> moves it before it reads. The
  index stays in range and every successful \<^verbatim>\<open>Pop\<close> is matched by a \<^verbatim>\<open>Push\<close>, with any number of
  threads. A call that runs alone does what a stack does, however often its exchange fails spuriously; but already with one producer and one consumer a \<^verbatim>\<open>Pop\<close> can overtake the write of
  the \<^verbatim>\<open>Push\<close> whose element it takes, and returns what was in the slot before.
\<close>

section \<open>The class\<close>

datatype b_push_pc = BPushLoad | BPushCas int | BPushWrite int

datatype b_pop_pc = BPopLoad | BPopCas int | BPopRead int

record 'v bstack =
  b_head :: int
  m_buffer :: "'v list"
  b_push :: "tid \<Rightarrow> b_push_pc"
  b_pop :: "tid \<Rightarrow> b_pop_pc"
  b_oob :: bool

text \<open>The array is value-initialized: \<open>v0\<close> is \<^verbatim>\<open>T{}\<close>.\<close>

definition bstack_init :: "nat \<Rightarrow> 'v \<Rightarrow> 'v bstack" where
  "bstack_init Capacity v0 =
     \<lparr>b_head = 0, m_buffer = replicate Capacity v0, b_push = (\<lambda>_. BPushLoad), b_pop = (\<lambda>_. BPopLoad),
      b_oob = False\<rparr>"

text \<open>One step of \<^verbatim>\<open>Push\<close>; the result is \<open>Some b\<close> when the call returns \<open>b\<close>.\<close>

definition Buffered_Push :: "nat \<Rightarrow> tid \<Rightarrow> bool \<Rightarrow> 'v \<Rightarrow> 'v bstack \<Rightarrow> 'v bstack \<times> bool option" where
  "Buffered_Push Capacity t spurious value k =
     (case b_push k t of
        BPushLoad \<Rightarrow> (k\<lparr>b_push := (b_push k)(t := BPushCas (b_head k))\<rparr>, None)
      | BPushCas top' \<Rightarrow>
          if top' = int Capacity then (k\<lparr>b_push := (b_push k)(t := BPushLoad)\<rparr>, Some False)
          else if b_head k = top' \<and> \<not> spurious
          then (k\<lparr>b_head := top' + 1, b_push := (b_push k)(t := BPushWrite top')\<rparr>, None)
          else (k\<lparr>b_push := (b_push k)(t := BPushLoad)\<rparr>, None)
      | BPushWrite top' \<Rightarrow>
          if 0 \<le> top' \<and> top' < int (length (m_buffer k))
          then (k\<lparr>m_buffer := (m_buffer k)[nat top' := value], b_push := (b_push k)(t := BPushLoad)\<rparr>, Some True)
          else (k\<lparr>b_oob := True\<rparr>, None))"

definition Buffered_Pop :: "tid \<Rightarrow> bool \<Rightarrow> 'v bstack \<Rightarrow> 'v bstack \<times> 'v option option" where
  "Buffered_Pop t spurious k =
     (case b_pop k t of
        BPopLoad \<Rightarrow> (k\<lparr>b_pop := (b_pop k)(t := BPopCas (b_head k))\<rparr>, None)
      | BPopCas top' \<Rightarrow>
          if top' = 0 then (k\<lparr>b_pop := (b_pop k)(t := BPopLoad)\<rparr>, Some None)
          else if b_head k = top' \<and> \<not> spurious
          then (k\<lparr>b_head := top' - 1, b_pop := (b_pop k)(t := BPopRead top')\<rparr>, None)
          else (k\<lparr>b_pop := (b_pop k)(t := BPopLoad)\<rparr>, None)
      | BPopRead top' \<Rightarrow>
          if 0 \<le> top' - 1 \<and> top' - 1 < int (length (m_buffer k))
          then (k\<lparr>b_pop := (b_pop k)(t := BPopLoad)\<rparr>, Some (Some (m_buffer k ! nat (top' - 1))))
          else (k\<lparr>b_oob := True\<rparr>, None))"

section \<open>The index stays in range\<close>

definition top_ok :: "nat \<Rightarrow> int \<Rightarrow> bool" where
  "top_ok Capacity i \<longleftrightarrow> 0 \<le> i \<and> i \<le> int Capacity"

fun b_push_ok :: "nat \<Rightarrow> b_push_pc \<Rightarrow> bool" where
  "b_push_ok Capacity BPushLoad = True"
| "b_push_ok Capacity (BPushCas top') = top_ok Capacity top'"
| "b_push_ok Capacity (BPushWrite top') = (top_ok Capacity top' \<and> top' \<noteq> int Capacity)"

fun b_pop_ok :: "nat \<Rightarrow> b_pop_pc \<Rightarrow> bool" where
  "b_pop_ok Capacity BPopLoad = True"
| "b_pop_ok Capacity (BPopCas top') = top_ok Capacity top'"
| "b_pop_ok Capacity (BPopRead top') = (top_ok Capacity top' \<and> top' \<noteq> 0)"

definition bstack_inv :: "nat \<Rightarrow> 'v bstack \<Rightarrow> bool" where
  "bstack_inv Capacity k \<longleftrightarrow>
     top_ok Capacity (b_head k) \<and> length (m_buffer k) = Capacity \<and> \<not> b_oob k \<and>
     (\<forall>t. b_push_ok Capacity (b_push k t)) \<and> (\<forall>t. b_pop_ok Capacity (b_pop k t))"

lemma bstack_inv_init: "bstack_inv Capacity (bstack_init Capacity v0)"
  by (simp add: bstack_inv_def bstack_init_def top_ok_def)

lemma bstack_inv_push:
  assumes inv: "bstack_inv Capacity k"
  shows "bstack_inv Capacity (fst (Buffered_Push Capacity t c v k))"
proof -
  have "b_push_ok Capacity (b_push k t)" using inv by (simp add: bstack_inv_def)
  then show ?thesis using inv
    by (cases "b_push k t") (auto simp: Buffered_Push_def bstack_inv_def top_ok_def)
qed

lemma bstack_inv_pop:
  assumes inv: "bstack_inv Capacity k"
  shows "bstack_inv Capacity (fst (Buffered_Pop t c k))"
proof -
  have "b_pop_ok Capacity (b_pop k t)" using inv by (simp add: bstack_inv_def)
  then show ?thesis using inv
    by (cases "b_pop k t") (auto simp: Buffered_Pop_def bstack_inv_def top_ok_def)
qed

text \<open>Any number of producers and consumers, pushing any values.\<close>

datatype 'v b_label = BDoPush tid bool 'v | BDoPop tid bool

fun b_step :: "nat \<Rightarrow> ('v b_label, 'v bstack) machine" where
  "b_step Capacity (BDoPush t c v) k = Some (fst (Buffered_Push Capacity t c v k))"
| "b_step Capacity (BDoPop t c) k = Some (fst (Buffered_Pop t c k))"

interpretation bst: machine_inv "b_step Capacity" "bstack_init Capacity v0" "bstack_inv Capacity" for Capacity v0
proof unfold_locales
  show "bstack_inv Capacity (bstack_init Capacity v0)" by (rule bstack_inv_init)
  show "bstack_inv Capacity k'" if "bstack_inv Capacity k" "b_step Capacity l k = Some k'" for k l and k' :: "'a bstack"
    using that by (cases l) (auto intro: bstack_inv_push bstack_inv_pop)
qed

section \<open>A call that is not interrupted\<close>

text \<open>The contents between calls: the slots below the index, the top first.\<close>

definition b_contents :: "'v bstack \<Rightarrow> 'v list" where
  "b_contents k = rev (take (nat (b_head k)) (m_buffer k))"

text \<open>A call whose thread runs alone, one step for each element of a list of choices: whether the weak
  exchange, if the step is one, fails spuriously. \<open>None\<close>: the call has not returned yet.\<close>

fun push_alone :: "nat \<Rightarrow> tid \<Rightarrow> 'v \<Rightarrow> bool list \<Rightarrow> 'v bstack \<Rightarrow> ('v bstack \<times> bool) option" where
  "push_alone Capacity t v [] k = None"
| "push_alone Capacity t v (c # cs) k =
     (case Buffered_Push Capacity t c v k of
        (k', Some b) \<Rightarrow> Some (k', b)
      | (k', None) \<Rightarrow> push_alone Capacity t v cs k')"

fun pop_alone :: "tid \<Rightarrow> bool list \<Rightarrow> 'v bstack \<Rightarrow> ('v bstack \<times> 'v option) option" where
  "pop_alone t [] k = None"
| "pop_alone t (c # cs) k =
     (case Buffered_Pop t c k of
        (k', Some r) \<Rightarrow> Some (k', r)
      | (k', None) \<Rightarrow> pop_alone t cs k')"

lemma push_alone_reach: "push_alone Capacity t v cs k = Some (k', b) \<Longrightarrow> reach (b_step Capacity) k k'"
proof (induction cs arbitrary: k)
  case (Cons c cs)
  obtain k1 r where p: "Buffered_Push Capacity t c v k = (k1, r)" by fastforce
  have "b_step Capacity (BDoPush t c v) k = Some k1" using p by simp
  then have "reach (b_step Capacity) k k1" by (rule reach_step [OF reach_init])
  moreover have "reach (b_step Capacity) k1 k'" using Cons p by (cases r) auto
  ultimately show ?case by (rule reach_trans)
qed simp

lemma pop_alone_reach: "pop_alone t cs k = Some (k', r) \<Longrightarrow> reach (b_step Capacity) k k'"
proof (induction cs arbitrary: k)
  case (Cons c cs)
  obtain k1 q where p: "Buffered_Pop t c k = (k1, q)" by fastforce
  have "b_step Capacity (BDoPop t c) k = Some k1" using p by simp
  then have "reach (b_step Capacity) k k1" by (rule reach_step [OF reach_init])
  moreover have "reach (b_step Capacity) k1 k'" using Cons p by (cases q) auto
  ultimately show ?case by (rule reach_trans)
qed simp

text \<open>A call loads and exchanges until an exchange succeeds; a spurious failure leaves everything as
  it was before the load.\<close>

lemma retry_returns:
  fixes f :: "bool list \<Rightarrow> 'r option"
  assumes short: "f [] = None" "\<And>c. f [c] = None"
    and fails: "\<And>c cs. f (c # True # cs) = (if early then Some r else f cs)"
    and succeeds: "\<And>c. f [c, False] = (if early then Some r else None)" "\<And>c d cs. f (c # False # d # cs) = Some r"
  shows "f cs \<in> {None, Some r} \<and> (3 + 2 * count_list cs True \<le> length cs \<longrightarrow> f cs = Some r)"
proof (induction "length cs" arbitrary: cs rule: less_induct)
  case less
  consider "cs = []" | c where "cs = [c]" | c ds where "cs = c # True # ds" | c where "cs = [c, False]"
    | c d ds where "cs = c # False # d # ds"
    by (metis (full_types) neq_Nil_conv)
  then show ?case
  proof cases
    case (3 c ds)
    then have "f ds \<in> {None, Some r} \<and> (3 + 2 * count_list ds True \<le> length ds \<longrightarrow> f ds = Some r)"
      by (intro less) simp
    then show ?thesis using 3 by (auto simp: fails split: if_splits)
  qed (auto simp: short succeeds)
qed

lemma push_alone_correct:
  assumes inv: "bstack_inv Capacity k" and idle: "b_push k t = BPushLoad"
  obtains k' where "b_push k' = b_push k" "b_pop k' = b_pop k"
    "b_contents k' = (if length (b_contents k) < Capacity then v # b_contents k else b_contents k)"
    "\<And>cs. push_alone Capacity t v cs k \<in> {None, Some (k', length (b_contents k) < Capacity)} \<and>
       (3 + 2 * count_list cs True \<le> length cs \<longrightarrow>
          push_alone Capacity t v cs k = Some (k', length (b_contents k) < Capacity))"
proof (cases "b_head k = int Capacity")
  case True
  have c: "length (b_contents k) = Capacity" using inv True by (simp add: b_contents_def bstack_inv_def)
  show ?thesis
  proof (rule that [of k])
    fix cs
    show "push_alone Capacity t v cs k \<in> {None, Some (k, length (b_contents k) < Capacity)} \<and>
       (3 + 2 * count_list cs True \<le> length cs \<longrightarrow>
          push_alone Capacity t v cs k = Some (k, length (b_contents k) < Capacity))"
      by (rule retry_returns [where early = True]) (use idle True in \<open>simp_all add: Buffered_Push_def fun_upd_idem c\<close>)
  qed (simp_all add: c)
next
  case False
  let ?h = "nat (b_head k)"
  let ?k = "k\<lparr>b_head := b_head k + 1, m_buffer := (m_buffer k)[?h := v]\<rparr>"
  have h: "?h < Capacity" "0 \<le> b_head k" "length (m_buffer k) = Capacity" "b_head k < int Capacity"
    using inv False by (auto simp: bstack_inv_def top_ok_def)
  then have c: "length (b_contents k) < Capacity" by (simp add: b_contents_def)
  have "nat (b_head k + 1) = Suc ?h" using h(2) by simp
  then have k: "b_contents ?k = v # b_contents k" using h by (simp add: b_contents_def take_Suc_conv_app_nth)
  show ?thesis
  proof (rule that [of ?k])
    fix cs
    show "push_alone Capacity t v cs k \<in> {None, Some (?k, length (b_contents k) < Capacity)} \<and>
       (3 + 2 * count_list cs True \<le> length cs \<longrightarrow>
          push_alone Capacity t v cs k = Some (?k, length (b_contents k) < Capacity))"
      by (rule retry_returns [where early = False])
        (use idle False h in \<open>simp_all add: Buffered_Push_def fun_upd_idem c\<close>)
  qed (simp_all add: c k)
qed

lemma Buffered_Pop_read:
  assumes "b_pop k t = BPopRead i" "1 \<le> i" "i \<le> int (length (m_buffer k))"
  shows "Buffered_Pop t c k = (k\<lparr>b_pop := (b_pop k)(t := BPopLoad)\<rparr>, Some (Some (m_buffer k ! nat (i - 1))))"
  using assms by (simp add: Buffered_Pop_def)

text \<open>The value at the top, if there is one.\<close>

definition b_top :: "'v bstack \<Rightarrow> 'v option" where
  "b_top k = (case b_contents k of [] \<Rightarrow> None | v # vs \<Rightarrow> Some v)"

lemma pop_alone_correct:
  assumes inv: "bstack_inv Capacity k" and idle: "b_pop k t = BPopLoad"
  obtains k' where "b_push k' = b_push k" "b_pop k' = b_pop k" "b_contents k' = tl (b_contents k)"
    "\<And>cs. pop_alone t cs k \<in> {None, Some (k', b_top k)} \<and>
       (3 + 2 * count_list cs True \<le> length cs \<longrightarrow> pop_alone t cs k = Some (k', b_top k))"
proof (cases "b_head k = 0")
  case True
  have c: "b_contents k = []" using True by (simp add: b_contents_def)
  show ?thesis
  proof (rule that [of k])
    fix cs
    show "pop_alone t cs k \<in> {None, Some (k, b_top k)} \<and>
       (3 + 2 * count_list cs True \<le> length cs \<longrightarrow> pop_alone t cs k = Some (k, b_top k))"
      by (rule retry_returns [where early = True])
        (use idle True in \<open>simp_all add: Buffered_Pop_def fun_upd_idem b_top_def c\<close>)
  qed (simp_all add: c)
next
  case False
  define j where "j = nat (b_head k - 1)"
  have j: "b_head k = 1 + int j" "j < Capacity" and len: "length (m_buffer k) = Capacity"
    using inv False by (auto simp: bstack_inv_def top_ok_def j_def)
  let ?k = "k\<lparr>b_head := int j\<rparr>"
  let ?k1 = "k\<lparr>b_pop := (b_pop k)(t := BPopCas (1 + int j))\<rparr>"
  let ?k2 = "?k\<lparr>b_pop := (b_pop k)(t := BPopRead (1 + int j))\<rparr>"
  have "nat (b_head k) = Suc j" using j(1) by simp
  then have c: "b_contents k = m_buffer k ! j # b_contents ?k"
    using j(2) len by (simp add: b_contents_def take_Suc_conv_app_nth)
  have steps: "Buffered_Pop t c k = (?k1, None)" "Buffered_Pop t True ?k1 = (k, None)"
    "Buffered_Pop t False ?k1 = (?k2, None)" "Buffered_Pop t c ?k2 = (?k, Some (Some (m_buffer k ! j)))" for c
    using idle j(1) Buffered_Pop_read [of ?k2 t "1 + int j" c] j(2) len
    by (simp_all add: Buffered_Pop_def fun_upd_idem)
  have top: "b_top k = Some (m_buffer k ! j)" by (simp add: b_top_def c)
  show ?thesis
  proof (rule that [of ?k])
    fix cs
    show "pop_alone t cs k \<in> {None, Some (?k, b_top k)} \<and>
       (3 + 2 * count_list cs True \<le> length cs \<longrightarrow> pop_alone t cs k = Some (?k, b_top k))"
      unfolding top by (rule retry_returns [where early = False]) (simp_all add: steps)
  qed (simp_all add: c)
qed

section \<open>shm\_atomics.cpp: main\<close>

text \<open>The child pushes \<open>0, ..., N - 1\<close>, repeating a \<^verbatim>\<open>Push\<close> that found the stack full, and exits; the
  parent pops until it has \<open>N\<close> values and then waits for the child; each ends with a message. Both are one step at a
  time; the destructor of the stack is trivial, and unmapping the memory of the parent changes nothing else.\<close>

datatype shm_parent = ShLoop | ShWait | ShDone

datatype shm_label = ShChild bool | ShParent bool

record shm_state =
  sh_stack :: "int bstack"
  sh_i :: nat
  sh_exited :: bool
  sh_got :: "int list"
  sh_parent :: shm_parent
  sh_exits :: "process list"

definition shm_init :: "nat \<Rightarrow> shm_state" where
  "shm_init Capacity =
     \<lparr>sh_stack = bstack_init Capacity 0, sh_i = 0, sh_exited = False, sh_got = [], sh_parent = ShLoop, sh_exits = []\<rparr>"

fun shm_step :: "nat \<Rightarrow> nat \<Rightarrow> (shm_label, shm_state) machine" where
  "shm_step Capacity N (ShChild c) s =
     (if sh_exited s then None
      else if sh_i s < N
      then (case Buffered_Push Capacity 0 c (int (sh_i s)) (sh_stack s) of
              (k, r) \<Rightarrow> Some (s\<lparr>sh_stack := k, sh_i := if r = Some True then Suc (sh_i s) else sh_i s\<rparr>))
      else Some (s\<lparr>sh_exits := sh_exits s @ [Child], sh_exited := True\<rparr>))"
| "shm_step Capacity N (ShParent c) s =
     (case sh_parent s of
        ShLoop \<Rightarrow>
          if length (sh_got s) < N
          then (case Buffered_Pop 0 c (sh_stack s) of
                  (k, r) \<Rightarrow> Some (s\<lparr>sh_stack := k,
                    sh_got := (case r of Some (Some v) \<Rightarrow> sh_got s @ [v] | _ \<Rightarrow> sh_got s)\<rparr>))
          else Some (s\<lparr>sh_parent := ShWait\<rparr>)
      | ShWait \<Rightarrow> if sh_exited s then Some (s\<lparr>sh_exits := sh_exits s @ [Parent], sh_parent := ShDone\<rparr>) else None
      | ShDone \<Rightarrow> None)"

definition shm_final :: "shm_state \<Rightarrow> bool" where
  "shm_final s \<longleftrightarrow> sh_exited s \<and> sh_parent s = ShDone"

text \<open>\<^verbatim>\<open>main\<close>: a failed set-up, or a complete run.\<close>

definition shm_atomics_main :: "bool \<Rightarrow> string \<Rightarrow> int \<Rightarrow> failure + shm_state \<Rightarrow> bool" where
  "shm_atomics_main mmap_ok strerror pid r =
     (case in_order [check_pointer ''mmap failed'' strerror mmap_ok, CHECK_ERROR pid] of
        Inl f \<Rightarrow> r = Inl f
      | Inr _ \<Rightarrow> (\<exists>s. r = Inr s \<and> reach (shm_step 1024 1000000) (shm_init 1024) s \<and> shm_final s))"

text \<open>Elements published by an exchange of \<^verbatim>\<open>Push\<close>, and claimed by one of \<^verbatim>\<open>Pop\<close>; their difference
  is the index.\<close>

definition sh_published :: "shm_state \<Rightarrow> nat" where
  "sh_published s = sh_i s + (case b_push (sh_stack s) 0 of BPushWrite _ \<Rightarrow> 1 | _ \<Rightarrow> 0)"

definition sh_claimed :: "shm_state \<Rightarrow> nat" where
  "sh_claimed s = length (sh_got s) + (case b_pop (sh_stack s) 0 of BPopRead _ \<Rightarrow> 1 | _ \<Rightarrow> 0)"

definition shm_inv :: "nat \<Rightarrow> nat \<Rightarrow> shm_state \<Rightarrow> bool" where
  "shm_inv Capacity N s \<longleftrightarrow>
     bstack_inv Capacity (sh_stack s) \<and>
     b_head (sh_stack s) = int (sh_published s) - int (sh_claimed s) \<and>
     sh_published s \<le> N \<and>
     (sh_exited s \<longrightarrow> sh_i s = N) \<and> (sh_parent s \<noteq> ShLoop \<longrightarrow> length (sh_got s) = N) \<and>
     (sh_parent s = ShDone \<longrightarrow> sh_exited s)"

lemma shm_inv_child:
  assumes inv: "shm_inv Capacity N s" and st: "shm_step Capacity N (ShChild c) s = Some s'"
  shows "shm_inv Capacity N s'"
proof (cases "sh_i s < N")
  case True
  let ?k = "sh_stack s"
  obtain k r where p: "Buffered_Push Capacity 0 c (int (sh_i s)) ?k = (k, r)" by fastforce
  have s': "s' = s\<lparr>sh_stack := k, sh_i := if r = Some True then Suc (sh_i s) else sh_i s\<rparr>"
    using st True p by (auto split: if_splits)
  have k: "bstack_inv Capacity k"
    using bstack_inv_push [of Capacity ?k 0 c "int (sh_i s)"] inv p by (simp add: shm_inv_def)
  have ok: "b_push_ok Capacity (b_push ?k 0)" "length (m_buffer ?k) = Capacity"
    using inv by (simp_all add: shm_inv_def bstack_inv_def)
  have "\<not> sh_exited s" using st by (auto split: if_splits)
  then show ?thesis using inv k p ok True
    by (cases "b_push ?k 0")
      (auto simp: shm_inv_def s' Buffered_Push_def sh_published_def sh_claimed_def top_ok_def split: if_splits)
qed (use assms in \<open>auto simp: shm_inv_def sh_published_def sh_claimed_def split: if_splits b_push_pc.splits\<close>)

lemma shm_inv_parent:
  assumes inv: "shm_inv Capacity N s" and st: "shm_step Capacity N (ShParent c) s = Some s'"
  shows "shm_inv Capacity N s'"
proof (cases "sh_parent s = ShLoop \<and> length (sh_got s) < N")
  case True
  let ?k = "sh_stack s"
  obtain k r where p: "Buffered_Pop 0 c ?k = (k, r)" by fastforce
  have s': "s' = s\<lparr>sh_stack := k, sh_got := (case r of Some (Some v) \<Rightarrow> sh_got s @ [v] | _ \<Rightarrow> sh_got s)\<rparr>"
    using st True p by auto
  have k: "bstack_inv Capacity k"
    using bstack_inv_pop [of Capacity ?k 0 c] inv p by (simp add: shm_inv_def)
  have ok: "b_pop_ok Capacity (b_pop ?k 0)" "length (m_buffer ?k) = Capacity"
    using inv by (simp_all add: shm_inv_def bstack_inv_def)
  show ?thesis using inv k p ok True
    by (cases "b_pop ?k 0")
      (auto simp: shm_inv_def s' Buffered_Pop_def sh_published_def sh_claimed_def top_ok_def split: if_splits)
next
  case False
  have "length (sh_got s) \<le> N"
    using inv unfolding shm_inv_def bstack_inv_def top_ok_def sh_claimed_def by (auto split: b_pop_pc.splits)
  then show ?thesis using False assms
    by (cases "sh_parent s") (auto simp: shm_inv_def sh_published_def sh_claimed_def split: if_splits)
qed

text \<open>Remaining work of a call: what the other process does to the index can make a loaded value
  stale, but only together with progress of its own.\<close>

definition b_push_work :: "nat \<Rightarrow> 'v bstack \<Rightarrow> nat" where
  "b_push_work Capacity k =
     (case b_push k 0 of
        BPushLoad \<Rightarrow> 3
      | BPushCas i \<Rightarrow> if i = b_head k \<and> i \<noteq> int Capacity then 2 else 4
      | BPushWrite _ \<Rightarrow> 4)"

definition b_pop_work :: "'v bstack \<Rightarrow> nat" where
  "b_pop_work k =
     (case b_pop k 0 of
        BPopLoad \<Rightarrow> 3
      | BPopCas i \<Rightarrow> if i = b_head k \<and> i \<noteq> 0 then 2 else 4
      | BPopRead _ \<Rightarrow> 4)"

lemma b_work_le: "b_push_work Capacity k \<le> 4" "2 \<le> b_push_work Capacity k" "b_pop_work k \<le> 4" "2 \<le> b_pop_work k"
  by (auto simp: b_push_work_def b_pop_work_def split: b_push_pc.splits b_pop_pc.splits)

definition shm_rank :: "nat \<Rightarrow> nat \<Rightarrow> shm_state \<Rightarrow> nat" where
  "shm_rank Capacity N s =
     10 * (N - sh_published s) + 10 * (N - sh_claimed s) +
     b_push_work Capacity (sh_stack s) + b_pop_work (sh_stack s) +
     (if sh_exited s then 0 else 1) + (case sh_parent s of ShLoop \<Rightarrow> 2 | ShWait \<Rightarrow> 1 | ShDone \<Rightarrow> 0)"

text \<open>A call in progress, and a call whose index is not at the limit, can advance.\<close>

lemma shm_push_progress:
  assumes inv: "shm_inv Capacity N s" and run: "\<not> sh_exited s" "sh_i s < N"
    and busy: "b_push (sh_stack s) 0 \<noteq> BPushLoad \<or> b_head (sh_stack s) \<noteq> int Capacity"
  shows "\<exists>s'. shm_step Capacity N (ShChild False) s = Some s' \<and> shm_rank Capacity N s' < shm_rank Capacity N s"
proof -
  let ?k = "sh_stack s"
  have ok: "b_push_ok Capacity (b_push ?k 0)" "length (m_buffer ?k) = Capacity"
    using inv by (simp_all add: shm_inv_def bstack_inv_def)
  show ?thesis
  proof (cases "b_push ?k 0")
    case BPushLoad
    then show ?thesis using run busy
      by (auto simp: Buffered_Push_def shm_rank_def sh_published_def sh_claimed_def b_push_work_def b_pop_work_def
          split: b_pop_pc.splits)
  next
    case (BPushCas i)
    show ?thesis
    proof (cases "i = b_head ?k \<and> i \<noteq> int Capacity")
      case True
      then show ?thesis using run BPushCas
        by (auto simp: Buffered_Push_def shm_rank_def sh_published_def sh_claimed_def b_push_work_def b_pop_work_def
            split: b_pop_pc.splits)
    next
      case False
      then show ?thesis using run BPushCas
        by (auto simp: Buffered_Push_def shm_rank_def sh_published_def sh_claimed_def b_push_work_def b_pop_work_def
            split: b_pop_pc.splits)
    qed
  next
    case (BPushWrite i)
    then show ?thesis using run ok
      by (auto simp: Buffered_Push_def shm_rank_def sh_published_def sh_claimed_def b_push_work_def b_pop_work_def
          top_ok_def split: b_pop_pc.splits)
  qed
qed

lemma shm_pop_progress:
  assumes inv: "shm_inv Capacity N s" and run: "sh_parent s = ShLoop" "length (sh_got s) < N"
    and busy: "b_pop (sh_stack s) 0 \<noteq> BPopLoad \<or> b_head (sh_stack s) \<noteq> 0"
  shows "\<exists>s'. shm_step Capacity N (ShParent False) s = Some s' \<and> shm_rank Capacity N s' < shm_rank Capacity N s"
proof -
  let ?k = "sh_stack s"
  have ok: "b_pop_ok Capacity (b_pop ?k 0)" "length (m_buffer ?k) = Capacity"
    using inv by (simp_all add: shm_inv_def bstack_inv_def)
  show ?thesis
  proof (cases "b_pop ?k 0")
    case BPopLoad
    then show ?thesis using run busy
      by (auto simp: Buffered_Pop_def shm_rank_def sh_published_def sh_claimed_def b_push_work_def b_pop_work_def
          split: b_push_pc.splits)
  next
    case (BPopCas i)
    show ?thesis
    proof (cases "i = b_head ?k \<and> i \<noteq> 0")
      case True
      then show ?thesis using run BPopCas
        by (auto simp: Buffered_Pop_def shm_rank_def sh_published_def sh_claimed_def b_push_work_def b_pop_work_def
            split: b_push_pc.splits)
    next
      case False
      then show ?thesis using run BPopCas
        by (auto simp: Buffered_Pop_def shm_rank_def sh_published_def sh_claimed_def b_push_work_def b_pop_work_def
            split: b_push_pc.splits)
    qed
  next
    case (BPopRead i)
    then show ?thesis using run ok Buffered_Pop_read [of ?k 0 i False]
      by (auto simp: shm_rank_def sh_published_def sh_claimed_def b_push_work_def b_pop_work_def top_ok_def
          split: b_push_pc.splits)
  qed
qed

text \<open>Somebody can always advance: a full stack has an element for the parent, and if the child
  has pushed everything, what the parent still lacks is on the stack.\<close>

lemma shm_cases:
  assumes inv: "shm_inv Capacity N s" and nf: "\<not> shm_final s" and cap: "0 < Capacity"
  obtains (push) "\<not> sh_exited s" "sh_i s < N" "b_push (sh_stack s) 0 \<noteq> BPushLoad \<or> b_head (sh_stack s) \<noteq> int Capacity"
    | (exit) "\<not> sh_exited s" "\<not> sh_i s < N"
    | (pop) "sh_parent s = ShLoop" "length (sh_got s) < N" "b_pop (sh_stack s) 0 \<noteq> BPopLoad \<or> b_head (sh_stack s) \<noteq> 0"
    | (leave) "sh_parent s = ShLoop" "\<not> length (sh_got s) < N"
    | (wait) "sh_parent s = ShWait" "sh_exited s"
proof -
  let ?k = "sh_stack s"
  have head: "b_head ?k = int (sh_published s) - int (sh_claimed s)" "sh_published s \<le> N"
    and exi: "sh_exited s \<Longrightarrow> sh_i s = N" and par: "sh_parent s \<noteq> ShLoop \<Longrightarrow> length (sh_got s) = N"
    using inv by (auto simp: shm_inv_def)
  have got: "length (sh_got s) \<le> sh_claimed s" "sh_i s \<le> sh_published s"
    by (auto simp: sh_claimed_def sh_published_def)
  show thesis
  proof (cases "sh_exited s")
    case True
    have "sh_published s = N" using exi [OF True] got(2) head(2) by simp
    moreover have "sh_claimed s = length (sh_got s)" if "b_pop ?k 0 = BPopLoad" using that by (simp add: sh_claimed_def)
    ultimately have *: "b_pop ?k 0 \<noteq> BPopLoad \<or> b_head ?k \<noteq> 0" if "length (sh_got s) < N"
      using that head(1) by fastforce
    show thesis
    proof (cases "sh_parent s")
      case ShLoop
      show thesis using pop [OF ShLoop] leave [OF ShLoop] * by (cases "length (sh_got s) < N") simp_all
    next
      case ShWait
      then show thesis using True by (rule wait)
    next
      case ShDone
      then show thesis using True nf by (simp add: shm_final_def)
    qed
  next
    case False
    show thesis
    proof (cases "sh_i s < N \<and> b_push ?k 0 = BPushLoad \<and> b_head ?k = int Capacity")
      case True
      then have c: "sh_claimed s < N" "b_head ?k \<noteq> 0" using head cap by linarith+
      then have "length (sh_got s) < N" using got(1) by simp
      moreover from this have "sh_parent s = ShLoop" using par by force
      ultimately show thesis using pop c(2) by simp
    next
      case no: False
      show thesis
      proof (cases "sh_i s < N")
        case True
        then show thesis using push [OF False] no by blast
      next
        case no_more: False
        show thesis using False no_more by (rule exit)
      qed
    qed
  qed
qed

lemma shm_progress:
  assumes inv: "shm_inv Capacity N s" and nf: "\<not> shm_final s" and cap: "0 < Capacity"
  shows "\<exists>l s'. shm_step Capacity N l s = Some s' \<and> shm_rank Capacity N s' < shm_rank Capacity N s"
  using inv nf cap
proof (cases rule: shm_cases)
  case push
  then show ?thesis using shm_push_progress [OF inv] by blast
next
  case exit
  then have "shm_step Capacity N (ShChild False) s = Some (s\<lparr>sh_exits := sh_exits s @ [Child], sh_exited := True\<rparr>)" by simp
  then show ?thesis using exit by (fastforce simp: shm_rank_def sh_published_def sh_claimed_def)
next
  case pop
  then show ?thesis using shm_pop_progress [OF inv] by blast
next
  case leave
  then have "shm_step Capacity N (ShParent False) s = Some (s\<lparr>sh_parent := ShWait\<rparr>)" by simp
  then show ?thesis using leave by (fastforce simp: shm_rank_def sh_published_def sh_claimed_def)
next
  case wait
  then have "shm_step Capacity N (ShParent False) s = Some (s\<lparr>sh_exits := sh_exits s @ [Parent], sh_parent := ShDone\<rparr>)" by simp
  then show ?thesis using wait by (fastforce simp: shm_rank_def sh_published_def sh_claimed_def)
qed

text \<open>The source has 1024 slots.\<close>

interpretation shm: machine_live "shm_step 1024 N" "shm_init 1024" "shm_inv 1024 N" "shm_rank 1024 N" shm_final for N
proof unfold_locales
  show "shm_inv 1024 N (shm_init 1024)"
    by (simp add: shm_inv_def shm_init_def bstack_inv_init, simp add: bstack_init_def sh_published_def sh_claimed_def)
  show "shm_inv 1024 N s'" if "shm_inv 1024 N s" "shm_step 1024 N l s = Some s'" for s l s'
    using that by (cases l) (blast intro: shm_inv_child shm_inv_parent)+
  show "\<exists>l s'. shm_step 1024 N l s = Some s' \<and> shm_rank 1024 N s' < shm_rank 1024 N s"
    if "shm_inv 1024 N s" "\<not> shm_final s" for s
    using that by (rule shm_progress) simp
qed

lemma shm_final_empty:
  assumes "shm_inv Capacity N s" "shm_final s"
  shows "length (sh_got s) = N \<and> sh_i s = N \<and> b_head (sh_stack s) = 0"
  using assms unfolding shm_inv_def shm_final_def bstack_inv_def top_ok_def sh_published_def sh_claimed_def
  by (auto split: b_push_pc.splits b_pop_pc.splits)

text \<open>The child exits first.\<close>

definition shm_exit_order :: "shm_state \<Rightarrow> bool" where
  "shm_exit_order s \<longleftrightarrow>
     sh_exits s = (if sh_exited s then [Child] else []) @ (if sh_parent s = ShDone then [Parent] else []) \<and>
     (sh_parent s = ShDone \<longrightarrow> sh_exited s)"

lemma shm_exit_order_step: "shm_exit_order s \<Longrightarrow> shm_step Capacity N l s = Some s' \<Longrightarrow> shm_exit_order s'"
  by (cases l) (auto simp: shm_exit_order_def split: if_splits prod.splits shm_parent.splits)

interpretation shm_exits: machine_inv "shm_step Capacity N" "shm_init Capacity" shm_exit_order for Capacity N
  by unfold_locales (simp add: shm_exit_order_def shm_init_def, rule shm_exit_order_step)

text \<open>Values once received stay received.\<close>

lemma shm_got_step: "shm_step Capacity N l s = Some s' \<Longrightarrow> \<exists>vs. sh_got s' = sh_got s @ vs"
  by (cases l) (auto split: if_splits prod.splits option.splits shm_parent.splits)

lemma shm_got_grows: "reach (shm_step Capacity N) s s' \<Longrightarrow> \<exists>vs. sh_got s' = sh_got s @ vs"
proof (induction rule: reach.induct)
  case reach_init
  then show ?case by simp
next
  case (reach_step s1 l s2)
  then show ?case using shm_got_step [OF reach_step.hyps(2)] by auto
qed

text \<open>The parent takes element 1 between the child's exchange and its write.\<close>

definition overtake :: "shm_label list" where
  "overtake =
     [ShChild False, ShChild False, ShChild False, ShParent False, ShParent False, ShParent False,
      ShChild False, ShChild False, ShParent False, ShParent False, ShParent False]"

lemma overtake_run:
  assumes "0 < Capacity" "2 \<le> N"
  shows "\<exists>s. run (shm_step Capacity N) overtake (shm_init Capacity) = Some s \<and> sh_got s = [0, 0]"
  using assms by (simp add: overtake_def shm_init_def bstack_init_def Buffered_Push_def Buffered_Pop_def)

section \<open>Properties\<close>

text \<open>C8: with any number of threads the index of the buffered stack stays between 0 and \<^verbatim>\<open>Capacity\<close>
  and the array is never accessed outside its bounds.\<close>

theorem buffered_bounds:
  assumes "reach (b_step Capacity) (bstack_init Capacity v0) k"
  shows "0 \<le> b_head k \<and> b_head k \<le> int Capacity \<and> length (m_buffer k) = Capacity \<and> \<not> b_oob k"
  using bst.reach_inv [OF assms] by (simp add: bstack_inv_def top_ok_def)

theorem buffered_bounds_witness:
  "\<exists>k. reach (b_step 1) (bstack_init 1 (0 :: int)) k \<and> m_buffer k = [5] \<and> \<not> b_oob k"
proof -
  let ?ls = "[BDoPush 0 False (5 :: int), BDoPush 0 True 5, BDoPush 0 False 5, BDoPush 0 False 5, BDoPush 0 False 5,
    BDoPop 0 False, BDoPop 1 False, BDoPop 0 False, BDoPop 1 False, BDoPop 0 False]"
  obtain k where k: "run (b_step 1) ?ls (bstack_init 1 (0 :: int)) = Some k" "m_buffer k = [5]"
    by (simp add: bstack_init_def Buffered_Push_def Buffered_Pop_def)
  have "reach (b_step 1) (bstack_init 1 (0 :: int)) k" using k(1) by (rule run_imp_reach)
  then show ?thesis using buffered_bounds [of 1 0 k] k(2) by blast
qed

text \<open>C9: a call of \<^verbatim>\<open>Push\<close> or \<^verbatim>\<open>Pop\<close> whose thread runs alone behaves as on a bounded stack, from every
  state that any threads can reach and in which this thread is between calls. Whatever weak exchanges fail
  spuriously, and however often, the call either is still retrying or has returned the one correct
  result, and it has returned after three steps and two more for each spurious failure. \<^verbatim>\<open>Push\<close> returns
  whether there was room and adds its value on top if so; \<^verbatim>\<open>Pop\<close> returns and removes the top, or returns
  nothing when the stack is empty. The new state is again reachable, so this applies to the next call.\<close>

theorem buffered_push_pop:
  assumes "reach (b_step Capacity) (bstack_init Capacity v0) k"
    and "b_push k t = BPushLoad" "b_pop k u = BPopLoad"
  shows "(\<exists>k1. reach (b_step Capacity) k k1 \<and> b_push k1 = b_push k \<and> b_pop k1 = b_pop k \<and>
      b_contents k1 = (if length (b_contents k) < Capacity then v # b_contents k else b_contents k) \<and>
      (\<forall>cs. push_alone Capacity t v cs k \<in> {None, Some (k1, length (b_contents k) < Capacity)} \<and>
        (3 + 2 * count_list cs True \<le> length cs \<longrightarrow>
           push_alone Capacity t v cs k = Some (k1, length (b_contents k) < Capacity)))) \<and>
    (\<exists>k2. reach (b_step Capacity) k k2 \<and> b_push k2 = b_push k \<and> b_pop k2 = b_pop k \<and>
      b_contents k2 = tl (b_contents k) \<and>
      (\<forall>cs. pop_alone u cs k \<in> {None, Some (k2, b_top k)} \<and>
        (3 + 2 * count_list cs True \<le> length cs \<longrightarrow> pop_alone u cs k = Some (k2, b_top k))))"
proof -
  have inv: "bstack_inv Capacity k" using assms(1) by (rule bst.reach_inv)
  obtain k1 where k1: "b_push k1 = b_push k" "b_pop k1 = b_pop k"
    "b_contents k1 = (if length (b_contents k) < Capacity then v # b_contents k else b_contents k)"
    "\<And>cs. push_alone Capacity t v cs k \<in> {None, Some (k1, length (b_contents k) < Capacity)} \<and>
       (3 + 2 * count_list cs True \<le> length cs \<longrightarrow>
          push_alone Capacity t v cs k = Some (k1, length (b_contents k) < Capacity))"
    using push_alone_correct [OF inv assms(2), where v = v] by metis
  have r1: "reach (b_step Capacity) k k1"
    by (rule push_alone_reach [where cs = "replicate 3 False", OF mp [OF conjunct2 [OF k1(4)]]]) (simp add: numeral_3_eq_3)
  obtain k2 where k2: "b_push k2 = b_push k" "b_pop k2 = b_pop k" "b_contents k2 = tl (b_contents k)"
    "\<And>cs. pop_alone u cs k \<in> {None, Some (k2, b_top k)} \<and>
       (3 + 2 * count_list cs True \<le> length cs \<longrightarrow> pop_alone u cs k = Some (k2, b_top k))"
    using pop_alone_correct [OF inv assms(3)] by metis
  have r2: "reach (b_step Capacity) k k2"
    by (rule pop_alone_reach [where cs = "replicate 3 False", OF mp [OF conjunct2 [OF k2(4)]]]) (simp add: numeral_3_eq_3)
  show ?thesis using k1 k2 r1 r2 by blast
qed

theorem buffered_push_pop_witness:
  "\<exists>k1 k2. push_alone 2 0 (5 :: int) [False, True, True, False, False] (bstack_init 2 0) = Some (k1, True) \<and>
    pop_alone 1 [False, True, False, False, False] k1 = Some (k2, Some 5) \<and> b_contents k2 = []"
proof -
  let ?k = "bstack_init 2 (0 :: int)"
  have k: "b_push ?k t = BPushLoad" "b_pop ?k t = BPopLoad" "b_contents ?k = []" for t
    by (simp_all add: bstack_init_def b_contents_def)
  let ?cs = "[False, True, True, False, False]" and ?ds = "[False, True, False, False, False]"
  have p: "push_alone 2 0 5 ?cs ?k \<noteq> None"
    by (simp add: bstack_init_def Buffered_Push_def)
  obtain k1 where k1: "reach (b_step 2) ?k k1" "b_push k1 = b_push ?k" "b_pop k1 = b_pop ?k"
    "b_contents k1 = (if length (b_contents ?k) < 2 then 5 # b_contents ?k else b_contents ?k)"
    "push_alone 2 0 5 ?cs ?k \<in> {None, Some (k1, length (b_contents ?k) < 2)}"
    using buffered_push_pop [where Capacity = 2 and ?v0.0 = 0 and k = ?k and t = 0 and u = 1 and v = 5, OF reach_init k(1,2)]
    by (elim conjE exE allE [of _ ?cs]) blast
  then have c1: "b_contents k1 = [5]" and push: "push_alone 2 0 5 ?cs ?k = Some (k1, True)" using p k(3) by auto
  have idle: "b_push k1 0 = BPushLoad" "b_pop k1 1 = BPopLoad" using k k1(2,3) by simp_all
  obtain k2 where "b_contents k2 = tl (b_contents k1)" "3 + 2 * count_list ?ds True \<le> length ?ds \<longrightarrow> pop_alone 1 ?ds k1 = Some (k2, b_top k1)"
    using buffered_push_pop [where Capacity = 2 and ?v0.0 = 0 and k = k1 and t = 0 and u = 1 and v = 5, OF k1(1) idle]
    by (elim conjE exE allE [of _ ?ds]) blast
  then show ?thesis using c1 push by (auto simp: b_top_def)
qed

text \<open>C11: the program of \<^verbatim>\<open>shm_atomics.cpp\<close> does not deadlock: from every reachable state both
  processes can still finish, the child first, and then the parent has received exactly \<open>N\<close> values and the
  stack is empty.\<close>

theorem shm_main_completes:
  assumes "reach (shm_step 1024 N) (shm_init 1024) s"
  shows "\<exists>s'. reach (shm_step 1024 N) s s' \<and> shm_final s' \<and> length (sh_got s') = N \<and> b_head (sh_stack s') = 0 \<and>
    sh_exits s' = [Child, Parent]"
proof -
  obtain s' where s': "reach (shm_step 1024 N) s s'" "shm_final s'" using shm.final_reachable [OF assms] by blast
  have "shm_inv 1024 N s'" using reach_trans [OF assms s'(1)] by (rule shm.reach_inv)
  moreover have "sh_exits s' = [Child, Parent]" using shm_exits.reach_inv [OF reach_trans [OF assms s'(1)]] s'(2) by (simp add: shm_exit_order_def shm_final_def)
  ultimately show ?thesis using s' shm_final_empty by blast
qed

theorem shm_main_completes_witness:
  "\<exists>s. reach (shm_step 1024 1000000) (shm_init 1024) s \<and> shm_final s \<and> length (sh_got s) = 1000000"
  using shm_main_completes [OF reach_init, of 1000000] by blast

text \<open>C10: the values are not all right, though. \<^verbatim>\<open>Push\<close> publishes the new index before it writes the
  element, so \<^verbatim>\<open>Pop\<close> can return what the slot held before: a complete run of \<^verbatim>\<open>shm_atomics.cpp\<close>
  can receive 0 twice in a row, although each number is pushed once.\<close>

theorem shm_main_stale_value:
  "\<exists>s. reach (shm_step 1024 1000000) (shm_init 1024) s \<and> shm_final s \<and> take 2 (sh_got s) = [0, 0]"
proof -
  obtain s where s: "run (shm_step 1024 1000000) overtake (shm_init 1024) = Some s" "sh_got s = [0, 0]"
    using overtake_run [of 1024 1000000] by auto
  have r: "reach (shm_step 1024 1000000) (shm_init 1024) s" using s(1) by (rule run_imp_reach)
  obtain s' where s': "reach (shm_step 1024 1000000) s s'" "shm_final s'" using shm.final_reachable [OF r] by blast
  obtain vs where "sh_got s' = [0, 0] @ vs" using shm_got_grows [OF s'(1)] s(2) by auto
  then show ?thesis using reach_trans [OF r s'(1)] s'(2) by auto
qed

end
