(* ===== verification/Shm_Channel.thy ===== *)
theory Shm_Channel
  imports Sys_Error
begin

text \<open>
  \<^verbatim>\<open>ipc/shm_intro.cpp\<close> and \<^verbatim>\<open>ipc/mmap_intro.cpp\<close>: a parent hands the lines of its standard input to
  a child through a \<^verbatim>\<open>SharedData\<close> in shared memory, guarded by two semaphores. The two programs
  differ in how the memory is mapped and in what they clean up (\<open>shm_intro_setup\<close>, \<open>mmap_intro_setup\<close>, \<open>clean_ups\<close>) and run
  the same protocol, which is one machine here. Each access to the shared memory, each print and each system call is a step, and
  every checked call may fail, on which its process exits.

  A message of size 0 is the protocol's end mark, but an empty line of input is also sent as a
  message of size 0: the child takes it for the end and exits, and the parent waits for ever for
  the acknowledgement.
\<close>

section \<open>Shared memory\<close>

text \<open>\<^verbatim>\<open>BufferSize = 4096 - sizeof(uint32_t)\<close>.\<close>

definition BufferSize :: nat where
  "BufferSize = 4092"

record shared_data =
  m_messageSize :: "32 word"
  sd_buffer :: string

definition shared_data_init :: shared_data where
  "shared_data_init = \<lparr>m_messageSize = 0, sd_buffer = replicate BufferSize (CHR 0x00)\<rparr>"

text \<open>\<^verbatim>\<open>memset\<close> to zero and \<^verbatim>\<open>memcpy\<close> of at most \<^verbatim>\<open>BufferSize\<close> bytes.\<close>

definition fill_buffer :: "string \<Rightarrow> string" where
  "fill_buffer input =
     take BufferSize input @ replicate (BufferSize - min (length input) BufferSize) (CHR 0x00)"

lemma fill_buffer_length [simp]: "length (fill_buffer input) = BufferSize"
  by (simp add: fill_buffer_def)

lemma print_fill_buffer:
  assumes "length input < BufferSize" "CHR 0x00 \<notin> set input"
  shows "print_c_string (fill_buffer input) = Some input"
proof -
  have "fill_buffer input = input @ replicate (BufferSize - length input) (CHR 0x00)"
    using assms(1) by (simp add: fill_buffer_def)
  then show ?thesis using print_padded [OF assms(2)] assms(1) by simp
qed

text \<open>A line of \<^verbatim>\<open>BufferSize\<close> or more characters leaves no room for the terminating zero.\<close>

lemma print_fill_buffer_overrun:
  assumes "BufferSize \<le> length input" "CHR 0x00 \<notin> set input"
  shows "print_c_string (fill_buffer input) = None"
  using assms by (auto simp: fill_buffer_def dest: in_set_takeD intro!: print_overrun)

section \<open>The two processes\<close>

datatype shm_prog = ShmIntro | MmapIntro

text \<open>What is printed. The content of a message is printed as a C string; \<open>None\<close> if it runs past the end of the buffer.\<close>

datatype sh_line = Wrote nat | ReadSize nat | Content "string option" | ChildExit | ParentExit

fun sh_text :: "sh_line \<Rightarrow> string option" where
  "sh_text (Wrote n) = Some (''[PARENT]: wrote '' @ show_nat n @ '' bytes'')"
| "sh_text (ReadSize n) = Some (''[CHILD]: read message of size: '' @ show_nat n)"
| "sh_text (Content c) = map_option (\<lambda>c. ''[CHILD]: content: '' @ c) c"
| "sh_text ChildExit = Some ''[CHILD]: exited''"
| "sh_text ParentExit = Some ''[PARENT]: exited''"

text \<open>The clean-up calls of the parent.\<close>

datatype clean_up = UnlinkSema string | UnmapMemory | UnlinkMemory string

fun clean_ups :: "shm_prog \<Rightarrow> clean_up list" where
  "clean_ups ShmIntro = [UnlinkSema ''/read_done_sema'', UnlinkSema ''/write_sema'', UnmapMemory, UnlinkMemory ''/kafka'']"
| "clean_ups MmapIntro = [UnlinkSema ''/read_done_sema'', UnlinkSema ''/write_sema'', UnmapMemory]"

fun clean_name :: "clean_up \<Rightarrow> string list \<Rightarrow> string list" where
  "clean_name (UnlinkSema x) names = removeAll x names"
| "clean_name UnmapMemory names = names"
| "clean_name (UnlinkMemory x) names = removeAll x names"

fun created_names :: "shm_prog \<Rightarrow> string list" where
  "created_names ShmIntro = [''/write_sema'', ''/read_done_sema'', ''/kafka'']"
| "created_names MmapIntro = [''/write_sema'', ''/read_done_sema'']"

text \<open>Program points of the parent: before \<^verbatim>\<open>getline\<close>; before the write of the size, of the buffer, the print,
  \<^verbatim>\<open>sem_post(writeDoneSema)\<close>, \<^verbatim>\<open>sem_wait(readDoneSema)\<close>; after the last line before the write of
  the end mark, \<^verbatim>\<open>sem_post\<close>, \<^verbatim>\<open>wait\<close>; with the clean-up calls still to make, before its last print; exited. Of the child: before
  \<^verbatim>\<open>sem_wait(writeDoneSema)\<close>, the test of the size, the two prints, \<^verbatim>\<open>sem_post(readDoneSema)\<close>; after the loop before the two
  \<^verbatim>\<open>sem_close\<close>, its last print; exited.\<close>

datatype sh_ppc =
    PGetline | PSize string | PBuffer string | PPrint string | PPost string | PAwait string
  | PEndMark | PEndPost | PWaitChild | PClean "clean_up list" | PExited

datatype sh_cpc = CAwait | CCheck | CPrintSize | CPrintContent | CPost | CCloseRead | CCloseWrite | CPrintExit | CExited

text \<open>\<open>ch_names\<close>: the names of semaphores and shared memory that exist; \<open>ch_failed\<close>: the processes that have exited because a call
  failed.\<close>

record chan_state =
  ch_data :: shared_data
  ch_writeDone :: nat
  ch_readDone :: nat
  ch_ppc :: sh_ppc
  ch_input :: "string list"
  ch_cpc :: sh_cpc
  ch_names :: "string list"
  ch_failed :: "process \<Rightarrow> bool"
  ch_out :: "sh_line list"

text \<open>The semaphores start with the values \<^verbatim>\<open>sem_open\<close> found.\<close>

definition chan_init :: "shm_prog \<Rightarrow> nat \<times> nat \<Rightarrow> string list \<Rightarrow> chan_state" where
  "chan_init prog sems lines =
     \<lparr>ch_data = shared_data_init, ch_writeDone = fst sems, ch_readDone = snd sems, ch_ppc = PGetline, ch_input = lines,
      ch_cpc = CAwait, ch_names = created_names prog, ch_failed = (\<lambda>_. False), ch_out = []\<rparr>"

definition parent_step :: "shm_prog \<Rightarrow> chan_state \<Rightarrow> chan_state option" where
  "parent_step prog s =
     (case ch_ppc s of
        PGetline \<Rightarrow>
          (case ch_input s of
             [] \<Rightarrow> Some (s\<lparr>ch_ppc := PEndMark\<rparr>)
           | input # rest \<Rightarrow> Some (s\<lparr>ch_ppc := PSize input, ch_input := rest\<rparr>))
      | PSize input \<Rightarrow>
          Some (s\<lparr>ch_data := (ch_data s)\<lparr>m_messageSize := word_of_nat (length input)\<rparr>, ch_ppc := PBuffer input\<rparr>)
      | PBuffer input \<Rightarrow>
          Some (s\<lparr>ch_data := (ch_data s)\<lparr>sd_buffer := fill_buffer input\<rparr>, ch_ppc := PPrint input\<rparr>)
      | PPrint input \<Rightarrow> Some (s\<lparr>ch_out := ch_out s @ [Wrote (length input)], ch_ppc := PPost input\<rparr>)
      | PPost input \<Rightarrow> Some (s\<lparr>ch_writeDone := Suc (ch_writeDone s), ch_ppc := PAwait input\<rparr>)
      | PAwait input \<Rightarrow>
          (case ch_readDone s of
             0 \<Rightarrow> None
           | Suc n \<Rightarrow> Some (s\<lparr>ch_readDone := n, ch_ppc := PGetline\<rparr>))
      | PEndMark \<Rightarrow> Some (s\<lparr>ch_data := (ch_data s)\<lparr>m_messageSize := 0\<rparr>, ch_ppc := PEndPost\<rparr>)
      | PEndPost \<Rightarrow> Some (s\<lparr>ch_writeDone := Suc (ch_writeDone s), ch_ppc := PWaitChild\<rparr>)
      | PWaitChild \<Rightarrow>
          if ch_cpc s = CExited \<or> ch_failed s Child then Some (s\<lparr>ch_ppc := PClean (clean_ups prog)\<rparr>) else None
      | PClean (c # cs) \<Rightarrow> Some (s\<lparr>ch_names := clean_name c (ch_names s), ch_ppc := PClean cs\<rparr>)
      | PClean [] \<Rightarrow> Some (s\<lparr>ch_out := ch_out s @ [ParentExit], ch_ppc := PExited\<rparr>)
      | PExited \<Rightarrow> None)"

definition child_step :: "chan_state \<Rightarrow> chan_state option" where
  "child_step s =
     (case ch_cpc s of
        CAwait \<Rightarrow>
          (case ch_writeDone s of
             0 \<Rightarrow> None
           | Suc n \<Rightarrow> Some (s\<lparr>ch_writeDone := n, ch_cpc := CCheck\<rparr>))
      | CCheck \<Rightarrow> Some (s\<lparr>ch_cpc := if m_messageSize (ch_data s) = 0 then CCloseRead else CPrintSize\<rparr>)
      | CPrintSize \<Rightarrow>
          Some (s\<lparr>ch_out := ch_out s @ [ReadSize (unat (m_messageSize (ch_data s)))], ch_cpc := CPrintContent\<rparr>)
      | CPrintContent \<Rightarrow>
          Some (s\<lparr>ch_out := ch_out s @ [Content (print_c_string (sd_buffer (ch_data s)))], ch_cpc := CPost\<rparr>)
      | CPost \<Rightarrow> Some (s\<lparr>ch_readDone := Suc (ch_readDone s), ch_cpc := CAwait\<rparr>)
      | CCloseRead \<Rightarrow> Some (s\<lparr>ch_cpc := CCloseWrite\<rparr>)
      | CCloseWrite \<Rightarrow> Some (s\<lparr>ch_cpc := CPrintExit\<rparr>)
      | CPrintExit \<Rightarrow> Some (s\<lparr>ch_out := ch_out s @ [ChildExit], ch_cpc := CExited\<rparr>)
      | CExited \<Rightarrow> None)"

text \<open>Where a process is before a checked call.\<close>

fun parent_calls :: "sh_ppc \<Rightarrow> bool" where
  "parent_calls (PPost l) = True" | "parent_calls (PAwait l) = True" | "parent_calls PEndPost = True"
| "parent_calls PWaitChild = True" | "parent_calls (PClean cs) = (cs \<noteq> [])" | "parent_calls _ = False"

fun child_calls :: "sh_cpc \<Rightarrow> bool" where
  "child_calls CAwait = True" | "child_calls CPost = True" | "child_calls CCloseRead = True"
| "child_calls CCloseWrite = True" | "child_calls _ = False"

definition chan_step :: "shm_prog \<Rightarrow> (process \<times> outcome, chan_state) machine" where
  "chan_step prog l s =
     (let (p, r) = l in
      if ch_failed s p then None
      else if r = Fails
      then (if (case p of Parent \<Rightarrow> parent_calls (ch_ppc s) | Child \<Rightarrow> child_calls (ch_cpc s))
            then Some (s\<lparr>ch_failed := (ch_failed s)(p := True)\<rparr>) else None)
      else (case p of Parent \<Rightarrow> parent_step prog s | Child \<Rightarrow> child_step s))"

definition chan_final :: "chan_state \<Rightarrow> bool" where
  "chan_final s \<longleftrightarrow> ch_ppc s = PExited \<and> ch_cpc s = CExited"

section \<open>The invariant\<close>

text \<open>What a message looks like to the child: its size as a \<^verbatim>\<open>uint32_t\<close> and what is printed of it. A
  line ends the protocol if its size is 0 in 32 bits.\<close>

definition msg_size :: "string \<Rightarrow> 32 word" where
  "msg_size l = word_of_nat (length l)"

text \<open>The output for one line.\<close>

definition line_out :: "string \<Rightarrow> sh_line list" where
  "line_out l = [Wrote (length l), ReadSize (unat (msg_size l)), Content (print_c_string (fill_buffer l))]"

definition lines_out :: "string list \<Rightarrow> sh_line list" where
  "lines_out ls = concat (map line_out ls)"

lemma lines_out_simps [simp]: "lines_out [] = []" "lines_out (ls @ [l]) = lines_out ls @ line_out l"
  by (simp_all add: lines_out_def)

fun current_line :: "sh_ppc \<Rightarrow> string list" where
  "current_line (PSize l) = [l]"
| "current_line (PBuffer l) = [l]"
| "current_line (PPrint l) = [l]"
| "current_line (PPost l) = [l]"
| "current_line (PAwait l) = [l]"
| "current_line _ = []"

text \<open>Between two messages both semaphores are down and the child waits; \<open>xs\<close> has been printed since the last acknowledgement.\<close>

definition quiet :: "string list \<Rightarrow> sh_line list \<Rightarrow> chan_state \<Rightarrow> bool" where
  "quiet ls xs s \<longleftrightarrow> ch_writeDone s = 0 \<and> ch_readDone s = 0 \<and> ch_cpc s = CAwait \<and> ch_out s = lines_out ls @ xs"

text \<open>While the parent waits for the acknowledgement of \<open>l\<close>, the child is on its way through it. \<open>k\<close> lines of the output for
  \<open>l\<close> have been printed.\<close>

definition transit_at :: "nat \<Rightarrow> nat \<Rightarrow> nat \<Rightarrow> string list \<Rightarrow> string \<Rightarrow> chan_state \<Rightarrow> bool" where
  "transit_at w r k ls l s \<longleftrightarrow> ch_writeDone s = w \<and> ch_readDone s = r \<and> ch_out s = lines_out ls @ take k (line_out l)"

definition in_transit :: "string list \<Rightarrow> string \<Rightarrow> chan_state \<Rightarrow> bool" where
  "in_transit ls l s \<longleftrightarrow>
     (case ch_cpc s of
        CAwait \<Rightarrow> transit_at 1 0 1 ls l s \<or> msg_size l \<noteq> 0 \<and> transit_at 0 1 3 ls l s
      | CCheck \<Rightarrow> transit_at 0 0 1 ls l s
      | CPrintSize \<Rightarrow> msg_size l \<noteq> 0 \<and> transit_at 0 0 1 ls l s
      | CPrintContent \<Rightarrow> msg_size l \<noteq> 0 \<and> transit_at 0 0 2 ls l s
      | CPost \<Rightarrow> msg_size l \<noteq> 0 \<and> transit_at 0 0 3 ls l s
      | CExited \<Rightarrow> msg_size l = 0 \<and> ch_writeDone s = 0 \<and> ch_readDone s = 0 \<and>
          ch_out s = lines_out ls @ [Wrote (length l), ChildExit]
      | _ \<Rightarrow> msg_size l = 0 \<and> transit_at 0 0 1 ls l s)"

text \<open>After the end mark.\<close>

definition ending :: "string list \<Rightarrow> sh_line list \<Rightarrow> chan_state \<Rightarrow> bool" where
  "ending ls xs s \<longleftrightarrow>
     m_messageSize (ch_data s) = 0 \<and> ch_readDone s = 0 \<and> ch_input s = [] \<and>
     (ch_cpc s = CAwait \<and> ch_writeDone s = 1 \<and> ch_out s = lines_out ls @ xs \<or>
      ch_cpc s \<in> {CCheck, CCloseRead, CCloseWrite, CPrintExit} \<and> ch_writeDone s = 0 \<and> ch_out s = lines_out ls @ xs \<or>
      ch_cpc s = CExited \<and> ch_writeDone s = 0 \<and> ch_out s = lines_out ls @ ChildExit # xs)"

definition child_gone :: "chan_state \<Rightarrow> bool" where
  "child_gone s \<longleftrightarrow> ch_cpc s = CExited \<or> ch_failed s Child"

definition chan_at :: "string list \<Rightarrow> chan_state \<Rightarrow> bool" where
  "chan_at ls s =
     (case ch_ppc s of
        PGetline \<Rightarrow> quiet ls [] s
      | PSize l \<Rightarrow> quiet ls [] s
      | PBuffer l \<Rightarrow> quiet ls [] s \<and> m_messageSize (ch_data s) = msg_size l
      | PPrint l \<Rightarrow> quiet ls [] s \<and> m_messageSize (ch_data s) = msg_size l \<and> sd_buffer (ch_data s) = fill_buffer l
      | PPost l \<Rightarrow>
          quiet ls [Wrote (length l)] s \<and> m_messageSize (ch_data s) = msg_size l \<and> sd_buffer (ch_data s) = fill_buffer l
      | PAwait l \<Rightarrow>
          in_transit ls l s \<and> m_messageSize (ch_data s) = msg_size l \<and> sd_buffer (ch_data s) = fill_buffer l
      | PEndMark \<Rightarrow> quiet ls [] s \<and> ch_input s = []
      | PEndPost \<Rightarrow> quiet ls [] s \<and> ch_input s = [] \<and> m_messageSize (ch_data s) = 0
      | PWaitChild \<Rightarrow> ending ls [] s
      | PClean cs \<Rightarrow> ending ls [] s \<and> child_gone s
      | PExited \<Rightarrow> ending ls [ParentExit] s \<and> child_gone s)"

text \<open>\<open>ls\<close> are the lines that have been acknowledged.\<close>

definition chan_inv :: "string list \<Rightarrow> chan_state \<Rightarrow> bool" where
  "chan_inv lines s \<longleftrightarrow>
     (\<exists>ls. lines = ls @ current_line (ch_ppc s) @ ch_input s \<and> (\<forall>l \<in> set ls. msg_size l \<noteq> 0) \<and> chan_at ls s)"

lemmas chan_defs = chan_at_def quiet_def in_transit_def transit_at_def ending_def child_gone_def line_out_def

lemma chan_inv_init: "chan_inv lines (chan_init prog (0, 0) lines)"
  by (auto simp: chan_inv_def chan_init_def chan_defs)

lemma chan_inv_parent:
  assumes inv: "chan_inv lines s" and st: "parent_step prog s = Some s'"
  shows "chan_inv lines s'"
proof -
  obtain ls where ls: "lines = ls @ current_line (ch_ppc s) @ ch_input s" "\<forall>l \<in> set ls. msg_size l \<noteq> 0" "chan_at ls s"
    using inv by (auto simp: chan_inv_def)
  show ?thesis
  proof (cases "ch_ppc s")
    case (PAwait l)
    then have "s' = s\<lparr>ch_readDone := 0, ch_ppc := PGetline\<rparr>" "ch_cpc s = CAwait"
      and "ch_writeDone s = 0" "msg_size l \<noteq> 0" "ch_out s = lines_out (ls @ [l])"
      using st ls(3) by (auto simp: parent_step_def chan_at_def in_transit_def transit_at_def line_out_def split: nat.splits sh_cpc.splits)
    then show ?thesis using ls PAwait unfolding chan_inv_def
      by (intro exI [of _ "ls @ [l]"]) (auto simp: chan_defs)
  qed (use st ls in \<open>auto simp: parent_step_def chan_inv_def chan_defs msg_size_def
        split: list.splits if_splits intro!: exI [of _ ls]\<close>)
qed

lemma chan_inv_child:
  assumes inv: "chan_inv lines s" and st: "child_step s = Some s'" and "\<not> ch_failed s Child"
  shows "chan_inv lines s'"
proof -
  obtain ls where ls: "lines = ls @ current_line (ch_ppc s) @ ch_input s" "\<forall>l \<in> set ls. msg_size l \<noteq> 0" "chan_at ls s"
    using inv by (auto simp: chan_inv_def)
  have "ch_ppc s' = ch_ppc s" "ch_input s' = ch_input s"
    using st by (auto simp: child_step_def split: sh_cpc.splits nat.splits)
  moreover have "chan_at ls s'"
    using st ls(3) assms(3) by (cases "ch_ppc s"; cases "ch_cpc s") (auto simp: child_step_def chan_defs numeral_2_eq_2 numeral_3_eq_3 split: nat.splits)
  ultimately show ?thesis using ls unfolding chan_inv_def by (intro exI [of _ ls]) simp
qed

lemma chan_at_fail: "chan_at ls s \<Longrightarrow> chan_at ls (s\<lparr>ch_failed := (ch_failed s)(p := True)\<rparr>)"
proof -
  let ?t = "s\<lparr>ch_failed := (ch_failed s)(p := True)\<rparr>"
  have "quiet ls xs ?t = quiet ls xs s" "in_transit ls l ?t = in_transit ls l s" "ending ls xs ?t = ending ls xs s" for xs l
    by (simp_all add: quiet_def in_transit_def transit_at_def ending_def cong: sh_cpc.case_cong)
  moreover have "child_gone s \<Longrightarrow> child_gone ?t" by (auto simp: child_gone_def)
  ultimately show "chan_at ls s \<Longrightarrow> chan_at ls ?t" by (cases "ch_ppc s") (simp_all add: chan_at_def)
qed

lemma chan_inv_fail: "chan_inv lines s \<Longrightarrow> chan_inv lines (s\<lparr>ch_failed := (ch_failed s)(p := True)\<rparr>)"
  using chan_at_fail by (fastforce simp: chan_inv_def)

lemma chan_cases:
  assumes "chan_step prog l s = Some t"
  obtains (parent) "\<not> ch_failed s Parent" "parent_step prog s = Some t"
    | (child) "\<not> ch_failed s Child" "child_step s = Some t"
    | (fails) p where "\<not> ch_failed s p" "t = s\<lparr>ch_failed := (ch_failed s)(p := True)\<rparr>"
  using assms by (cases l; cases "fst l"; cases "snd l") (auto simp: chan_step_def split: if_splits)

section \<open>Termination\<close>

fun sh_pweight :: "sh_ppc \<Rightarrow> nat" where
  "sh_pweight (PSize l) = 25" | "sh_pweight (PBuffer l) = 24" | "sh_pweight (PPrint l) = 23" | "sh_pweight (PPost l) = 22"
| "sh_pweight (PAwait l) = 15" | "sh_pweight PGetline = 15" | "sh_pweight PEndMark = 14"
| "sh_pweight PEndPost = 13" | "sh_pweight PWaitChild = 6" | "sh_pweight (PClean cs) = Suc (length cs)" | "sh_pweight PExited = 0"

fun sh_cweight :: "sh_cpc \<Rightarrow> nat" where
  "sh_cweight CCheck = 5" | "sh_cweight CPrintSize = 4" | "sh_cweight CPrintContent = 3"
| "sh_cweight CPost = 2" | "sh_cweight CCloseRead = 3" | "sh_cweight CCloseWrite = 2" | "sh_cweight CPrintExit = 1"
| "sh_cweight CAwait = 0" | "sh_cweight CExited = 0"

definition chan_rank :: "chan_state \<Rightarrow> nat" where
  "chan_rank s =
     11 * length (ch_input s) + sh_pweight (ch_ppc s) + sh_cweight (ch_cpc s) + 6 * ch_writeDone s + ch_readDone s +
     (if ch_failed s Parent then 0 else 1) + (if ch_failed s Child then 0 else 1)"

text \<open>The parent waits for an acknowledgement that the child will never send.\<close>

definition chan_hangs :: "string \<Rightarrow> chan_state \<Rightarrow> bool" where
  "chan_hangs l s \<longleftrightarrow> ch_ppc s = PAwait l \<and> ch_readDone s = 0 \<and> ch_cpc s = CExited"

definition chan_ended :: "chan_state \<Rightarrow> bool" where
  "chan_ended s \<longleftrightarrow> chan_final s \<or> (\<exists>l. chan_hangs l s) \<or> (\<exists>p. ch_failed s p)"

lemma chan_enabled:
  assumes inv: "chan_inv lines s" and nf: "\<not> chan_ended s"
  shows "\<exists>p s'. chan_step prog (p, Succeeds) s = Some s'"
proof (rule ccontr)
  assume "\<nexists>p s'. chan_step prog (p, Succeeds) s = Some s'"
  then have "chan_step prog (Parent, Succeeds) s = None" "chan_step prog (Child, Succeeds) s = None" by (meson not_None_eq)+
  then have p: "parent_step prog s = None" and c: "child_step s = None"
    using nf by (simp_all add: chan_step_def chan_ended_def)
  obtain ls where at: "chan_at ls s" using inv by (auto simp: chan_inv_def)
  show False using p c at nf
    by (cases "ch_ppc s"; cases "ch_cpc s")
      (auto simp: parent_step_def child_step_def chan_ended_def chan_final_def chan_hangs_def chan_defs
        split: list.splits nat.splits if_splits)
qed

lemma chan_decrease:
  assumes "chan_step prog l s = Some t"
  shows "chan_rank t < chan_rank s"
  using assms
proof (cases rule: chan_cases)
  case parent
  have "length (clean_ups prog) \<le> 4" by (cases prog) simp_all
  then show ?thesis using parent
    by (cases "ch_ppc s") (auto simp: parent_step_def chan_rank_def split: list.splits nat.splits if_splits)
next
  case child
  then show ?thesis
    by (cases "ch_cpc s") (auto simp: child_step_def chan_rank_def split: nat.splits)
next
  case (fails p)
  then show ?thesis by (cases p) (simp_all add: chan_rank_def)
qed

interpretation chan: machine_term "chan_step prog" "chan_init prog (0, 0) lines" "chan_inv lines" chan_rank chan_ended
  for prog lines
proof unfold_locales
  show "chan_inv lines (chan_init prog (0, 0) lines)" by (rule chan_inv_init)
  show "chan_inv lines t" if inv: "chan_inv lines s" and st: "chan_step prog l s = Some t" for s l t
    using st by (cases rule: chan_cases) (use inv chan_inv_parent chan_inv_child chan_inv_fail in blast)+
  show "chan_rank t < chan_rank s" if "chan_step prog l s = Some t" for s l t
    using that by (rule chan_decrease)
qed (use chan_enabled in blast)

text \<open>What is left of the names when a process is through: nothing, if the parent got that far.\<close>

fun clean_ups_left :: "shm_prog \<Rightarrow> sh_ppc \<Rightarrow> clean_up list" where
  "clean_ups_left prog (PClean cs) = cs" | "clean_ups_left prog PExited = []" | "clean_ups_left prog _ = clean_ups prog"

lemma names_cleaned:
  assumes "reach (chan_step prog) (chan_init prog sems lines) s"
  shows "fold clean_name (clean_ups_left prog (ch_ppc s)) (ch_names s) = []"
  using assms
proof (induction rule: reach.induct)
  case reach_init
  show ?case by (cases prog) (simp_all add: chan_init_def)
next
  case (reach_step s l t)
  from reach_step.hyps(2) show ?case
  proof (cases rule: chan_cases)
    case parent
    then show ?thesis using reach_step.IH
      by (cases "ch_ppc s") (auto simp: parent_step_def split: list.splits nat.splits if_splits)
  next
    case child
    then have "ch_ppc t = ch_ppc s" "ch_names t = ch_names s" by (auto simp: child_step_def split: sh_cpc.splits nat.splits)
    then show ?thesis using reach_step.IH by simp
  qed (use reach_step.IH in simp)
qed

lemma chan_final_output:
  assumes "chan_inv lines s" "chan_final s" "\<not> ch_failed s Child"
  shows "ch_out s = lines_out lines @ [ChildExit, ParentExit] \<and> (\<forall>l \<in> set lines. msg_size l \<noteq> 0)"
  using assms by (auto simp: chan_inv_def chan_final_def chan_at_def ending_def)

lemma chan_hangs_output:
  assumes "chan_inv lines s" "chan_hangs l s"
  shows "\<exists>ls. lines = ls @ l # ch_input s \<and> msg_size l = 0 \<and> (\<forall>l \<in> set ls. msg_size l \<noteq> 0) \<and>
    ch_out s = lines_out ls @ [Wrote (length l), ChildExit]"
  using assms by (auto simp: chan_inv_def chan_hangs_def chan_at_def in_transit_def)

lemma msg_size_short: "length l < 2 ^ 32 \<Longrightarrow> unat (msg_size l) = length l"
  by (simp add: msg_size_def unat_of_nat)

lemma msg_size_Nil [simp]: "msg_size [] = 0"
  by (simp add: msg_size_def)

text \<open>A line that arrives as it was sent.\<close>

definition proper_line :: "string \<Rightarrow> bool" where
  "proper_line l \<longleftrightarrow> l \<noteq> [] \<and> length l < BufferSize \<and> CHR 0x00 \<notin> set l"

lemma proper_line_size: "proper_line l \<Longrightarrow> unat (msg_size l) = length l"
  by (rule msg_size_short) (simp add: proper_line_def BufferSize_def)

lemma proper_line_nonzero: "proper_line l \<Longrightarrow> msg_size l \<noteq> 0"
  using proper_line_size by (force simp: proper_line_def)

definition proper_out :: "string \<Rightarrow> sh_line list" where
  "proper_out l = [Wrote (length l), ReadSize (length l), Content (Some l)]"

lemma line_out_proper: "proper_line l \<Longrightarrow> line_out l = proper_out l"
  using proper_line_size print_fill_buffer by (simp add: line_out_def proper_out_def proper_line_def)

lemma lines_out_proper: "\<forall>l \<in> set ls. proper_line l \<Longrightarrow> lines_out ls = concat (map proper_out ls)"
  by (induction ls) (simp_all add: lines_out_def line_out_proper)

text \<open>The contents the child has printed.\<close>

fun content_of :: "sh_line \<Rightarrow> string option list" where
  "content_of (Content c) = [c]" | "content_of _ = []"

definition contents :: "sh_line list \<Rightarrow> string option list" where
  "contents out = concat (map content_of out)"

lemma contents_simps [simp]:
  "contents [] = []" "contents (xs @ ys) = contents xs @ contents ys"
  "contents (Wrote n # xs) = contents xs" "contents (ReadSize n # xs) = contents xs" "contents (Content c # xs) = c # contents xs"
  "contents (ChildExit # xs) = contents xs" "contents (ParentExit # xs) = contents xs"
  by (simp_all add: contents_def)



section \<open>The programs\<close>

text \<open>The set-up on the results of the system calls: the two \<^verbatim>\<open>sem_open\<close> of \<^verbatim>\<open>MakeSemaphore\<close>, with the values of semaphores an earlier
  run may have left, then the mapping of the shared memory, then \<^verbatim>\<open>fork\<close>. It returns the values of the two semaphores.\<close>

definition MakeSemaphore :: "bool \<Rightarrow> string \<Rightarrow> nat option \<Rightarrow> nat sys" where
  "MakeSemaphore opened strerror existing =
     and_then (check_pointer ''Opening semaphore failed'' strerror opened) (\<lambda>_. Inr (sem_open existing))"

record shm_calls =
  sem_open_write :: bool
  sem_open_read :: bool
  existing_write :: "nat option"
  existing_read :: "nat option"
  shm_open_fd :: int
  ftruncate_res :: int
  mmap_ok :: bool
  fork_pid :: int
  errno_text :: string

definition open_semaphores :: "shm_calls \<Rightarrow> (nat \<times> nat) sys" where
  "open_semaphores e =
     and_then (MakeSemaphore (sem_open_write e) (errno_text e) (existing_write e))
       (\<lambda>w. and_then (MakeSemaphore (sem_open_read e) (errno_text e) (existing_read e)) (\<lambda>r. Inr (w, r)))"

definition shm_intro_setup :: "shm_calls \<Rightarrow> (nat \<times> nat) sys" where
  "shm_intro_setup e =
     and_then (open_semaphores e)
       (\<lambda>sems. and_then (in_order [CHECK_ERROR (shm_open_fd e), CHECK_ERROR (ftruncate_res e),
            check_pointer ''mmap failed'' (errno_text e) (mmap_ok e), CHECK_ERROR (fork_pid e)]) (\<lambda>_. Inr sems))"

definition mmap_intro_setup :: "shm_calls \<Rightarrow> (nat \<times> nat) sys" where
  "mmap_intro_setup e =
     and_then (open_semaphores e)
       (\<lambda>sems. and_then (in_order [check_pointer ''mmap failed'' (errno_text e) (mmap_ok e), CHECK_ERROR (fork_pid e)])
            (\<lambda>_. Inr sems))"

text \<open>The programs on the lines of standard input: a failed set-up, or a state in which neither
  process can move unless the call it waits in fails.\<close>

definition shm_run :: "shm_prog \<Rightarrow> (nat \<times> nat) sys \<Rightarrow> string list \<Rightarrow> failure + chan_state \<Rightarrow> bool" where
  "shm_run prog setup lines r =
     (case setup of
        Inl f \<Rightarrow> r = Inl f
      | Inr sems \<Rightarrow> (\<exists>s. r = Inr s \<and> reach (chan_step prog) (chan_init prog sems lines) s \<and> halted (chan_step prog) s))"

definition shm_intro_main :: "shm_calls \<Rightarrow> string list \<Rightarrow> failure + chan_state \<Rightarrow> bool" where
  "shm_intro_main e = shm_run ShmIntro (shm_intro_setup e)"

definition mmap_intro_main :: "shm_calls \<Rightarrow> string list \<Rightarrow> failure + chan_state \<Rightarrow> bool" where
  "mmap_intro_main e = shm_run MmapIntro (mmap_intro_setup e)"

lemma chan_keeps_failed: "chan_step prog (p, Succeeds) s = Some t \<Longrightarrow> ch_failed t = ch_failed s"
  by (cases p) (auto simp: chan_step_def parent_step_def child_step_def
      split: if_splits sh_ppc.splits sh_cpc.splits list.splits nat.splits)

interpretation chan_calls: failing_calls "chan_step prog" "chan_init prog (0, 0) lines" "chan_inv lines" chan_rank chan_ended ch_failed
  for prog lines
proof unfold_locales
  show "\<not> ch_failed (chan_init prog (0, 0) lines) p" for p by (simp add: chan_init_def)
qed (use chan_keeps_failed chan_enabled in blast)+

section \<open>A child that has exited early\<close>








section \<open>Properties\<close>

definition good_calls :: shm_calls where
  "good_calls = \<lparr>sem_open_write = True, sem_open_read = True, existing_write = None, existing_read = None, shm_open_fd = 3,
     ftruncate_res = 0, mmap_ok = True, fork_pid = 100, errno_text = ''Success''\<rparr>"

lemmas setup_defs = shm_intro_setup_def mmap_intro_setup_def open_semaphores_def MakeSemaphore_def in_order_ok sem_open_def good_calls_def

lemma good_setup: "shm_intro_setup good_calls = Inr (0, 0)" "mmap_intro_setup good_calls = Inr (0, 0)"
  by (simp_all add: setup_defs and_then_Inr)

lemma shm_run_cases:
  assumes "shm_run prog (Inr (0, 0)) lines r"
  obtains s where "r = Inr s" "reach (chan_step prog) (chan_init prog (0, 0) lines) s" "halted (chan_step prog) s" "chan_inv lines s" "chan_ended s"
  using assms chan_calls.halted_final by (auto simp: shm_run_def)

lemma shm_run_ok: "\<exists>s. shm_run prog (Inr (0, 0)) lines (Inr s) \<and> (\<forall>p. \<not> ch_failed s p)"
  using chan_calls.halts_ok by (auto simp: shm_run_def)

text \<open>C12: \<^verbatim>\<open>shm_intro.cpp\<close> delivers every line in order and terminates, if its set-up succeeds with new semaphores, no line
  is empty and every line fits the buffer with its terminating zero: every schedule has at most
  \<open>11 n + 17\<close> steps for \<open>n\<close> lines, and whenever the program ends without a failing call both processes have exited, the
  output is, for each line, what the parent wrote and the size and content the child read, and no name is left behind.\<close>

theorem shm_intro_delivers:
  assumes ok: "shm_intro_setup e = Inr (0, 0)" and lines: "\<forall>l \<in> set lines. proper_line l"
  shows "(run (chan_step ShmIntro) ws (chan_init ShmIntro (0, 0) lines) \<noteq> None \<longrightarrow> length ws \<le> 11 * length lines + 17) \<and>
    (\<exists>s. shm_intro_main e lines (Inr s) \<and> (\<forall>p. \<not> ch_failed s p)) \<and>
    (\<forall>r. shm_intro_main e lines r \<longrightarrow>
       (\<exists>s. r = Inr s \<and> ((\<forall>p. \<not> ch_failed s p) \<longrightarrow>
          chan_final s \<and> ch_out s = concat (map proper_out lines) @ [ChildExit, ParentExit] \<and> ch_names s = [])))"
proof (intro conjI impI allI)
  assume "run (chan_step ShmIntro) ws (chan_init ShmIntro (0, 0) lines) \<noteq> None"
  then obtain t where "run (chan_step ShmIntro) ws (chan_init ShmIntro (0, 0) lines) = Some t" by blast
  then have "length ws \<le> chan_rank (chan_init ShmIntro (0, 0) lines)" by (rule chan.run_length)
  then show "length ws \<le> 11 * length lines + 17" by (simp add: chan_rank_def chan_init_def)
next
  show "\<exists>s. shm_intro_main e lines (Inr s) \<and> (\<forall>p. \<not> ch_failed s p)" using shm_run_ok ok by (simp add: shm_intro_main_def)
next
  fix r
  assume "shm_intro_main e lines r"
  then obtain s where s: "r = Inr s" "reach (chan_step ShmIntro) (chan_init ShmIntro (0, 0) lines) s" "chan_inv lines s" "chan_ended s"
    using ok by (auto simp: shm_intro_main_def elim: shm_run_cases)
  have "chan_final s \<and> ch_out s = concat (map proper_out lines) @ [ChildExit, ParentExit] \<and> ch_names s = []" if nf: "\<forall>p. \<not> ch_failed s p"
  proof -
    have "\<not> chan_hangs l s" for l
      using chan_hangs_output [OF s(3), of l] lines proper_line_nonzero by fastforce
    then have f: "chan_final s" using s(4) nf by (simp add: chan_ended_def)
    then show ?thesis
      using chan_final_output [OF s(3) f] nf lines_out_proper [OF lines] names_cleaned [OF s(2)] by (simp add: chan_final_def)
  qed
  with s(1) show "\<exists>s. r = Inr s \<and> ((\<forall>p. \<not> ch_failed s p) \<longrightarrow>
          chan_final s \<and> ch_out s = concat (map proper_out lines) @ [ChildExit, ParentExit] \<and> ch_names s = [])" by blast
qed

theorem shm_intro_delivers_witness:
  "\<exists>s. shm_intro_main good_calls [''abc'', ''d''] (Inr s) \<and> chan_final s \<and>
    ch_out s = [Wrote 3, ReadSize 3, Content (Some ''abc''), Wrote 1, ReadSize 1, Content (Some ''d''), ChildExit, ParentExit]"
proof -
  have p: "\<forall>l \<in> set [''abc'', ''d'']. proper_line l" by (simp add: proper_line_def BufferSize_def)
  obtain s where s: "shm_intro_main good_calls [''abc'', ''d''] (Inr s)" "\<forall>p. \<not> ch_failed s p"
    using shm_intro_delivers [OF good_setup(1) p] by blast
  then have "chan_final s \<and> ch_out s = concat (map proper_out [''abc'', ''d'']) @ [ChildExit, ParentExit]"
    using shm_intro_delivers [OF good_setup(1) p] by blast
  then show ?thesis using s(1) by (auto simp: proper_out_def)
qed

text \<open>C13: an empty line hangs \<^verbatim>\<open>mmap_intro.cpp\<close> (and \<^verbatim>\<open>shm_intro.cpp\<close>, which runs the same protocol). The
  child takes the message of size 0 for the end mark and exits without an acknowledgement: if
  the input contains an empty line, whenever the program cannot continue and no call has failed the parent waits for
  ever for the acknowledgement of a line that was not delivered.\<close>

theorem mmap_intro_empty_line_hangs:
  assumes ok: "mmap_intro_setup e = Inr (0, 0)" and "[] \<in> set lines"
  shows "(\<exists>s. mmap_intro_main e lines (Inr s) \<and> (\<forall>p. \<not> ch_failed s p)) \<and>
    (\<forall>r. mmap_intro_main e lines r \<longrightarrow>
       (\<exists>s. r = Inr s \<and> ((\<forall>p. \<not> ch_failed s p) \<longrightarrow> \<not> chan_final s \<and> (\<exists>l. chan_hangs l s \<and> msg_size l = 0))))"
proof (intro conjI impI allI)
  show "\<exists>s. mmap_intro_main e lines (Inr s) \<and> (\<forall>p. \<not> ch_failed s p)" using shm_run_ok ok by (simp add: mmap_intro_main_def)
next
  fix r
  assume "mmap_intro_main e lines r"
  then obtain s where s: "r = Inr s" "chan_inv lines s" "chan_ended s"
    using ok by (auto simp: mmap_intro_main_def elim: shm_run_cases)
  have "\<not> chan_final s \<and> (\<exists>l. chan_hangs l s \<and> msg_size l = 0)" if nf: "\<forall>p. \<not> ch_failed s p"
  proof -
    have "\<not> chan_final s" using chan_final_output [OF s(2)] nf assms(2) msg_size_Nil by blast
    then show ?thesis using s(3) nf chan_hangs_output [OF s(2)] unfolding chan_ended_def by blast
  qed
  with s(1) show "\<exists>s. r = Inr s \<and> ((\<forall>p. \<not> ch_failed s p) \<longrightarrow> \<not> chan_final s \<and> (\<exists>l. chan_hangs l s \<and> msg_size l = 0))" by blast
qed

theorem mmap_intro_empty_line_hangs_witness:
  "\<exists>s. mmap_intro_main good_calls [''a'', [], ''b''] (Inr s) \<and> \<not> chan_final s"
proof -
  have l: "[] \<in> set [''a'', [], ''b'']" by simp
  obtain s where "mmap_intro_main good_calls [''a'', [], ''b''] (Inr s)" "\<forall>p. \<not> ch_failed s p"
    using mmap_intro_empty_line_hangs [OF good_setup(2) l] by blast
  then show ?thesis using mmap_intro_empty_line_hangs [OF good_setup(2) l] by blast
qed



text \<open>Neither program unlinks the semaphores before it opens them. If an earlier run left \<^verbatim>\<open>write_sema\<close> raised, the child takes the
  empty shared memory for the end mark, and the parent hangs on its first line.\<close>

theorem leftover_semaphore_hangs:
  assumes "shm_intro_setup e = Inr (1, 0)"
  shows "\<exists>s. shm_intro_main e (l # ls) (Inr s) \<and> (\<forall>p. \<not> ch_failed s p) \<and> chan_hangs l s \<and> ch_out s = [ChildExit, Wrote (length l)]"
proof -
  let ?ws = "replicate 5 (Child, Succeeds) @ replicate 5 (Parent, Succeeds)"
  have "\<exists>s. run (chan_step ShmIntro) ?ws (chan_init ShmIntro (1, 0) (l # ls)) = Some s \<and> halted (chan_step ShmIntro) s \<and> (\<forall>p. \<not> ch_failed s p) \<and>
      chan_hangs l s \<and> ch_out s = [ChildExit, Wrote (length l)]"
    by (simp add: eval_nat_numeral chan_step_def parent_step_def child_step_def chan_init_def halted_def chan_hangs_def shared_data_init_def)
  then show ?thesis using run_imp_reach assms unfolding shm_intro_main_def shm_run_def by fastforce
qed

end
