(* ===== verification/Pipes.thy ===== *)
theory Pipes
  imports Sys_Error
begin

text \<open>
  \<^verbatim>\<open>ipc/pipe_intro.cpp\<close>, \<^verbatim>\<open>ipc/dup.cpp\<close> and \<^verbatim>\<open>ipc/mkfifo_intro.cpp\<close>: a parent writes the lines of its
  standard input into a pipe, a child reads and prints them. The programs differ in how the two
  ends are opened and closed (\<open>pipe_kind\<close>); the loops are the same. A \<^verbatim>\<open>read\<close> returns some of the
  bytes in the pipe, blocks while the pipe is empty, and returns 0 only when no process has the
  write end open any more; a \<^verbatim>\<open>write\<close> moves its bytes into the pipe in one or more pieces, as the
  capacity permits, and returns when all are in. Opening a FIFO blocks until the other end is
  opened.
\<close>

section \<open>The three programs\<close>

datatype pipe_kind = PipeIntro | DupIntro | MkfifoIntro

text \<open>Program points of the parent: closing or opening its end, waiting for the other end of the
  FIFO, \<^verbatim>\<open>getline\<close>, \<^verbatim>\<open>write\<close> with the bytes still to be moved and their number, the print, closing
  the write end, \<^verbatim>\<open>wait\<close>, the last print, exited, killed by \<^verbatim>\<open>SIGPIPE\<close> for a write that nobody can read, exited because a call
  failed (before or after it had opened its end of a FIFO). Of the child: closing or opening its end, \<^verbatim>\<open>dup2\<close> or waiting for
  the FIFO, \<^verbatim>\<open>read\<close>, the print, closing the read end, the last print, exited, exited because a call failed. Failing calls are the
  subject of theory \<open>Pipe_Failures\<close>.\<close>

datatype pp_parent =
    PpStart | PpOpening | PpGetline | PpWrite string nat | PpPrint nat | PpClose | PpWait | PpLast | PpExited
  | PpKilled | PpFailed bool

datatype pp_child = PcStart | PcSecond | PcRead | PcPrint string | PcClose | PcLast | PcExited | PcFailed bool

record pipe_state =
  pp_buf :: string
  parent_r :: bool
  parent_w :: bool
  child_r :: bool
  child_w :: bool
  child_stdin :: bool
  pp_parent :: pp_parent
  pp_input :: "string list"
  pp_wrote :: "nat list"
  pp_child :: pp_child
  pp_chunks :: "string list"
  pp_printed :: "(nat \<times> string option) list"
  pp_exits :: "process list"

text \<open>After \<^verbatim>\<open>pipe\<close> and \<^verbatim>\<open>fork\<close> both processes have both ends; after \<^verbatim>\<open>mkfifo\<close> nobody has any.\<close>

definition pipe_init :: "pipe_kind \<Rightarrow> string list \<Rightarrow> pipe_state" where
  "pipe_init kind lines =
     (let ends = (kind \<noteq> MkfifoIntro) in
      \<lparr>pp_buf = [], parent_r = ends, parent_w = ends, child_r = ends, child_w = ends, child_stdin = False,
       pp_parent = PpStart, pp_input = lines, pp_wrote = [], pp_child = PcStart, pp_chunks = [], pp_printed = [],
       pp_exits = []\<rparr>)"

text \<open>Whether a process has got to opening its end of a FIFO; whether the child has exited.\<close>

fun parent_opens :: "pp_parent \<Rightarrow> bool" where
  "parent_opens PpStart = False" | "parent_opens (PpFailed opened) = opened" | "parent_opens _ = True"

fun child_opens :: "pp_child \<Rightarrow> bool" where
  "child_opens PcStart = False" | "child_opens (PcFailed opened) = opened" | "child_opens _ = True"

fun child_over :: "pp_child \<Rightarrow> bool" where
  "child_over PcExited = True" | "child_over (PcFailed opened) = True" | "child_over _ = False"

lemma opens_iff:
  "parent_opens p \<longleftrightarrow> p \<noteq> PpStart \<and> p \<noteq> PpFailed False"
  "child_opens c \<longleftrightarrow> c \<noteq> PcStart \<and> c \<noteq> PcFailed False"
  "child_over c \<longleftrightarrow> c \<in> {PcExited, PcFailed True, PcFailed False}"
  by (cases p; auto) (cases c; auto)+

text \<open>The label of a step is the number of bytes that move, where bytes move; \<open>cap\<close> is the
  capacity of the pipe.\<close>

definition pipe_parent_step :: "pipe_kind \<Rightarrow> nat \<Rightarrow> nat \<Rightarrow> pipe_state \<Rightarrow> pipe_state option" where
  "pipe_parent_step kind cap k s =
     (case pp_parent s of
        PpStart \<Rightarrow>
          if kind = MkfifoIntro then Some (s\<lparr>parent_w := True, pp_parent := PpOpening\<rparr>)
          else Some (s\<lparr>parent_r := False, pp_parent := PpGetline\<rparr>)
      | PpOpening \<Rightarrow> if child_opens (pp_child s) then Some (s\<lparr>pp_parent := PpGetline\<rparr>) else None
      | PpGetline \<Rightarrow>
          (case pp_input s of
             [] \<Rightarrow> Some (s\<lparr>pp_parent := PpClose\<rparr>)
           | input # rest \<Rightarrow> Some (s\<lparr>pp_parent := PpWrite input (length input), pp_input := rest\<rparr>))
      | PpWrite rest n \<Rightarrow>
          if rest = [] then Some (s\<lparr>pp_parent := PpPrint n\<rparr>)
          else if \<not> parent_r s \<and> \<not> child_r s
          then Some (s\<lparr>parent_r := False, parent_w := False, pp_parent := PpKilled\<rparr>)
          else if 0 < k \<and> k \<le> length rest \<and> length (pp_buf s) + k \<le> cap
          then Some (s\<lparr>pp_buf := pp_buf s @ take k rest, pp_parent := PpWrite (drop k rest) n\<rparr>)
          else None
      | PpPrint n \<Rightarrow> Some (s\<lparr>pp_wrote := pp_wrote s @ [n], pp_parent := PpGetline\<rparr>)
      | PpClose \<Rightarrow> Some (s\<lparr>parent_w := False, pp_parent := PpWait\<rparr>)
      | PpWait \<Rightarrow> if child_over (pp_child s) then Some (s\<lparr>pp_parent := PpLast\<rparr>) else None
      | PpLast \<Rightarrow> Some (s\<lparr>pp_exits := pp_exits s @ [Parent], pp_parent := PpExited\<rparr>)
      | PpExited \<Rightarrow> None
      | PpKilled \<Rightarrow> None
      | PpFailed opened \<Rightarrow> None)"

text \<open>\<^verbatim>\<open>char buf[1024]{}\<close>, filled from the front.\<close>

definition read_buffer :: "string \<Rightarrow> string" where
  "read_buffer chunk = chunk @ replicate (1024 - length chunk) (CHR 0x00)"

definition pipe_child_step :: "pipe_kind \<Rightarrow> nat \<Rightarrow> pipe_state \<Rightarrow> pipe_state option" where
  "pipe_child_step kind k s =
     (case pp_child s of
        PcStart \<Rightarrow>
          (case kind of
             PipeIntro \<Rightarrow> Some (s\<lparr>child_w := False, pp_child := PcRead\<rparr>)
           | DupIntro \<Rightarrow> Some (s\<lparr>child_w := False, pp_child := PcSecond\<rparr>)
           | MkfifoIntro \<Rightarrow> Some (s\<lparr>child_r := True, pp_child := PcSecond\<rparr>))
      | PcSecond \<Rightarrow>
          (if kind = DupIntro then Some (s\<lparr>child_stdin := child_r s, pp_child := PcRead\<rparr>)
           else if parent_opens (pp_parent s) then Some (s\<lparr>pp_child := PcRead\<rparr>)
           else None)
      | PcRead \<Rightarrow>
          (if \<not> (if kind = DupIntro then child_stdin s else child_r s) then None
           else if pp_buf s \<noteq> []
           then (if 0 < k \<and> k \<le> 1024 \<and> k \<le> length (pp_buf s)
                 then Some (s\<lparr>pp_buf := drop k (pp_buf s), pp_chunks := pp_chunks s @ [take k (pp_buf s)],
                              pp_child := PcPrint (take k (pp_buf s))\<rparr>)
                 else None)
           else if parent_w s \<or> child_w s then None
           else Some (s\<lparr>pp_child := PcClose\<rparr>))
      | PcPrint chunk \<Rightarrow>
          Some (s\<lparr>pp_printed := pp_printed s @ [(length chunk, print_c_string (read_buffer chunk))], pp_child := PcRead\<rparr>)
      | PcClose \<Rightarrow> Some (s\<lparr>child_r := False, pp_child := PcLast\<rparr>)
      | PcLast \<Rightarrow> Some (s\<lparr>pp_exits := pp_exits s @ [Child], pp_child := PcExited\<rparr>)
      | PcExited \<Rightarrow> None
      | PcFailed opened \<Rightarrow> None)"

fun pipe_step :: "pipe_kind \<Rightarrow> nat \<Rightarrow> (bool \<times> nat, pipe_state) machine" where
  "pipe_step kind cap (who, k) s = (if who then pipe_parent_step kind cap k s else pipe_child_step kind k s)"

definition pipe_final :: "pipe_state \<Rightarrow> bool" where
  "pipe_final s \<longleftrightarrow> pp_parent s = PpExited \<and> pp_child s = PcExited"

text \<open>The programs, on the results of \<^verbatim>\<open>pipe\<close> (or \<^verbatim>\<open>mkfifo\<close>) and \<^verbatim>\<open>fork\<close> and the lines of standard
  input: a failed check, or a state in which neither process can move.\<close>

definition pipe_run :: "pipe_kind \<Rightarrow> string list \<Rightarrow> pipe_state \<Rightarrow> bool" where
  "pipe_run kind lines s \<longleftrightarrow>
     reach (pipe_step kind 65536) (pipe_init kind lines) s \<and> stuck (pipe_step kind 65536) s"

definition pipe_program :: "pipe_kind \<Rightarrow> unit sys \<Rightarrow> string list \<Rightarrow> failure + pipe_state \<Rightarrow> bool" where
  "pipe_program kind checks lines r =
     (case checks of Inl f \<Rightarrow> r = Inl f | Inr _ \<Rightarrow> (\<exists>s. r = Inr s \<and> pipe_run kind lines s))"

definition pipe_intro_main :: "int \<Rightarrow> int \<Rightarrow> string list \<Rightarrow> failure + pipe_state \<Rightarrow> bool" where
  "pipe_intro_main pipe_res pid = pipe_program PipeIntro (in_order [CHECK_ERROR pipe_res, CHECK_ERROR pid])"

definition dup_main :: "int \<Rightarrow> int \<Rightarrow> string list \<Rightarrow> failure + pipe_state \<Rightarrow> bool" where
  "dup_main pipe_res pid = pipe_program DupIntro (in_order [CHECK_ERROR pipe_res, CHECK_ERROR pid])"

text \<open>\<^verbatim>\<open>mkfifo\<close> fails if the path exists and creates it otherwise; the program never removes it. The
  result is whether the path exists afterwards, and the outcome.\<close>

definition mkfifo_call :: "bool \<Rightarrow> int \<times> bool" where
  "mkfifo_call exists = (if exists then (-1, True) else (0, True))"

definition mkfifo_intro_main :: "bool \<Rightarrow> int \<Rightarrow> string list \<Rightarrow> bool \<times> (failure + pipe_state) \<Rightarrow> bool" where
  "mkfifo_intro_main exists pid lines out =
     (case mkfifo_call exists of
        (res, exists') \<Rightarrow>
          fst out = exists' \<and>
          pipe_program MkfifoIntro (in_order [CHECK_ERROR res, CHECK_ERROR pid]) lines (snd out))"

section \<open>The invariant\<close>

fun unwritten :: "pp_parent \<Rightarrow> string" where
  "unwritten (PpWrite rest n) = rest"
| "unwritten _ = []"

fun unprinted :: "pp_parent \<Rightarrow> nat list" where
  "unprinted (PpWrite rest n) = [n]"
| "unprinted (PpPrint n) = [n]"
| "unprinted _ = []"

definition printed_chunk :: "string \<Rightarrow> nat \<times> string option" where
  "printed_chunk chunk = (length chunk, print_c_string (read_buffer chunk))"

fun pc_unprinted :: "pp_child \<Rightarrow> string list" where
  "pc_unprinted (PcPrint chunk) = [chunk]"
| "pc_unprinted _ = []"

text \<open>Every byte is in exactly one place, in order; every line and every chunk is reported once.\<close>

definition pipe_data :: "string list \<Rightarrow> pipe_state \<Rightarrow> bool" where
  "pipe_data lines s \<longleftrightarrow>
     concat (pp_chunks s) @ pp_buf s @ unwritten (pp_parent s) @ concat (pp_input s) = concat lines \<and>
     pp_wrote s @ unprinted (pp_parent s) @ map length (pp_input s) = map length lines \<and>
     pp_printed s @ map printed_chunk (pc_unprinted (pp_child s)) = map printed_chunk (pp_chunks s) \<and>
     (\<forall>c \<in> set (pp_chunks s). 0 < length c \<and> length c \<le> 1024)"

text \<open>Which ends are open where.\<close>

definition parent_writing :: "pp_parent \<Rightarrow> bool" where
  "parent_writing p \<longleftrightarrow> p \<notin> {PpStart, PpWait, PpLast, PpExited, PpKilled, PpFailed True, PpFailed False}"

definition child_reading :: "pp_child \<Rightarrow> bool" where
  "child_reading p \<longleftrightarrow> p \<notin> {PcLast, PcExited, PcFailed True, PcFailed False}"

definition pipe_ends :: "pipe_kind \<Rightarrow> pipe_state \<Rightarrow> bool" where
  "pipe_ends kind s \<longleftrightarrow>
     (parent_w s \<longleftrightarrow> parent_writing (pp_parent s) \<or> pp_parent s = PpStart \<and> kind \<noteq> MkfifoIntro) \<and>
     (child_w s \<longleftrightarrow> pp_child s = PcStart \<and> kind \<noteq> MkfifoIntro) \<and>
     (child_r s \<longleftrightarrow> child_reading (pp_child s) \<and> (pp_child s = PcStart \<longrightarrow> kind \<noteq> MkfifoIntro)) \<and>
     (kind = DupIntro \<and> pp_child s \<notin> {PcStart, PcSecond} \<longrightarrow> child_stdin s)"

text \<open>How far each process can be ahead of the other.\<close>

definition pipe_sync :: "pipe_kind \<Rightarrow> pipe_state \<Rightarrow> bool" where
  "pipe_sync kind s \<longleftrightarrow>
     (kind = MkfifoIntro \<and> pp_child s \<notin> {PcStart, PcSecond} \<longrightarrow> pp_parent s \<noteq> PpStart) \<and>
     (kind = MkfifoIntro \<and> pp_parent s \<notin> {PpStart, PpOpening} \<longrightarrow> pp_child s \<noteq> PcStart) \<and>
     (pp_parent s = PpOpening \<longrightarrow> kind = MkfifoIntro) \<and>
     (pp_child s \<in> {PcClose, PcLast, PcExited} \<longrightarrow> pp_buf s = [] \<and> pp_parent s \<in> {PpWait, PpLast, PpExited}) \<and>
     (pp_parent s \<in> {PpClose, PpWait, PpLast, PpExited} \<longrightarrow> pp_input s = []) \<and>
     (pp_parent s \<in> {PpLast, PpExited} \<longrightarrow> pp_child s = PcExited) \<and>
     pp_exits s = (if pp_child s = PcExited then [Child] else []) @ (if pp_parent s = PpExited then [Parent] else []) \<and>
     pp_parent s \<notin> {PpKilled, PpFailed True, PpFailed False} \<and> pp_child s \<notin> {PcFailed True, PcFailed False}"

definition pipe_inv :: "pipe_kind \<Rightarrow> string list \<Rightarrow> pipe_state \<Rightarrow> bool" where
  "pipe_inv kind lines s \<longleftrightarrow> pipe_data lines s \<and> pipe_ends kind s \<and> pipe_sync kind s"

lemmas pipe_defs = pipe_data_def pipe_ends_def pipe_sync_def parent_writing_def child_reading_def opens_iff

lemma pipe_inv_init: "pipe_inv kind lines (pipe_init kind lines)"
  by (simp add: pipe_inv_def pipe_init_def pipe_defs Let_def)

lemma take_drop_append [simp]: "take k xs @ drop k xs @ ys = xs @ ys"
  by (metis append_assoc append_take_drop_id)

lemma pipe_write_cases:
  assumes "pipe_parent_step kind cap k s = Some s'" "pp_parent s = PpWrite rest n"
  obtains (all) "rest = []" "s' = s\<lparr>pp_parent := PpPrint n\<rparr>"
    | (killed) "\<not> child_r s" "s' = s\<lparr>parent_r := False, parent_w := False, pp_parent := PpKilled\<rparr>"
    | (moved) "rest \<noteq> []" "s' = s\<lparr>pp_buf := pp_buf s @ take k rest, pp_parent := PpWrite (drop k rest) n\<rparr>"
  using assms by (auto simp: pipe_parent_step_def split: if_splits)

lemma pipe_data_parent:
  assumes data: "pipe_data lines s" and st: "pipe_parent_step kind cap k s = Some s'" and r: "child_r s \<or> pp_parent s = PpStart"
  shows "pipe_data lines s'"
proof (cases "pp_parent s")
  case (PpWrite rest n)
  show ?thesis using st PpWrite
  proof (cases rule: pipe_write_cases)
    case killed
    then show ?thesis using r PpWrite by simp
  qed (use data PpWrite in \<open>simp_all add: pipe_data_def\<close>)
next
  case PpGetline
  then show ?thesis using data st by (cases "pp_input s") (clarsimp simp: pipe_data_def pipe_parent_step_def)+
next
  case (PpPrint n)
  then have "s' = s\<lparr>pp_wrote := pp_wrote s @ [n], pp_parent := PpGetline\<rparr>" using st by (simp add: pipe_parent_step_def)
  then show ?thesis using data PpPrint by (simp add: pipe_data_def)
qed (use data st in \<open>clarsimp simp: pipe_data_def pipe_parent_step_def split: if_splits\<close>)+

lemma pipe_read_cases:
  assumes "pipe_child_step kind k s = Some s'" "pp_child s = PcRead"
  obtains (eof) "pp_buf s = []" "\<not> parent_w s" "\<not> child_w s" "s' = s\<lparr>pp_child := PcClose\<rparr>"
    | (chunk) "0 < k" "k \<le> 1024" "k \<le> length (pp_buf s)"
      "s' = s\<lparr>pp_buf := drop k (pp_buf s), pp_chunks := pp_chunks s @ [take k (pp_buf s)],
             pp_child := PcPrint (take k (pp_buf s))\<rparr>"
  using assms by (auto simp: pipe_child_step_def split: if_splits)

lemma pipe_data_child:
  assumes data: "pipe_data lines s" and st: "pipe_child_step kind k s = Some s'"
  shows "pipe_data lines s'"
proof (cases "pp_child s")
  case PcStart
  then show ?thesis using assms by (cases kind) (clarsimp simp: pipe_data_def pipe_child_step_def)+
next
  case PcRead
  with st show ?thesis
  proof (cases rule: pipe_read_cases)
    case eof
    then show ?thesis using data PcRead by (simp add: pipe_data_def)
  next
    case chunk
    then show ?thesis using data PcRead by (auto simp: pipe_data_def)
  qed
next
  case (PcPrint chunk)
  then have "s' = s\<lparr>pp_printed := pp_printed s @ [printed_chunk chunk], pp_child := PcRead\<rparr>"
    using st by (simp add: pipe_child_step_def printed_chunk_def)
  then show ?thesis using data PcPrint by (simp add: pipe_data_def)
qed (use assms in \<open>clarsimp simp: pipe_data_def pipe_child_step_def split: if_splits\<close>)+

lemma pipe_ends_parent:
  assumes "pipe_ends kind s" and st: "pipe_parent_step kind cap k s = Some s'"
  shows "pipe_ends kind s'"
proof (cases "pp_parent s")
  case (PpWrite rest n)
  show ?thesis using st PpWrite
    by (cases rule: pipe_write_cases) (use assms(1) PpWrite in \<open>simp_all add: pipe_ends_def parent_writing_def child_reading_def\<close>)
qed (use assms in \<open>auto simp: pipe_parent_step_def split: if_splits list.splits, simp_all add: pipe_ends_def parent_writing_def child_reading_def\<close>)

lemma pipe_ends_child:
  assumes "pipe_ends kind s" and st: "pipe_child_step kind k s = Some s'"
  shows "pipe_ends kind s'"
proof (cases "pp_child s")
  case PcRead
  with st show ?thesis
    using assms(1) PcRead by (cases rule: pipe_read_cases) (simp_all add: pipe_ends_def child_reading_def)
qed (use assms in \<open>auto simp: pipe_child_step_def split: if_splits pipe_kind.splits, simp_all add: pipe_ends_def child_reading_def\<close>)

lemma pipe_sync_parent:
  assumes "pipe_ends kind s" "pipe_sync kind s" "pipe_parent_step kind cap k s = Some s'"
  shows "pipe_sync kind s'"
proof (cases "pp_parent s")
  case (PpWrite rest n)
  then have "child_r s" using assms(1,2) by (auto simp: pipe_ends_def pipe_sync_def child_reading_def)
  then show ?thesis using assms(2,3) PpWrite by (auto simp: pipe_sync_def pipe_parent_step_def opens_iff split: if_splits)
qed (use assms(2,3) in \<open>auto simp: pipe_parent_step_def split: if_splits list.splits, simp_all add: pipe_sync_def opens_iff\<close>)

lemma pipe_sync_child:
  assumes "pipe_ends kind s" "pipe_sync kind s" and st: "pipe_child_step kind k s = Some s'"
  shows "pipe_sync kind s'"
proof (cases "pp_child s")
  case PcRead
  with st show ?thesis
  proof (cases rule: pipe_read_cases)
    case eof
    have "pp_parent s \<in> {PpWait, PpLast, PpExited}"
      using eof PcRead assms(1,2) by (auto simp: pipe_ends_def pipe_sync_def parent_writing_def)
    then show ?thesis using assms(2) PcRead eof by (auto simp: pipe_sync_def)
  next
    case chunk
    then show ?thesis using assms(2) PcRead by (simp add: pipe_sync_def)
  qed
qed (use assms(2,3) in \<open>auto simp: pipe_child_step_def opens_iff split: if_splits pipe_kind.splits, simp_all add: pipe_sync_def\<close>)

lemma pipe_inv_parent:
  assumes inv: "pipe_inv kind lines s" and st: "pipe_parent_step kind cap k s = Some s'"
  shows "pipe_inv kind lines s'"
proof -
  have "pipe_data lines s'"
  proof (cases "child_r s \<or> pp_parent s = PpStart")
    case True
    then show ?thesis using inv st unfolding pipe_inv_def by (blast intro: pipe_data_parent)
  next
    case False
    then have "pp_parent s \<in> {PpOpening, PpWait, PpLast, PpExited}"
      using inv by (auto simp: pipe_inv_def pipe_ends_def pipe_sync_def child_reading_def)
    then consider "pp_parent s = PpOpening" | "pp_parent s = PpWait" | "pp_parent s = PpLast" | "pp_parent s = PpExited" by blast
    then have "unwritten (pp_parent s') = [] \<and> unprinted (pp_parent s') = [] \<and> unwritten (pp_parent s) = [] \<and>
        unprinted (pp_parent s) = [] \<and> pp_chunks s' = pp_chunks s \<and> pp_buf s' = pp_buf s \<and> pp_input s' = pp_input s \<and>
        pp_wrote s' = pp_wrote s \<and> pp_printed s' = pp_printed s \<and> pp_child s' = pp_child s"
      using st by cases (auto simp: pipe_parent_step_def split: if_splits)
    then show ?thesis using inv by (simp add: pipe_inv_def pipe_data_def)
  qed
  then show ?thesis using inv st pipe_ends_parent pipe_sync_parent unfolding pipe_inv_def by blast
qed

lemma pipe_inv_child:
  "pipe_inv kind lines s \<Longrightarrow> pipe_child_step kind k s = Some s' \<Longrightarrow> pipe_inv kind lines s'"
  unfolding pipe_inv_def by (blast intro: pipe_data_child pipe_ends_child pipe_sync_child)

section \<open>Termination\<close>

fun pp_pweight :: "pp_parent \<Rightarrow> nat" where
  "pp_pweight PpStart = 6" | "pp_pweight PpOpening = 5" | "pp_pweight PpGetline = 4"
| "pp_pweight (PpWrite rest n) = 4 * length rest + 6" | "pp_pweight (PpPrint n) = 5"
| "pp_pweight PpClose = 3" | "pp_pweight PpWait = 2" | "pp_pweight PpLast = 1" | "pp_pweight PpExited = 0" | "pp_pweight PpKilled = 0"
| "pp_pweight (PpFailed b) = 0"

fun pp_cweight :: "pp_child \<Rightarrow> nat" where
  "pp_cweight PcStart = 5" | "pp_cweight PcSecond = 4" | "pp_cweight PcRead = 3"
| "pp_cweight (PcPrint chunk) = 4" | "pp_cweight PcClose = 2" | "pp_cweight PcLast = 1" | "pp_cweight PcExited = 0"
| "pp_cweight (PcFailed b) = 0"

definition pipe_rank :: "pipe_state \<Rightarrow> nat" where
  "pipe_rank s =
     sum_list (map (\<lambda>l. 4 * length l + 4) (pp_input s)) + pp_pweight (pp_parent s) +
     3 * length (pp_buf s) + pp_cweight (pp_child s)"

lemma pipe_decrease: "pipe_step kind cap l s = Some s' \<Longrightarrow> pipe_rank s' < pipe_rank s"
proof (cases l)
  case (Pair who k)
  assume st: "pipe_step kind cap l s = Some s'"
  show ?thesis
  proof (cases who)
    case True
    then show ?thesis using st Pair
      by (cases "pp_parent s") (auto simp: pipe_parent_step_def pipe_rank_def split: if_splits list.splits)
  next
    case False
    then show ?thesis using st Pair
      by (cases "pp_child s") (auto simp: pipe_child_step_def pipe_rank_def split: if_splits pipe_kind.splits)
  qed
qed

lemma pipe_child_enabled:
  assumes "pipe_inv kind lines s" "pp_parent s \<notin> {PpStart, PpOpening, PpGetline}" "pp_child s \<noteq> PcExited"
    and "pp_buf s \<noteq> [] \<or> pp_parent s = PpWait"
  shows "\<exists>s'. pipe_child_step kind 1 s = Some s'"
  using assms
  by (cases "pp_child s"; cases kind; cases "pp_buf s")
    (auto simp: pipe_inv_def pipe_defs pipe_child_step_def)

lemma pipe_enabled:
  assumes inv: "pipe_inv kind lines s" and nf: "\<not> pipe_final s" and cap: "0 < cap"
  shows "\<exists>l s'. pipe_step kind cap l s = Some s'"
proof -
  have "(\<exists>s'. pipe_parent_step kind cap 1 s = Some s') \<or> (\<exists>s'. pipe_child_step kind 1 s = Some s')"
  proof (cases "pp_parent s")
    case PpOpening
    then show ?thesis using inv
      by (cases "pp_child s = PcStart")
        (auto simp: pipe_parent_step_def pipe_child_step_def pipe_inv_def pipe_defs split: pipe_kind.splits)
  next
    case (PpWrite rest n)
    show ?thesis
    proof (cases "rest = [] \<or> length (pp_buf s) + 1 \<le> cap")
      case True
      then show ?thesis using PpWrite inv
        by (cases rest) (auto simp: pipe_parent_step_def pipe_inv_def pipe_defs)
    next
      case False
      then have "pp_buf s \<noteq> []" using cap by auto
      moreover have "pp_child s \<noteq> PcExited" using inv PpWrite by (auto simp: pipe_inv_def pipe_defs)
      ultimately show ?thesis using pipe_child_enabled [OF inv] PpWrite by simp
    qed
  next
    case PpWait
    then show ?thesis using pipe_child_enabled [OF inv]
      by (cases "pp_child s = PcExited") (auto simp: pipe_parent_step_def)
  qed (use inv nf in \<open>auto simp: pipe_parent_step_def pipe_final_def pipe_inv_def pipe_defs split: list.splits\<close>)
  then show ?thesis
  proof
    assume "\<exists>s'. pipe_parent_step kind cap 1 s = Some s'"
    then have "\<exists>s'. pipe_step kind cap (True, 1) s = Some s'" by simp
    then show ?thesis by blast
  next
    assume "\<exists>s'. pipe_child_step kind 1 s = Some s'"
    then have "\<exists>s'. pipe_step kind cap (False, 1) s = Some s'" by simp
    then show ?thesis by blast
  qed
qed

text \<open>The capacity of a pipe on Linux.\<close>

interpretation pipe: machine_term "pipe_step kind 65536" "pipe_init kind lines" "pipe_inv kind lines" pipe_rank pipe_final
  for kind lines
proof unfold_locales
  show "pipe_inv kind lines (pipe_init kind lines)" by (rule pipe_inv_init)
  show "pipe_inv kind lines s'" if "pipe_inv kind lines s" "pipe_step kind 65536 l s = Some s'" for s l s'
    using that by (cases l) (auto intro: pipe_inv_parent pipe_inv_child split: if_splits)
  show "pipe_rank s' < pipe_rank s" if "pipe_step kind 65536 l s = Some s'" for s l s'
    using that by (rule pipe_decrease)
  show "\<exists>l s'. pipe_step kind 65536 l s = Some s'" if "pipe_inv kind lines s" "\<not> pipe_final s" for s
    using that by (rule pipe_enabled) simp
qed

section \<open>What arrives\<close>

lemma pipe_end_state:
  assumes "pipe_run kind lines s"
  shows "pipe_inv kind lines s \<and> pipe_final s"
  using assms pipe.reach_inv [of kind lines s] pipe.live.stuck_final [of kind lines s] by (auto simp: pipe_run_def)

lemma pipe_run_exists: "\<exists>s. pipe_run kind lines s"
proof -
  obtain s where s: "reach (pipe_step kind 65536) (pipe_init kind lines) s" "pipe_final s"
    using pipe.live.final_reachable [OF reach_init] by blast
  then have "stuck (pipe_step kind 65536) s"
    by (auto simp: stuck_def pipe_final_def pipe_parent_step_def pipe_child_step_def)
  with s(1) show ?thesis by (auto simp: pipe_run_def)
qed

lemma pipe_final_data:
  assumes "pipe_inv kind lines s" "pipe_final s"
  shows "concat (pp_chunks s) = concat lines \<and> pp_wrote s = map length lines \<and>
    pp_printed s = map printed_chunk (pp_chunks s) \<and> (\<forall>c \<in> set (pp_chunks s). 0 < length c \<and> length c \<le> 1024) \<and>
    pp_exits s = [Child, Parent]"
proof -
  have "pp_buf s = []" "pp_input s = []" using assms by (auto simp: pipe_inv_def pipe_sync_def pipe_final_def)
  then show ?thesis using assms by (simp add: pipe_inv_def pipe_data_def pipe_sync_def pipe_final_def)
qed

text \<open>A chunk that fills \<^verbatim>\<open>buf\<close> leaves no terminating zero, and the print runs past its end.\<close>

lemma printed_chunk_eq:
  assumes "CHR 0x00 \<notin> set c" "length c \<le> 1024"
  shows "printed_chunk c = (length c, if length c < 1024 then Some c else None)"
  using assms print_padded [of c "1024 - length c"] print_overrun [of c]
  by (simp add: printed_chunk_def read_buffer_def)

section \<open>Properties\<close>

text \<open>\<^verbatim>\<open>pipe_intro.cpp\<close>, \<^verbatim>\<open>dup.cpp\<close> and \<^verbatim>\<open>mkfifo_intro.cpp\<close> terminate on every input: a schedule has at most
  four steps per byte and four per line, and eleven more, so none goes on for ever.\<close>

theorem pipe_terminates:
  assumes "run (pipe_step kind 65536) ls (pipe_init kind lines) = Some s"
  shows "length ls \<le> 4 * length (concat lines) + 4 * length lines + 11 \<and>
    (stuck (pipe_step kind 65536) s \<longrightarrow> pipe_final s)"
proof
  have "length ls \<le> pipe_rank (pipe_init kind lines)" using assms by (rule pipe.run_length)
  moreover have "sum_list (map (\<lambda>l. 4 * length l + 4) xs) = 4 * length (concat xs) + 4 * length xs" for xs :: "string list"
    by (induction xs) simp_all
  ultimately show "length ls \<le> 4 * length (concat lines) + 4 * length lines + 11"
    by (simp add: pipe_rank_def pipe_init_def Let_def)
  show "stuck (pipe_step kind 65536) s \<longrightarrow> pipe_final s"
    using run_imp_reach [OF assms] pipe_end_state [of kind lines s] by (auto simp: pipe_run_def)
qed

theorem pipe_terminates_witness:
  "\<exists>ls s. run (pipe_step DupIntro 65536) ls (pipe_init DupIntro [''abc'']) = Some s \<and> length ls \<le> 27 \<and> pipe_final s"
proof -
  obtain s where s: "reach (pipe_step DupIntro 65536) (pipe_init DupIntro [''abc'']) s" "stuck (pipe_step DupIntro 65536) s"
    using pipe_run_exists by (auto simp: pipe_run_def)
  obtain ls where "run (pipe_step DupIntro 65536) ls (pipe_init DupIntro [''abc'']) = Some s"
    using reach_imp_run [OF s(1)] by blast
  then show ?thesis using pipe_terminates [of DupIntro ls "[''abc'']" s] s(2) by auto
qed

text \<open>C14: the three programs deliver their input. If the set-up succeeds the program has an outcome,
  and in every outcome both processes have exited, the child first, the parent has reported the length of every
  line, and the chunks the child has read are, one after the other, the bytes of all lines. If
  the lines have no zero bytes, the child has printed every chunk as it is, except that a chunk
  that fills the 1024 bytes of its buffer is printed past the end of the array (\<open>None\<close>).\<close>

theorem pipe_delivers:
  assumes ok: "checks = Inr ()" and nul: "CHR 0x00 \<notin> set (concat lines)"
  shows "(\<exists>r. pipe_program kind checks lines r) \<and>
    (\<forall>r. pipe_program kind checks lines r \<longrightarrow>
       (\<exists>s. r = Inr s \<and> pipe_final s \<and> pp_exits s = [Child, Parent] \<and> concat (pp_chunks s) = concat lines \<and> pp_wrote s = map length lines \<and>
          pp_printed s = map (\<lambda>c. (length c, if length c < 1024 then Some c else None)) (pp_chunks s)))"
proof (intro conjI allI impI)
  show "\<exists>r. pipe_program kind checks lines r" using ok pipe_run_exists by (simp add: pipe_program_def)
  fix r
  assume "pipe_program kind checks lines r"
  then obtain s where s: "r = Inr s" "pipe_run kind lines s" using ok by (auto simp: pipe_program_def)
  have d: "pipe_final s" "concat (pp_chunks s) = concat lines" "pp_wrote s = map length lines"
    "pp_printed s = map printed_chunk (pp_chunks s)" "\<forall>c \<in> set (pp_chunks s). length c \<le> 1024" "pp_exits s = [Child, Parent]"
    using pipe_end_state [OF s(2)] pipe_final_data by blast+
  have "CHR 0x00 \<notin> set c" if "c \<in> set (pp_chunks s)" for c
    using that nul unfolding d(2) [symmetric] by auto
  then have "pp_printed s = map (\<lambda>c. (length c, if length c < 1024 then Some c else None)) (pp_chunks s)"
    using d(4,5) printed_chunk_eq by simp
  then show "\<exists>s. r = Inr s \<and> pipe_final s \<and> pp_exits s = [Child, Parent] \<and> concat (pp_chunks s) = concat lines \<and> pp_wrote s = map length lines \<and>
      pp_printed s = map (\<lambda>c. (length c, if length c < 1024 then Some c else None)) (pp_chunks s)"
    using s(1) d by blast
qed

theorem pipe_delivers_witness:
  "\<exists>s. pipe_intro_main 0 100 [''abc'', ''de''] (Inr s) \<and> concat (pp_chunks s) = ''abcde'' \<and> pp_wrote s = [3, 2]"
proof -
  let ?checks = "in_order [CHECK_ERROR 0, CHECK_ERROR 100]"
  have ok: "?checks = Inr ()" by (simp add: in_order_ok)
  have nul: "CHR 0x00 \<notin> set (concat [''abc'', ''de''])" by simp
  obtain r where r: "pipe_program PipeIntro ?checks [''abc'', ''de''] r" using pipe_delivers [OF ok nul] by blast
  then obtain s where "r = Inr s" "concat (pp_chunks s) = ''abcde''" "pp_wrote s = [3, 2]"
    using pipe_delivers [OF ok nul, of PipeIntro] by auto
  with r show ?thesis by (auto simp: pipe_intro_main_def)
qed

text \<open>\<^verbatim>\<open>mkfifo_intro.cpp\<close> can be run once: it never removes its FIFO, so after a run, however it
  ended, \<^verbatim>\<open>mkfifo\<close> fails in the next run and the program exits with a failure.\<close>

theorem mkfifo_second_run_fails:
  assumes "mkfifo_intro_main exists pid lines (exists', r)"
    and "mkfifo_intro_main exists' pid' lines' (exists'', r')"
  shows "r' = Inl ExitFailure"
  using assms
  by (auto simp: mkfifo_intro_main_def mkfifo_call_def pipe_program_def CHECK_ERROR_def split: if_splits)

theorem mkfifo_second_run_fails_witness:
  "\<exists>s. mkfifo_intro_main False 100 [''abc''] (True, Inr s) \<and>
    mkfifo_intro_main True 101 [''abc''] (True, Inl ExitFailure) \<and> \<not> mkfifo_intro_main True 101 [''abc''] (True, Inr s)"
proof -
  obtain s where s: "pipe_run MkfifoIntro [''abc''] s" using pipe_run_exists by blast
  then have 1: "mkfifo_intro_main False 100 [''abc''] (True, Inr s)"
    by (simp add: mkfifo_intro_main_def mkfifo_call_def pipe_program_def CHECK_ERROR_def)
  have "mkfifo_intro_main True 101 [''abc''] (True, Inl ExitFailure)"
    by (simp add: mkfifo_intro_main_def mkfifo_call_def pipe_program_def CHECK_ERROR_def)
  then show ?thesis using 1 mkfifo_second_run_fails [OF 1, of 101 "[''abc'']" True "Inr s"] by auto
qed

end
