(* ===== verification/Pipe_Failures.thy ===== *)
theory Pipe_Failures
  imports Pipes
begin

text \<open>
  \<^verbatim>\<open>ipc/pipe_intro.cpp\<close>, \<^verbatim>\<open>ipc/dup.cpp\<close> and \<^verbatim>\<open>ipc/mkfifo_intro.cpp\<close> when system calls fail. Every call is checked, and a process whose
  call fails exits, on which the kernel closes its ends of the pipe. Unlike the programs on shared memory these end
  whatever fails: the other process sees the end of the input or is killed by \<^verbatim>\<open>SIGPIPE\<close>. The exception is the opening of
  a FIFO, which waits for the other end for ever.
\<close>

section \<open>The machine with failing calls\<close>

datatype pipe_who = Moves process nat | CallFails process

text \<open>Where a process is before a checked call. A \<^verbatim>\<open>write\<close> that has moved some of its bytes does not fail any more.\<close>

fun pp_calls :: "pp_parent \<Rightarrow> bool" where
  "pp_calls PpStart = True" | "pp_calls PpOpening = True" | "pp_calls (PpWrite rest n) = (length rest = n)"
| "pp_calls PpClose = True" | "pp_calls PpWait = True" | "pp_calls _ = False"

fun pc_calls :: "pp_child \<Rightarrow> bool" where
  "pc_calls PcStart = True" | "pc_calls PcSecond = True" | "pc_calls PcRead = True" | "pc_calls PcClose = True" | "pc_calls _ = False"

fun pipe_fail :: "process \<Rightarrow> pipe_state \<Rightarrow> pipe_state option" where
  "pipe_fail Parent s =
     (if pp_calls (pp_parent s)
      then Some (s\<lparr>parent_r := False, parent_w := False, pp_parent := PpFailed (parent_opens (pp_parent s))\<rparr>) else None)"
| "pipe_fail Child s =
     (if pc_calls (pp_child s)
      then Some (s\<lparr>child_r := False, child_w := False, child_stdin := False, pp_child := PcFailed (child_opens (pp_child s))\<rparr>)
      else None)"

fun pipe_fail_step :: "pipe_kind \<Rightarrow> nat \<Rightarrow> (pipe_who, pipe_state) machine" where
  "pipe_fail_step kind cap (Moves Parent k) s = pipe_parent_step kind cap k s"
| "pipe_fail_step kind cap (Moves Child k) s = pipe_child_step kind k s"
| "pipe_fail_step kind cap (CallFails p) s = pipe_fail p s"

definition pipe_over :: "pipe_state \<Rightarrow> bool" where
  "pipe_over s \<longleftrightarrow> pp_parent s \<in> {PpExited, PpKilled, PpFailed True, PpFailed False} \<and> child_over (pp_child s)"

section \<open>What holds whatever fails\<close>

definition parent_dead :: "pp_parent \<Rightarrow> bool" where
  "parent_dead p \<longleftrightarrow> p \<in> {PpKilled, PpFailed True, PpFailed False}"

text \<open>The bytes read and those in the pipe are the first bytes of the input.\<close>

definition fp_data :: "string list \<Rightarrow> pipe_state \<Rightarrow> bool" where
  "fp_data lines s \<longleftrightarrow>
     (\<exists>rest. concat (pp_chunks s) @ pp_buf s @ rest = concat lines \<and>
        (\<not> parent_dead (pp_parent s) \<longrightarrow> rest = unwritten (pp_parent s) @ concat (pp_input s))) \<and>
     pp_printed s @ map printed_chunk (pc_unprinted (pp_child s)) = map printed_chunk (pp_chunks s) \<and>
     (\<forall>c \<in> set (pp_chunks s). 0 < length c \<and> length c \<le> 1024)"

definition fp_ends :: "pipe_kind \<Rightarrow> pipe_state \<Rightarrow> bool" where
  "fp_ends kind s \<longleftrightarrow>
     (parent_r s \<longrightarrow> pp_parent s = PpStart \<and> kind \<noteq> MkfifoIntro) \<and>
     (pp_child s = PcSecond \<longrightarrow> kind \<noteq> PipeIntro) \<and>
     (parent_w s \<longrightarrow> parent_writing (pp_parent s) \<or> pp_parent s = PpStart) \<and>
     (child_w s \<longrightarrow> pp_child s = PcStart \<and> kind \<noteq> MkfifoIntro) \<and>
     (child_r s \<longleftrightarrow> child_reading (pp_child s) \<and> (pp_child s = PcStart \<longrightarrow> kind \<noteq> MkfifoIntro)) \<and>
     (kind = DupIntro \<and> pp_child s \<notin> {PcStart, PcSecond, PcLast, PcExited, PcFailed True, PcFailed False} \<longrightarrow> child_stdin s) \<and>
     (pp_parent s = PpOpening \<longrightarrow> kind = MkfifoIntro)"

definition fp_inv :: "pipe_kind \<Rightarrow> string list \<Rightarrow> pipe_state \<Rightarrow> bool" where
  "fp_inv kind lines s \<longleftrightarrow> fp_data lines s \<and> fp_ends kind s"

lemma fp_inv_init: "fp_inv kind lines (pipe_init kind lines)"
  by (simp add: fp_inv_def fp_data_def fp_ends_def pipe_init_def parent_dead_def parent_writing_def child_reading_def Let_def)

lemma fp_dataI:
  assumes "concat (pp_chunks s) @ pp_buf s @ rest = concat lines"
    "\<not> parent_dead (pp_parent s) \<Longrightarrow> rest = unwritten (pp_parent s) @ concat (pp_input s)"
    "pp_printed s @ map printed_chunk (pc_unprinted (pp_child s)) = map printed_chunk (pp_chunks s)"
    "\<forall>c \<in> set (pp_chunks s). 0 < length c \<and> length c \<le> 1024"
  shows "fp_data lines s"
  using assms unfolding fp_data_def by blast

lemma fp_data_parent:
  assumes data: "fp_data lines s" and st: "pipe_parent_step kind cap k s = Some s'"
  shows "fp_data lines s'"
proof -
  obtain rest where d: "concat (pp_chunks s) @ pp_buf s @ rest = concat lines"
      "\<not> parent_dead (pp_parent s) \<Longrightarrow> rest = unwritten (pp_parent s) @ concat (pp_input s)"
      "pp_printed s @ map printed_chunk (pc_unprinted (pp_child s)) = map printed_chunk (pp_chunks s)"
      "\<forall>c \<in> set (pp_chunks s). 0 < length c \<and> length c \<le> 1024"
    using data unfolding fp_data_def by blast
  show ?thesis
  proof (cases "pp_parent s")
    case (PpWrite r n)
    have rest: "rest = r @ concat (pp_input s)" using d(2) PpWrite by (simp add: parent_dead_def)
    show ?thesis using st PpWrite
    proof (cases rule: pipe_write_cases)
      case all
      then show ?thesis using d rest by (intro fp_dataI [of _ rest]) simp_all
    next
      case killed
      then show ?thesis using d by (intro fp_dataI [of _ rest]) (simp_all add: parent_dead_def)
    next
      case moved
      then show ?thesis using d(1,3,4) rest by (intro fp_dataI [of _ "drop k r @ concat (pp_input s)"]) simp_all
    qed
  next
    case PpGetline
    have rest: "rest = concat (pp_input s)" using d(2) PpGetline by (simp add: parent_dead_def)
    show ?thesis
    proof (cases "pp_input s")
      case Nil
      then have "s' = s\<lparr>pp_parent := PpClose\<rparr>" using st PpGetline by (simp add: pipe_parent_step_def)
      then show ?thesis using d(1,3,4) rest Nil by (intro fp_dataI [of _ rest]) simp_all
    next
      case (Cons l ls)
      then have "s' = s\<lparr>pp_parent := PpWrite l (length l), pp_input := ls\<rparr>" using st PpGetline by (simp add: pipe_parent_step_def)
      then show ?thesis using d(1,3,4) rest Cons by (intro fp_dataI [of _ rest]) simp_all
    qed
  next
    case (PpPrint n)
    then have "s' = s\<lparr>pp_wrote := pp_wrote s @ [n], pp_parent := PpGetline\<rparr>" using st by (simp add: pipe_parent_step_def)
    then show ?thesis using d PpPrint by (intro fp_dataI [of _ rest]) (simp_all add: parent_dead_def)
  next
    case PpStart
    then have "s' = s\<lparr>parent_w := True, pp_parent := PpOpening\<rparr> \<or> s' = s\<lparr>parent_r := False, pp_parent := PpGetline\<rparr>"
      using st by (simp add: pipe_parent_step_def split: if_splits)
    then show ?thesis using d PpStart by (elim disjE) (rule fp_dataI [of _ rest]; simp add: parent_dead_def)+
  next
    case PpOpening
    then have "s' = s\<lparr>pp_parent := PpGetline\<rparr>" using st by (simp add: pipe_parent_step_def split: if_splits)
    then show ?thesis using d PpOpening by (intro fp_dataI [of _ rest]) (simp_all add: parent_dead_def)
  next
    case PpClose
    then have "s' = s\<lparr>parent_w := False, pp_parent := PpWait\<rparr>" using st by (simp add: pipe_parent_step_def)
    then show ?thesis using d PpClose by (intro fp_dataI [of _ rest]) (simp_all add: parent_dead_def)
  next
    case PpWait
    then have "s' = s\<lparr>pp_parent := PpLast\<rparr>" using st by (simp add: pipe_parent_step_def split: if_splits)
    then show ?thesis using d PpWait by (intro fp_dataI [of _ rest]) (simp_all add: parent_dead_def)
  next
    case PpLast
    then have "s' = s\<lparr>pp_exits := pp_exits s @ [Parent], pp_parent := PpExited\<rparr>" using st by (simp add: pipe_parent_step_def)
    then show ?thesis using d PpLast by (intro fp_dataI [of _ rest]) (simp_all add: parent_dead_def)
  qed (use st in \<open>simp_all add: pipe_parent_step_def\<close>)
qed

lemma fp_data_same:
  assumes "fp_data lines s" "pp_chunks s' = pp_chunks s" "pp_buf s' = pp_buf s" "pp_parent s' = pp_parent s" "pp_input s' = pp_input s"
    "pp_printed s' = pp_printed s" "pc_unprinted (pp_child s') = pc_unprinted (pp_child s)"
  shows "fp_data lines s'"
  using assms by (simp add: fp_data_def)

lemma fp_data_child:
  assumes data: "fp_data lines s" and st: "pipe_child_step kind k s = Some s'"
  shows "fp_data lines s'"
proof (cases "pp_child s")
  case PcRead
  obtain rest where d: "concat (pp_chunks s) @ pp_buf s @ rest = concat lines"
      "\<not> parent_dead (pp_parent s) \<Longrightarrow> rest = unwritten (pp_parent s) @ concat (pp_input s)"
      "pp_printed s @ map printed_chunk (pc_unprinted (pp_child s)) = map printed_chunk (pp_chunks s)"
      "\<forall>c \<in> set (pp_chunks s). 0 < length c \<and> length c \<le> 1024"
    using data unfolding fp_data_def by blast
  from st PcRead show ?thesis
  proof (cases rule: pipe_read_cases)
    case eof
    then show ?thesis using d PcRead by (intro fp_dataI [of _ rest]) simp_all
  next
    case chunk
    then show ?thesis using d PcRead by (intro fp_dataI [of _ rest]) auto
  qed
next
  case (PcPrint c)
  then have "s' = s\<lparr>pp_printed := pp_printed s @ [printed_chunk c], pp_child := PcRead\<rparr>"
    using st by (simp add: pipe_child_step_def printed_chunk_def)
  then show ?thesis using data PcPrint by (simp add: fp_data_def)
qed (rule fp_data_same [OF data]; use st in \<open>auto simp: pipe_child_step_def split: if_splits pipe_kind.splits\<close>)+

lemma fp_data_fail:
  assumes data: "fp_data lines s" and st: "pipe_fail p s = Some s'"
  shows "fp_data lines s'"
proof -
  obtain rest where d: "concat (pp_chunks s) @ pp_buf s @ rest = concat lines"
      "\<not> parent_dead (pp_parent s) \<Longrightarrow> rest = unwritten (pp_parent s) @ concat (pp_input s)"
      "pp_printed s @ map printed_chunk (pc_unprinted (pp_child s)) = map printed_chunk (pp_chunks s)"
      "\<forall>c \<in> set (pp_chunks s). 0 < length c \<and> length c \<le> 1024"
    using data unfolding fp_data_def by blast
  show ?thesis
  proof (cases p)
    case Parent
    then have s': "s' = s\<lparr>parent_r := False, parent_w := False, pp_parent := PpFailed (parent_opens (pp_parent s))\<rparr>"
      using st by (simp split: if_splits)
    show ?thesis using d by (intro fp_dataI [of _ rest]) (simp_all add: s' parent_dead_def)
  next
    case Child
    then have s': "s' = s\<lparr>child_r := False, child_w := False, child_stdin := False, pp_child := PcFailed (child_opens (pp_child s))\<rparr>"
      and c: "pc_calls (pp_child s)"
      using st by (simp_all split: if_splits)
    have "pc_unprinted (pp_child s) = []" using c by (cases "pp_child s") simp_all
    then show ?thesis using d by (intro fp_dataI [of _ rest]) (simp_all add: s')
  qed
qed

lemma fp_ends_step:
  assumes inv: "fp_ends kind s" and st: "pipe_fail_step kind cap l s = Some s'"
  shows "fp_ends kind s'"
proof (cases "(kind, cap, l, s)" rule: pipe_fail_step.cases)
  case (1 kind' cap' k s0)
  then have st: "pipe_parent_step kind cap k s = Some s'" using st by simp
  show ?thesis
  proof (cases "pp_parent s")
    case (PpWrite rest n)
    with st show ?thesis
      by (cases rule: pipe_write_cases) (use inv PpWrite in \<open>simp_all add: fp_ends_def parent_writing_def\<close>)
  qed (use inv st in \<open>auto simp: pipe_parent_step_def split: if_splits list.splits, simp_all add: fp_ends_def parent_writing_def\<close>)
next
  case (2 kind' cap' k s0)
  then have st: "pipe_child_step kind k s = Some s'" using st by simp
  show ?thesis
  proof (cases "pp_child s")
    case PcRead
    with st show ?thesis
      by (cases rule: pipe_read_cases) (use inv PcRead in \<open>simp_all add: fp_ends_def child_reading_def\<close>)
  qed (use inv st in \<open>auto simp: pipe_child_step_def split: if_splits pipe_kind.splits, simp_all add: fp_ends_def child_reading_def\<close>)
next
  case (3 kind' cap' p s0)
  then have f: "pipe_fail p s = Some s'" using st by simp
  show ?thesis
  proof (cases p)
    case Parent
    then have s': "s' = s\<lparr>parent_r := False, parent_w := False, pp_parent := PpFailed (parent_opens (pp_parent s))\<rparr>"
      using f by (simp split: if_splits)
    show ?thesis using inv by (simp add: s' fp_ends_def)
  next
    case Child
    then have s': "s' = s\<lparr>child_r := False, child_w := False, child_stdin := False, pp_child := PcFailed (child_opens (pp_child s))\<rparr>"
      using f by (simp split: if_splits)
    show ?thesis using inv by (cases "child_opens (pp_child s)") (simp_all add: s' fp_ends_def child_reading_def)
  qed
qed

lemma fp_inv_step:
  assumes "fp_inv kind lines s" and st: "pipe_fail_step kind cap l s = Some s'"
  shows "fp_inv kind lines s'"
proof -
  have inv: "fp_data lines s" "fp_ends kind s" using assms(1) by (simp_all add: fp_inv_def)
  have "fp_data lines s'"
  proof (cases "(kind, cap, l, s)" rule: pipe_fail_step.cases)
    case (1 kind' cap' k s0)
    then show ?thesis using st by (intro fp_data_parent [OF inv(1)]) simp
  next
    case (2 kind' cap' k s0)
    then show ?thesis using st by (intro fp_data_child [OF inv(1)]) simp
  next
    case (3 kind' cap' p s0)
    then show ?thesis using st by (intro fp_data_fail [OF inv(1)]) simp
  qed
  then show ?thesis using fp_ends_step [OF inv(2) st] by (simp add: fp_inv_def)
qed

lemma fp_decrease: "pipe_fail_step kind cap l s = Some s' \<Longrightarrow> pipe_rank s' < pipe_rank s"
proof (cases "(kind, cap, l, s)" rule: pipe_fail_step.cases)
  case (1 kind' cap' k s0)
  assume "pipe_fail_step kind cap l s = Some s'"
  then have "pipe_step kind cap (True, k) s = Some s'" using 1 by simp
  then show ?thesis by (rule pipe_decrease)
next
  case (2 kind' cap' k s0)
  assume "pipe_fail_step kind cap l s = Some s'"
  then have "pipe_step kind cap (False, k) s = Some s'" using 2 by simp
  then show ?thesis by (rule pipe_decrease)
next
  case (3 kind' cap' p s0)
  assume "pipe_fail_step kind cap l s = Some s'"
  then have f: "pipe_fail p s = Some s'" using 3 by simp
  show ?thesis
  proof (cases p)
    case Parent
    then show ?thesis using f by (cases "pp_parent s") (auto simp: pipe_rank_def split: if_splits)
  next
    case Child
    then show ?thesis using f by (cases "pp_child s") (auto simp: pipe_rank_def split: if_splits)
  qed
qed

text \<open>Without a FIFO somebody can always move until both processes are over.\<close>

definition pipe_halted :: "pipe_kind \<Rightarrow> pipe_state \<Rightarrow> bool" where
  "pipe_halted kind s \<longleftrightarrow> (\<forall>p k. pipe_fail_step kind 65536 (Moves p k) s = None)"

lemma fp_child_enabled:
  assumes "fp_ends kind s" "kind \<noteq> MkfifoIntro" "\<not> child_over (pp_child s)" "pp_buf s \<noteq> [] \<or> \<not> parent_w s"
  shows "\<exists>s'. pipe_child_step kind 1 s = Some s'"
  using assms
  by (cases "pp_child s"; cases kind; cases "pp_buf s") (auto simp: fp_ends_def pipe_child_step_def child_reading_def)

lemma fp_enabled:
  assumes inv: "fp_inv kind lines s" and kind: "kind \<noteq> MkfifoIntro" and nf: "\<not> pipe_over s"
  shows "\<exists>p k s'. pipe_fail_step kind 65536 (Moves p k) s = Some s'"
proof -
  have ends: "fp_ends kind s" using inv by (simp add: fp_inv_def)
  have "(\<exists>s'. pipe_parent_step kind 65536 1 s = Some s') \<or> (\<exists>s'. pipe_child_step kind 1 s = Some s')"
  proof (cases "pp_parent s")
    case (PpWrite rest n)
    show ?thesis
    proof (cases "rest = [] \<or> \<not> child_r s \<or> length (pp_buf s) + 1 \<le> 65536")
      case True
      then show ?thesis using PpWrite ends
        by (cases rest) (auto simp: pipe_parent_step_def fp_ends_def)
    next
      case False
      then have "pp_buf s \<noteq> []" by auto
      moreover have "\<not> child_over (pp_child s)" using False ends by (auto simp: fp_ends_def opens_iff child_reading_def)
      ultimately show ?thesis using fp_child_enabled [OF ends kind] by simp
    qed
  next
    case PpWait
    then have "\<not> parent_w s" using ends by (auto simp: fp_ends_def parent_writing_def)
    then show ?thesis using PpWait fp_child_enabled [OF ends kind]
      by (cases "child_over (pp_child s)") (auto simp: pipe_parent_step_def)
  next
    case PpExited
    then have "\<not> parent_w s" using ends by (auto simp: fp_ends_def parent_writing_def)
    then show ?thesis using PpExited fp_child_enabled [OF ends kind] nf by (auto simp: pipe_over_def)
  next
    case PpKilled
    then have "\<not> parent_w s" using ends by (auto simp: fp_ends_def parent_writing_def)
    then show ?thesis using PpKilled fp_child_enabled [OF ends kind] nf by (auto simp: pipe_over_def)
  next
    case (PpFailed b)
    then have "\<not> parent_w s" using ends by (cases b) (auto simp: fp_ends_def parent_writing_def)
    then show ?thesis using PpFailed fp_child_enabled [OF ends kind] nf by (cases b) (auto simp: pipe_over_def)
  qed (use ends kind in \<open>auto simp: pipe_parent_step_def fp_ends_def split: list.splits\<close>)
  then show ?thesis by (metis pipe_fail_step.simps(1) pipe_fail_step.simps(2))
qed

interpretation fp: machine_inv "pipe_fail_step kind 65536" "pipe_init kind lines" "fp_inv kind lines" for kind lines
  by unfold_locales (rule fp_inv_init, rule fp_inv_step)

lemma fp_run_rank: "run (pipe_fail_step kind cap) ls s = Some t \<Longrightarrow> length ls + pipe_rank t \<le> pipe_rank s"
proof (induction ls arbitrary: s)
  case (Cons l ls)
  then obtain u where u: "pipe_fail_step kind cap l s = Some u" "run (pipe_fail_step kind cap) ls u = Some t"
    by (auto split: option.splits)
  then show ?case using Cons.IH [OF u(2)] fp_decrease [OF u(1)] by simp
qed simp

section \<open>Properties\<close>

text \<open>C16: whatever calls fail, at any point and in either process, \<^verbatim>\<open>pipe_intro.cpp\<close> and \<^verbatim>\<open>dup.cpp\<close> end: every schedule is bounded, and when
  neither process can move both have exited. The bytes the child has read are the first bytes of the input, and every chunk has
  been printed. \<^verbatim>\<open>mkfifo_intro.cpp\<close> is bounded too, but if the child cannot open the FIFO the parent waits in its own
  \<^verbatim>\<open>open\<close> for ever.\<close>

theorem pipe_failures:
  "(\<forall>ls s. run (pipe_fail_step kind 65536) ls (pipe_init kind lines) = Some s \<longrightarrow>
      length ls \<le> 4 * length (concat lines) + 4 * length lines + 11 \<and>
      (\<exists>rest. concat (pp_chunks s) @ rest = concat lines) \<and>
      (kind \<noteq> MkfifoIntro \<and> pipe_halted kind s \<longrightarrow> pipe_over s \<and> pp_printed s = map printed_chunk (pp_chunks s))) \<and>
   (\<exists>s. reach (pipe_fail_step MkfifoIntro 65536) (pipe_init MkfifoIntro lines) s \<and> pipe_halted MkfifoIntro s \<and>
      pp_child s = PcFailed False \<and> pp_parent s = PpOpening)"
proof (intro conjI allI impI)
  fix ls s
  assume r: "run (pipe_fail_step kind 65536) ls (pipe_init kind lines) = Some s"
  have "length ls \<le> pipe_rank (pipe_init kind lines)" using fp_run_rank [OF r] by simp
  moreover have "sum_list (map (\<lambda>l. 4 * length l + 4) xs) = 4 * length (concat xs) + 4 * length xs" for xs :: "string list"
    by (induction xs) simp_all
  ultimately show "length ls \<le> 4 * length (concat lines) + 4 * length lines + 11"
    by (simp add: pipe_rank_def pipe_init_def Let_def)
  have inv: "fp_inv kind lines s" using fp.run_inv [OF r] .
  then obtain rest where "concat (pp_chunks s) @ pp_buf s @ rest = concat lines"
    unfolding fp_inv_def fp_data_def by blast
  then show "\<exists>rest. concat (pp_chunks s) @ rest = concat lines" by blast
  assume h: "kind \<noteq> MkfifoIntro \<and> pipe_halted kind s"
  then show over: "pipe_over s" using fp_enabled [OF inv] by (fastforce simp: pipe_halted_def)
  then have "pc_unprinted (pp_child s) = []" by (cases "pp_child s") (auto simp: pipe_over_def)
  then show "pp_printed s = map printed_chunk (pp_chunks s)" using inv by (simp add: fp_inv_def fp_data_def)
next
  have "\<exists>s. run (pipe_fail_step MkfifoIntro 65536) [CallFails Child, Moves Parent 0] (pipe_init MkfifoIntro lines) = Some s \<and>
      pp_child s = PcFailed False \<and> pp_parent s = PpOpening"
    by (simp add: pipe_init_def pipe_parent_step_def Let_def)
  then obtain s where s: "reach (pipe_fail_step MkfifoIntro 65536) (pipe_init MkfifoIntro lines) s"
      "pp_child s = PcFailed False" "pp_parent s = PpOpening"
    using run_imp_reach by metis
  have "pipe_fail_step MkfifoIntro 65536 (Moves p k) s = None" for p k
    using s(2,3) by (cases p) (simp_all add: pipe_parent_step_def pipe_child_step_def)
  then show "\<exists>s. reach (pipe_fail_step MkfifoIntro 65536) (pipe_init MkfifoIntro lines) s \<and> pipe_halted MkfifoIntro s \<and>
      pp_child s = PcFailed False \<and> pp_parent s = PpOpening"
    using s by (auto simp: pipe_halted_def)
qed

theorem pipe_failures_witness:
  "\<exists>s. reach (pipe_fail_step MkfifoIntro 65536) (pipe_init MkfifoIntro [''abc'']) s \<and> pp_parent s = PpOpening"
  using pipe_failures [of PipeIntro "[''abc'']"] by blast

end
