(* ===== verification/Mqueue.thy ===== *)
theory Mqueue
  imports Sys_Error
begin

text \<open>
  \<^verbatim>\<open>ipc/mqueue.cpp\<close>: a parent sends the lines of its standard input through a POSIX message queue
  to a child, and a \<^verbatim>\<open>Stop\<close> message at the end. Both processes open the queue by its path with
  \<^verbatim>\<open>O_CREAT\<close> after the \<^verbatim>\<open>fork\<close>: whoever comes first creates it. The parent unlinks the path as soon
  as it has sent everything.

  If the child opens the path only after that, it creates a new, empty queue and waits on it for
  ever. The queue holds ten messages, so this cannot happen with ten or more lines: the parent
  then has to wait for the child to take messages.
\<close>

section \<open>Messages\<close>

datatype message_type = Default | Stop

record message =
  messageType :: message_type
  msg_data :: string

text \<open>\<^verbatim>\<open>Message::BufferSize\<close>; the data is cleared and filled from the front.\<close>

definition msg_fill :: "string \<Rightarrow> string" where
  "msg_fill input = take 1024 input @ replicate (1024 - min 1024 (length input)) (CHR 0x00)"

definition data_message :: "string \<Rightarrow> message" where
  "data_message input = \<lparr>messageType = Default, msg_data = msg_fill input\<rparr>"

definition stop_message :: message where
  "stop_message = \<lparr>messageType = Stop, msg_data = msg_fill []\<rparr>"

section \<open>The two processes\<close>

text \<open>Program points of the parent: before \<^verbatim>\<open>mq_open\<close>, \<^verbatim>\<open>getline\<close>, \<^verbatim>\<open>mq_send\<close> of a line and of the stop message, \<^verbatim>\<open>mq_close\<close>,
  \<^verbatim>\<open>mq_unlink\<close>, \<^verbatim>\<open>wait\<close>, the last print; exited; exited because a call failed. Of the child: before \<^verbatim>\<open>mq_open\<close>, \<^verbatim>\<open>mq_receive\<close>, the
  print, \<^verbatim>\<open>mq_close\<close>, the last print; exited; exited because a call failed. Failing calls are the subject of theory
  \<open>Mqueue_Failures\<close>.\<close>

datatype mq_ppc = MpOpen | MpLoop | MpSend string | MpStop | MpClose | MpUnlink | MpWait | MpLast | MpExited | MpFailed

datatype mq_cpc = McOpen | McReceive | McPrint message | McClose | McLast | McExited | McFailed

text \<open>\<open>mq_store\<close> are the queues ever created, \<open>mq_path\<close> is the one the path names. \<open>mq_received\<close> and
  \<open>mq_printed\<close> are what the child has taken out and what it has printed, \<open>mq_exits\<close> are the final messages.\<close>

record mq_state =
  mq_store :: "message list list"
  mq_path :: "nat option"
  mq_ppc :: mq_ppc
  mq_input :: "string list"
  mq_pqueue :: nat
  mq_cpc :: mq_cpc
  mq_cqueue :: nat
  mq_received :: "message list"
  mq_printed :: "(nat \<times> string option) list"
  mq_exits :: "process list"

text \<open>After the initial \<^verbatim>\<open>mq_unlink\<close> the path names nothing.\<close>

definition mq_init :: "string list \<Rightarrow> mq_state" where
  "mq_init lines =
     \<lparr>mq_store = [], mq_path = None, mq_ppc = MpOpen, mq_input = lines, mq_pqueue = 0, mq_cpc = McOpen,
      mq_cqueue = 0, mq_received = [], mq_printed = [], mq_exits = []\<rparr>"

text \<open>\<^verbatim>\<open>mq_open\<close> with \<^verbatim>\<open>O_CREAT\<close>: the queue the path names, or a new one.\<close>

definition mq_open :: "mq_state \<Rightarrow> mq_state \<times> nat" where
  "mq_open s =
     (case mq_path s of
        Some q \<Rightarrow> (s, q)
      | None \<Rightarrow> (s\<lparr>mq_store := mq_store s @ [[]], mq_path := Some (length (mq_store s))\<rparr>, length (mq_store s)))"

text \<open>\<^verbatim>\<open>mq_send\<close> blocks while the queue holds \<^verbatim>\<open>mq_maxmsg\<close> messages.\<close>

definition mq_send :: "message \<Rightarrow> mq_ppc \<Rightarrow> mq_state \<Rightarrow> mq_state option" where
  "mq_send m p s =
     (let q = mq_store s ! mq_pqueue s
      in if length q < 10 then Some (s\<lparr>mq_store := (mq_store s)[mq_pqueue s := q @ [m]], mq_ppc := p\<rparr>) else None)"

definition mq_parent_step :: "mq_state \<Rightarrow> mq_state option" where
  "mq_parent_step s =
     (case mq_ppc s of
        MpOpen \<Rightarrow> (case mq_open s of (s', q) \<Rightarrow> Some (s'\<lparr>mq_pqueue := q, mq_ppc := MpLoop\<rparr>))
      | MpLoop \<Rightarrow>
          (case mq_input s of
             [] \<Rightarrow> Some (s\<lparr>mq_ppc := MpStop\<rparr>)
           | input # rest \<Rightarrow> Some (s\<lparr>mq_ppc := MpSend input, mq_input := rest\<rparr>))
      | MpSend input \<Rightarrow> mq_send (data_message input) MpLoop s
      | MpStop \<Rightarrow> mq_send stop_message MpClose s
      | MpClose \<Rightarrow> Some (s\<lparr>mq_ppc := MpUnlink\<rparr>)
      | MpUnlink \<Rightarrow> Some (s\<lparr>mq_path := None, mq_ppc := MpWait\<rparr>)
      | MpWait \<Rightarrow> if mq_cpc s = McExited \<or> mq_cpc s = McFailed then Some (s\<lparr>mq_ppc := MpLast\<rparr>) else None
      | MpLast \<Rightarrow> Some (s\<lparr>mq_exits := mq_exits s @ [Parent], mq_ppc := MpExited\<rparr>)
      | MpExited \<Rightarrow> None
      | MpFailed \<Rightarrow> None)"

text \<open>\<^verbatim>\<open>sizeof(Message)\<close>, the size of every message and what \<^verbatim>\<open>mq_receive\<close> returns.\<close>

definition sizeof_Message :: nat where
  "sizeof_Message = 4 + 1024"

definition mq_child_step :: "mq_state \<Rightarrow> mq_state option" where
  "mq_child_step s =
     (case mq_cpc s of
        McOpen \<Rightarrow> (case mq_open s of (s', q) \<Rightarrow> Some (s'\<lparr>mq_cqueue := q, mq_cpc := McReceive\<rparr>))
      | McReceive \<Rightarrow>
          (case mq_store s ! mq_cqueue s of
             [] \<Rightarrow> None
           | m # q \<Rightarrow>
               Some (s\<lparr>mq_store := (mq_store s)[mq_cqueue s := q], mq_received := mq_received s @ [m],
                       mq_cpc := if messageType m = Stop then McClose else McPrint m\<rparr>))
      | McPrint m \<Rightarrow> Some (s\<lparr>mq_printed := mq_printed s @ [(sizeof_Message, print_c_string (msg_data m))], mq_cpc := McReceive\<rparr>)
      | McClose \<Rightarrow> Some (s\<lparr>mq_cpc := McLast\<rparr>)
      | McLast \<Rightarrow> Some (s\<lparr>mq_exits := mq_exits s @ [Child], mq_cpc := McExited\<rparr>)
      | McExited \<Rightarrow> None
      | McFailed \<Rightarrow> None)"

definition mq_step :: "(bool, mq_state) machine" where
  "mq_step who = (if who then mq_parent_step else mq_child_step)"

definition mq_final :: "mq_state \<Rightarrow> bool" where
  "mq_final s \<longleftrightarrow> mq_ppc s = MpExited \<and> mq_cpc s = McExited"

section \<open>The invariant\<close>

definition messages :: "string list \<Rightarrow> message list" where
  "messages lines = map data_message lines @ [stop_message]"

text \<open>What the parent has still to send.\<close>

fun unsent :: "mq_ppc \<Rightarrow> string list \<Rightarrow> message list" where
  "unsent MpOpen ls = messages ls"
| "unsent MpLoop ls = messages ls"
| "unsent (MpSend l) ls = data_message l # messages ls"
| "unsent MpStop ls = [stop_message]"
| "unsent p ls = []"

fun in_print :: "mq_cpc \<Rightarrow> message list" where
  "in_print (McPrint m) = [m]"
| "in_print c = []"

definition mq_output :: "message list \<Rightarrow> (nat \<times> string option) list" where
  "mq_output ms = map (\<lambda>m. (sizeof_Message, print_c_string (msg_data m))) (filter (\<lambda>m. messageType m = Default) ms)"

lemma mq_output_simps [simp]:
  "mq_output [] = []" "mq_output (ms @ ns) = mq_output ms @ mq_output ns"
  "mq_output [m] = (if messageType m = Default then [(sizeof_Message, print_c_string (msg_data m))] else [])"
  by (simp_all add: mq_output_def)

text \<open>The child has opened a queue that is not the parent's.\<close>

definition mq_missed :: "mq_state \<Rightarrow> bool" where
  "mq_missed s \<longleftrightarrow> mq_ppc s \<in> {MpWait} \<and> mq_cpc s = McReceive \<and> mq_cqueue s = 1 \<and> mq_received s = [] \<and>
     mq_exits s = [] \<and> (\<exists>q. mq_store s = [q, []])"

definition mq_opened :: "mq_state \<Rightarrow> bool" where
  "mq_opened s \<longleftrightarrow>
     (\<exists>q. mq_store s = [q]) \<and> mq_cqueue s = 0 \<and> mq_pqueue s = 0 \<and>
     (mq_path s = Some 0 \<or> mq_path s = None \<and> mq_ppc s \<in> {MpWait, MpLast, MpExited})"

definition mq_shared :: "string list \<Rightarrow> mq_state \<Rightarrow> bool" where
  "mq_shared lines s \<longleftrightarrow>
     (mq_store s = [] \<and> mq_path s = None \<and> mq_ppc s = MpOpen \<and> mq_cpc s = McOpen \<or> mq_opened s) \<and>
     mq_cqueue s = 0 \<and> mq_pqueue s = 0 \<and>
     mq_received s @ concat (mq_store s) @ unsent (mq_ppc s) (mq_input s) = messages lines \<and>
     (mq_ppc s \<in> {MpStop, MpClose, MpUnlink, MpWait, MpLast, MpExited} \<longrightarrow> mq_input s = []) \<and>
     (mq_cpc s = McOpen \<longrightarrow> mq_received s = []) \<and>
     (mq_cpc s \<in> {McClose, McLast, McExited} \<longleftrightarrow> stop_message \<in> set (mq_received s)) \<and>
     (mq_ppc s \<in> {MpLast, MpExited} \<longrightarrow> mq_cpc s = McExited) \<and> mq_ppc s \<noteq> MpFailed \<and> mq_cpc s \<noteq> McFailed \<and>
     mq_exits s = (if mq_cpc s = McExited then [Child] else []) @ (if mq_ppc s = MpExited then [Parent] else [])"

text \<open>The messages in the parent's queue, and what the child has printed.\<close>

definition mq_inv :: "string list \<Rightarrow> mq_state \<Rightarrow> bool" where
  "mq_inv lines s \<longleftrightarrow>
     (mq_shared lines s \<or> mq_missed s \<and> length lines < 10) \<and>
     (\<forall>q \<in> set (mq_store s). length q \<le> 10) \<and>
     (\<forall>m \<in> set (in_print (mq_cpc s)). messageType m = Default) \<and>
     mq_printed s @ mq_output (in_print (mq_cpc s)) = mq_output (mq_received s)"

lemma messages_Cons [simp]: "messages (l # ls) = data_message l # messages ls" "messages [] = [stop_message]"
  by (simp_all add: messages_def)

lemma message_types [simp]: "messageType (data_message l) = Default" "messageType stop_message = Stop"
  by (simp_all add: data_message_def stop_message_def)

lemma stop_not_data [simp]: "stop_message \<noteq> data_message l" "data_message l \<noteq> stop_message"
  by (simp_all add: data_message_def stop_message_def)

lemma messages_neq_Nil [simp]: "messages ls \<noteq> []" "[] \<noteq> messages ls"
  by (simp_all add: messages_def)

lemma length_messages [simp]: "length (messages ls) = Suc (length ls)"
  by (simp add: messages_def)

lemma mq_inv_init: "mq_inv lines (mq_init lines)"
  by (simp add: mq_inv_def mq_shared_def mq_init_def)

text \<open>The \<open>Stop\<close> message is the last one.\<close>

lemma messages_split:
  assumes "xs @ m # ys = messages lines"
  shows "messageType m = Stop \<longleftrightarrow> ys = []" "messageType m = Stop \<Longrightarrow> m = stop_message"
    and "stop_message \<notin> set xs"
  using assms
proof (induction lines arbitrary: xs)
  case Nil
  {
    case 1 then show ?case by (cases xs) auto
  next
    case 2 then show ?case by (cases xs) auto
  next
    case 3 then show ?case by (cases xs) auto
  }
next
  case (Cons l lines)
  {
    case 1 then show ?case using Cons.IH(1) by (cases xs) auto
  next
    case 2 then show ?case using Cons.IH(2) by (cases xs) auto
  next
    case 3 then show ?case using Cons.IH(3) by (cases xs) auto
  }
qed

lemma mq_shared_parent:
  assumes sh: "mq_shared lines s" and st: "mq_parent_step s = Some s'"
  shows "mq_shared lines s'"
proof (cases "mq_ppc s")
  case MpOpen
  show ?thesis
  proof (cases "mq_path s")
    case None
    then have e: "mq_store s = []" "mq_cpc s = McOpen" using MpOpen sh by (auto simp: mq_shared_def mq_opened_def)
    have "s' = s\<lparr>mq_store := [[]], mq_path := Some 0, mq_pqueue := 0, mq_ppc := MpLoop\<rparr>"
      using st MpOpen None e by (simp add: mq_parent_step_def mq_open_def)
    moreover have "mq_received s = []" using sh e by (simp add: mq_shared_def)
    ultimately show ?thesis using sh MpOpen e by (simp add: mq_shared_def mq_opened_def)
  next
    case (Some p)
    then have o: "mq_opened s" "p = 0" using sh by (auto simp: mq_shared_def mq_opened_def)
    have "s' = s\<lparr>mq_pqueue := 0, mq_ppc := MpLoop\<rparr>"
      using st MpOpen Some o by (simp add: mq_parent_step_def mq_open_def)
    then show ?thesis using sh MpOpen Some o by (simp add: mq_shared_def mq_opened_def)
  qed
next
  case MpLoop
  show ?thesis
  proof (cases "mq_input s")
    case Nil
    then have "s' = s\<lparr>mq_ppc := MpStop\<rparr>" using MpLoop st by (simp add: mq_parent_step_def)
    then show ?thesis using sh MpLoop Nil by (simp add: mq_shared_def mq_opened_def)
  next
    case (Cons l ls)
    then have "s' = s\<lparr>mq_ppc := MpSend l, mq_input := ls\<rparr>" using MpLoop st by (simp add: mq_parent_step_def)
    then show ?thesis using sh MpLoop Cons by (simp add: mq_shared_def mq_opened_def)
  qed
next
  case (MpSend l)
  then obtain q where "mq_store s = [q]" "s' = s\<lparr>mq_store := [q @ [data_message l]], mq_ppc := MpLoop\<rparr>"
    using sh st
    by (auto simp: mq_parent_step_def mq_send_def mq_shared_def mq_opened_def Let_def split: if_splits)
  then show ?thesis using sh MpSend by (simp add: mq_shared_def mq_opened_def)
next
  case MpStop
  then obtain q where "mq_store s = [q]" "s' = s\<lparr>mq_store := [q @ [stop_message]], mq_ppc := MpClose\<rparr>"
    using sh st
    by (auto simp: mq_parent_step_def mq_send_def mq_shared_def mq_opened_def Let_def split: if_splits)
  then show ?thesis using sh MpStop by (simp add: mq_shared_def mq_opened_def)
next
  case MpClose
  then have "s' = s\<lparr>mq_ppc := MpUnlink\<rparr>" using st by (simp add: mq_parent_step_def)
  then show ?thesis using sh MpClose by (simp add: mq_shared_def mq_opened_def)
next
  case MpUnlink
  then have "s' = s\<lparr>mq_path := None, mq_ppc := MpWait\<rparr>" using st by (simp add: mq_parent_step_def)
  then show ?thesis using sh MpUnlink by (simp add: mq_shared_def mq_opened_def)
next
  case MpWait
  then have "mq_cpc s = McExited" "s' = s\<lparr>mq_ppc := MpLast\<rparr>"
    using st sh by (auto simp: mq_parent_step_def mq_shared_def split: if_splits)
  then show ?thesis using sh MpWait by (simp add: mq_shared_def mq_opened_def)
next
  case MpLast
  then have "s' = s\<lparr>mq_exits := mq_exits s @ [Parent], mq_ppc := MpExited\<rparr>" using st by (simp add: mq_parent_step_def)
  moreover have "mq_cpc s = McExited" using sh MpLast by (simp add: mq_shared_def)
  ultimately show ?thesis using sh MpLast by (simp add: mq_shared_def mq_opened_def)
qed (use st in \<open>simp_all add: mq_parent_step_def\<close>)

lemma mq_shared_receive:
  assumes sh: "mq_shared lines s" and pc: "mq_cpc s = McReceive" and st: "mq_child_step s = Some s'"
  shows "mq_shared lines s'"
proof -
  obtain q0 where q0: "mq_store s = [q0]" using sh pc by (auto simp: mq_shared_def mq_opened_def)
  have cq: "mq_cqueue s = 0" using sh by (simp add: mq_shared_def)
  obtain m q where q: "q0 = m # q" using st pc q0 cq by (auto simp: mq_child_step_def split: list.splits)
  have s': "s' = s\<lparr>mq_store := [q], mq_received := mq_received s @ [m],
               mq_cpc := if messageType m = Stop then McClose else McPrint m\<rparr>"
    using st pc q0 cq q by (auto simp: mq_child_step_def)
  have eq: "mq_received s @ m # (q @ unsent (mq_ppc s) (mq_input s)) = messages lines"
    using sh q0 q by (simp add: mq_shared_def)
  have "stop_message \<in> set (mq_received s @ [m]) \<longleftrightarrow> messageType m = Stop"
    using messages_split [OF eq] by auto
  then show ?thesis using sh q0 q pc eq by (auto simp: s' mq_shared_def mq_opened_def)
qed

lemma mq_shared_child:
  assumes inv: "mq_inv lines s" and sh: "mq_shared lines s" and st: "mq_child_step s = Some s'"
  shows "mq_shared lines s' \<or> mq_missed s' \<and> length lines < 10"
proof (cases "mq_cpc s")
  case McOpen
  show ?thesis
  proof (cases "mq_path s = None \<and> mq_store s \<noteq> []")
    case True
    then obtain q where q: "mq_store s = [q]" and p: "mq_ppc s = MpWait"
      using sh McOpen by (auto simp: mq_shared_def mq_opened_def)
    have "q = messages lines" using sh McOpen q p by (auto simp: mq_shared_def)
    moreover have "length q \<le> 10" using inv q by (simp add: mq_inv_def)
    ultimately have "length lines < 10" by simp
    moreover have "mq_missed s'" using st McOpen True q p sh
      by (auto simp: mq_child_step_def mq_open_def mq_missed_def mq_shared_def)
    ultimately show ?thesis by blast
  next
    case False
    have "mq_shared lines s'"
    proof (cases "mq_path s")
      case None
      then have e: "mq_store s = []" "mq_ppc s = MpOpen" using False sh by (auto simp: mq_shared_def mq_opened_def)
      have r: "mq_received s = []" using sh McOpen by (simp add: mq_shared_def)
      have "s' = s\<lparr>mq_store := [[]], mq_path := Some 0, mq_cqueue := 0, mq_cpc := McReceive\<rparr>"
        using st McOpen None e by (simp add: mq_child_step_def mq_open_def)
      then show ?thesis using sh McOpen e r by (simp add: mq_shared_def mq_opened_def)
    next
      case (Some p)
      then have o: "mq_opened s" "p = 0" using sh by (auto simp: mq_shared_def mq_opened_def)
      have r: "mq_received s = []" using sh McOpen by (simp add: mq_shared_def)
      have "s' = s\<lparr>mq_cqueue := 0, mq_cpc := McReceive\<rparr>"
        using st McOpen Some o by (simp add: mq_child_step_def mq_open_def)
      then show ?thesis using sh McOpen Some o r by (simp add: mq_shared_def mq_opened_def)
    qed
    then show ?thesis ..
  qed
next
  case McReceive
  then show ?thesis using mq_shared_receive [OF sh _ st] by simp
next
  case (McPrint m)
  then have "s' = s\<lparr>mq_printed := mq_printed s @ [(sizeof_Message, print_c_string (msg_data m))], mq_cpc := McReceive\<rparr>"
    using st by (simp add: mq_child_step_def)
  then have "mq_shared lines s'" using sh McPrint by (simp add: mq_shared_def mq_opened_def) blast
  then show ?thesis ..
next
  case McClose
  then have "s' = s\<lparr>mq_cpc := McLast\<rparr>" using st by (simp add: mq_child_step_def)
  then have "mq_shared lines s'" using sh McClose by (simp add: mq_shared_def mq_opened_def) blast
  then show ?thesis ..
next
  case McLast
  then have "s' = s\<lparr>mq_exits := mq_exits s @ [Child], mq_cpc := McExited\<rparr>" using st by (simp add: mq_child_step_def)
  moreover have "mq_ppc s \<noteq> MpExited" using sh McLast by (auto simp: mq_shared_def)
  ultimately have "mq_shared lines s'" using sh McLast by (simp add: mq_shared_def mq_opened_def) blast
  then show ?thesis ..
qed (use st in \<open>simp_all add: mq_child_step_def\<close>)

lemma mq_missed_stuck: "mq_missed s \<Longrightarrow> mq_step who s = None"
  by (auto simp: mq_missed_def mq_step_def mq_parent_step_def mq_child_step_def)

lemma mq_shared_store:
  assumes "mq_shared lines s"
  shows "mq_store s = [] \<and> mq_ppc s = MpOpen \<and> mq_cpc s = McOpen \<or> (\<exists>q. mq_store s = [q])"
    and "mq_cqueue s = 0" "mq_pqueue s = 0"
  using assms by (auto simp: mq_shared_def mq_opened_def)

lemma mq_queue_bound:
  assumes b: "\<forall>q \<in> set (mq_store s). length q \<le> 10" and st: "mq_step who s = Some s'"
    and "mq_shared lines s"
  shows "\<forall>q \<in> set (mq_store s'). length q \<le> 10"
proof (cases who)
  case True
  then show ?thesis using b st mq_shared_store [OF assms(3)]
    by (cases "mq_ppc s")
      (auto simp: mq_step_def mq_parent_step_def mq_open_def mq_send_def Let_def
        split: option.splits list.splits if_splits)
next
  case False
  then show ?thesis using b st mq_shared_store [OF assms(3)]
    by (cases "mq_cpc s")
      (auto simp: mq_step_def mq_child_step_def mq_open_def split: option.splits list.splits)
qed

lemma not_Stop [simp]: "t \<noteq> Stop \<longleftrightarrow> t = Default"
  by (cases t) auto

lemma mq_print_ok:
  assumes d: "\<forall>m \<in> set (in_print (mq_cpc s)). messageType m = Default"
    and o: "mq_printed s @ mq_output (in_print (mq_cpc s)) = mq_output (mq_received s)" and st: "mq_step who s = Some s'"
  shows "(\<forall>m \<in> set (in_print (mq_cpc s')). messageType m = Default) \<and>
    mq_printed s' @ mq_output (in_print (mq_cpc s')) = mq_output (mq_received s')"
proof (cases who)
  case True
  then have "mq_cpc s' = mq_cpc s" "mq_printed s' = mq_printed s" "mq_received s' = mq_received s"
    using st
    by (auto simp: mq_step_def mq_parent_step_def mq_open_def mq_send_def Let_def
        split: mq_ppc.splits option.splits list.splits if_splits)
  then show ?thesis using d o by simp
next
  case False
  then have st: "mq_child_step s = Some s'" using st by (simp add: mq_step_def)
  show ?thesis
  proof (cases "mq_cpc s")
    case McReceive
    then obtain m q where "s' = s\<lparr>mq_store := (mq_store s)[mq_cqueue s := q], mq_received := mq_received s @ [m],
        mq_cpc := if messageType m = Stop then McClose else McPrint m\<rparr>"
      using st by (auto simp: mq_child_step_def split: list.splits)
    then show ?thesis using o McReceive by (cases "messageType m") simp_all
  next
    case (McPrint m)
    then have "s' = s\<lparr>mq_printed := mq_printed s @ [(sizeof_Message, print_c_string (msg_data m))], mq_cpc := McReceive\<rparr>"
      using st by (simp add: mq_child_step_def)
    then show ?thesis using o d McPrint by simp
  qed (use st o in \<open>auto simp: mq_child_step_def mq_open_def split: option.splits\<close>)
qed

lemma mq_inv_step:
  assumes inv: "mq_inv lines s" and st: "mq_step who s = Some s'"
  shows "mq_inv lines s'"
proof -
  have sh: "mq_shared lines s" using inv st mq_missed_stuck by (auto simp: mq_inv_def)
  have "mq_shared lines s' \<or> mq_missed s' \<and> length lines < 10"
    using mq_shared_parent [OF sh] mq_shared_child [OF inv sh] st by (cases who) (simp_all add: mq_step_def)
  moreover have "\<forall>q \<in> set (mq_store s'). length q \<le> 10"
    using inv mq_queue_bound [OF _ st sh] by (simp add: mq_inv_def)
  moreover have "(\<forall>m \<in> set (in_print (mq_cpc s')). messageType m = Default) \<and>
      mq_printed s' @ mq_output (in_print (mq_cpc s')) = mq_output (mq_received s')"
    using inv mq_print_ok [OF _ _ st] by (simp add: mq_inv_def)
  ultimately show ?thesis by (simp add: mq_inv_def)
qed

section \<open>Termination\<close>

fun mq_pweight :: "mq_ppc \<Rightarrow> nat" where
  "mq_pweight MpOpen = 11" | "mq_pweight MpLoop = 10" | "mq_pweight (MpSend l) = 14" | "mq_pweight MpStop = 9"
| "mq_pweight MpClose = 4" | "mq_pweight MpUnlink = 3" | "mq_pweight MpWait = 2" | "mq_pweight MpLast = 1"
| "mq_pweight MpExited = 0" | "mq_pweight MpFailed = 0"

fun mq_cweight :: "mq_cpc \<Rightarrow> nat" where
  "mq_cweight McOpen = 4" | "mq_cweight McReceive = 2" | "mq_cweight (McPrint m) = 3"
| "mq_cweight McClose = 2" | "mq_cweight McLast = 1" | "mq_cweight McExited = 0" | "mq_cweight McFailed = 0"

definition mq_rank :: "mq_state \<Rightarrow> nat" where
  "mq_rank s =
     6 * length (mq_input s) + mq_pweight (mq_ppc s) + 3 * length (concat (mq_store s)) + mq_cweight (mq_cpc s)"

lemma mq_decrease:
  assumes "mq_inv lines s" and st: "mq_step who s = Some s'"
  shows "mq_rank s' < mq_rank s"
proof -
  have sh: "mq_shared lines s" using assms mq_missed_stuck by (auto simp: mq_inv_def)
  note store = mq_shared_store [OF sh]
  show ?thesis
  proof (cases who)
    case True
    then show ?thesis using st store
      by (cases "mq_ppc s")
        (auto simp: mq_step_def mq_parent_step_def mq_open_def mq_send_def mq_rank_def Let_def
          split: option.splits list.splits if_splits)
  next
    case False
    then show ?thesis using st store
      by (cases "mq_cpc s")
        (auto simp: mq_step_def mq_child_step_def mq_open_def mq_rank_def split: option.splits list.splits)
  qed
qed

text \<open>Unless the child has missed the queue, one of the two can move until both have exited: when the parent finds the queue
  full, or waits for the child, the child has something to do.\<close>

lemma mq_child_enabled:
  assumes sh: "mq_shared lines s" and c: "mq_cpc s \<noteq> McExited" and q: "mq_store s \<noteq> [[]] \<or> mq_ppc s = MpWait"
  shows "\<exists>s'. mq_child_step s = Some s'"
proof (cases "mq_cpc s")
  case McReceive
  then obtain q where store: "mq_store s = [q]" using mq_shared_store(1) [OF sh] by auto
  have "q \<noteq> []"
  proof
    assume "q = []"
    then have "mq_received s = messages lines" using sh store q by (auto simp: mq_shared_def)
    then have "stop_message \<in> set (mq_received s)" by (simp add: messages_def)
    then show False using sh McReceive by (auto simp: mq_shared_def)
  qed
  then show ?thesis using McReceive store mq_shared_store(2) [OF sh] by (auto simp: mq_child_step_def neq_Nil_conv)
qed (use c sh in \<open>auto simp: mq_child_step_def mq_shared_def split: prod.splits\<close>)

lemma mq_enabled:
  assumes inv: "mq_inv lines s" and nf: "\<not> (mq_final s \<or> mq_missed s)"
  shows "\<exists>who s'. mq_step who s = Some s'"
proof -
  have sh: "mq_shared lines s" using inv nf by (auto simp: mq_inv_def)
  note store = mq_shared_store [OF sh]
  have send: "(\<exists>s'. mq_send m p s = Some s') \<or> (\<exists>s'. mq_child_step s = Some s')"
    if "unsent (mq_ppc s) (mq_input s) \<noteq> []" "mq_ppc s \<noteq> MpOpen" for m p
  proof (cases "length (mq_store s ! 0) < 10")
    case True
    then show ?thesis using store(3) by (auto simp: mq_send_def Let_def)
  next
    case False
    moreover have "mq_cpc s \<noteq> McExited"
    proof
      assume "mq_cpc s = McExited"
      then have "stop_message \<in> set (mq_received s)" using sh by (simp add: mq_shared_def)
      then obtain xs ys where split: "mq_received s = xs @ stop_message # ys" by (meson split_list)
      then have "xs @ stop_message # (ys @ concat (mq_store s) @ unsent (mq_ppc s) (mq_input s)) = messages lines"
        using sh by (simp add: mq_shared_def)
      from messages_split(1) [OF this] that(1) show False by simp
    qed
    ultimately have "\<exists>s'. mq_child_step s = Some s'" using store(1) that(2) mq_child_enabled [OF sh] by fastforce
    then show ?thesis ..
  qed
  have "(\<exists>s'. mq_parent_step s = Some s') \<or> (\<exists>s'. mq_child_step s = Some s')"
  proof (cases "mq_ppc s")
    case (MpSend l)
    then show ?thesis using send [of "data_message l" MpLoop] by (simp add: mq_parent_step_def)
  next
    case MpStop
    then show ?thesis using send [of stop_message MpClose] by (simp add: mq_parent_step_def)
  next
    case MpWait
    then show ?thesis using mq_child_enabled [OF sh] by (cases "mq_cpc s = McExited") (auto simp: mq_parent_step_def)
  next
    case MpExited
    then show ?thesis using sh nf by (auto simp: mq_shared_def mq_final_def)
  qed (use sh in \<open>auto simp: mq_parent_step_def mq_shared_def split: list.splits prod.splits\<close>)
  then show ?thesis
  proof
    assume "\<exists>s'. mq_parent_step s = Some s'"
    then have "\<exists>s'. mq_step True s = Some s'" by (simp add: mq_step_def)
    then show ?thesis by blast
  next
    assume "\<exists>s'. mq_child_step s = Some s'"
    then have "\<exists>s'. mq_step False s = Some s'" by (simp add: mq_step_def)
    then show ?thesis by blast
  qed
qed

interpretation mq: machine_term mq_step "mq_init lines" "mq_inv lines" mq_rank "\<lambda>s. mq_final s \<or> mq_missed s"
  for lines
proof unfold_locales
  show "mq_inv lines (mq_init lines)" by (rule mq_inv_init)
  show "mq_inv lines s'" if "mq_inv lines s" "mq_step who s = Some s'" for s who s'
    using that by (rule mq_inv_step)
  show "\<exists>who s'. mq_step who s = Some s'" if "mq_inv lines s" "\<not> (mq_final s \<or> mq_missed s)" for s
    using that by (rule mq_enabled)
  show "mq_rank s' < mq_rank s" if "mq_inv lines s" "mq_step who s = Some s'" for s who s'
    using that by (rule mq_decrease)
qed

section \<open>Properties\<close>

text \<open>What the child prints for a line: the line, if it has no zero byte and fewer than 1024
  characters; nothing ends the array otherwise.\<close>

lemma print_msg_fill:
  assumes "CHR 0x00 \<notin> set l"
  shows "print_c_string (msg_fill l) = (if length l < 1024 then Some l else None)"
proof (cases "length l < 1024")
  case True
  then have "msg_fill l = l @ replicate (1024 - length l) (CHR 0x00)" by (simp add: msg_fill_def)
  then show ?thesis using print_padded [OF assms, of "1024 - length l"] True by simp
next
  case False
  then have "msg_fill l = take 1024 l" by (simp add: msg_fill_def)
  moreover have "CHR 0x00 \<notin> set (take 1024 l)" using assms set_take_subset by fast
  ultimately show ?thesis using print_overrun False by simp
qed

lemma mq_output_messages: "mq_output (messages lines) = map (\<lambda>l. (sizeof_Message, print_c_string (msg_fill l))) lines"
  by (induction lines) (simp_all add: mq_output_def stop_message_def data_message_def)

lemma mq_final_output:
  assumes "mq_inv lines s" "mq_final s"
  shows "mq_exits s = [Child, Parent]" "mq_received s = messages lines" "mq_printed s = map (\<lambda>l. (sizeof_Message, print_c_string (msg_fill l))) lines"
proof -
  have sh: "mq_shared lines s" and c: "mq_cpc s = McExited" and p: "mq_ppc s = MpExited"
    using assms by (auto simp: mq_inv_def mq_final_def mq_missed_def)
  show "mq_exits s = [Child, Parent]" using sh c p by (simp add: mq_shared_def)
  have "stop_message \<in> set (mq_received s)" using sh c by (simp add: mq_shared_def)
  then obtain xs ys where split: "mq_received s = xs @ stop_message # ys" by (meson split_list)
  have eq: "mq_received s @ concat (mq_store s) = messages lines" using sh p by (simp add: mq_shared_def)
  with split have "xs @ stop_message # (ys @ concat (mq_store s)) = messages lines" by simp
  from messages_split(1) [OF this] have "concat (mq_store s) = []" by simp
  with eq show r: "mq_received s = messages lines" by (simp del: concat_eq_Nil_conv)
  show "mq_printed s = map (\<lambda>l. (sizeof_Message, print_c_string (msg_fill l))) lines"
    using assms(1) c r mq_output_messages by (simp add: mq_inv_def)
qed

definition mq_maximal :: "string list \<Rightarrow> mq_state \<Rightarrow> bool" where
  "mq_maximal lines s \<longleftrightarrow> reach mq_step (mq_init lines) s \<and> stuck mq_step s"

text \<open>\<^verbatim>\<open>main\<close> on the result of \<^verbatim>\<open>fork\<close> and the lines of standard input; the result of the first
  \<^verbatim>\<open>mq_unlink\<close> is not looked at.\<close>

definition mqueue_main :: "int \<Rightarrow> string list \<Rightarrow> failure + mq_state \<Rightarrow> bool" where
  "mqueue_main pid lines r =
     (case CHECK_ERROR pid of Inl f \<Rightarrow> r = Inl f | Inr _ \<Rightarrow> (\<exists>s. r = Inr s \<and> mq_maximal lines s))"

lemma mqueue_main_ok: "pid \<noteq> -1 \<Longrightarrow> mqueue_main pid lines r \<longleftrightarrow> (\<exists>s. r = Inr s \<and> mq_maximal lines s)"
  by (simp add: mqueue_main_def CHECK_ERROR_def)

lemma mq_maximal_final: "mq_maximal lines s \<Longrightarrow> 10 \<le> length lines \<Longrightarrow> mq_final s \<and> mq_inv lines s"
  using mq.live.stuck_final [of lines s] mq.reach_inv [of lines s]
  by (auto simp: mq_maximal_def mq_inv_def mq_shared_def mq_missed_def)

text \<open>C19: with ten or more lines of input, none with a zero byte, \<^verbatim>\<open>mqueue.cpp\<close> always ends: every
  schedule has at most 6n + 15 steps and a schedule that cannot be extended has both processes exited. The
  child has received one message per line and the stop message, in order, and printed each line, with the size 1028 of a message, that
  has fewer than 1024 characters; for a longer one it prints past the end of the array.\<close>

theorem mqueue_delivers:
  assumes "pid \<noteq> -1" "10 \<le> length lines" "\<forall>l \<in> set lines. CHR 0x00 \<notin> set l"
  shows "(\<forall>sched t. run mq_step sched (mq_init lines) = Some t \<longrightarrow> length sched \<le> 6 * length lines + 15) \<and>
    (\<forall>r. mqueue_main pid lines r \<longrightarrow>
      (\<exists>s. r = Inr s \<and> mq_final s \<and> mq_received s = map data_message lines @ [stop_message] \<and>
        mq_printed s = map (\<lambda>l. (1028, if length l < 1024 then Some l else None)) lines \<and> mq_exits s = [Child, Parent]))"
proof (intro conjI allI impI)
  show "length sched \<le> 6 * length lines + 15" if "run mq_step sched (mq_init lines) = Some t" for sched t
    using mq.run_length [OF that] by (simp add: mq_rank_def mq_init_def)
next
  fix r
  assume "mqueue_main pid lines r"
  then obtain s where r: "r = Inr s" and s: "mq_maximal lines s" using mqueue_main_ok [OF assms(1)] by blast
  have f: "mq_final s" "mq_inv lines s" using mq_maximal_final [OF s assms(2)] by simp_all
  have "map (\<lambda>l. (sizeof_Message, print_c_string (msg_fill l))) lines = map (\<lambda>l. (1028, if length l < 1024 then Some l else None)) lines"
    using assms(3) print_msg_fill by (simp add: sizeof_Message_def)
  then show "\<exists>s. r = Inr s \<and> mq_final s \<and> mq_received s = map data_message lines @ [stop_message] \<and>
      mq_printed s = map (\<lambda>l. (1028, if length l < 1024 then Some l else None)) lines \<and> mq_exits s = [Child, Parent]"
    using r f mq_final_output [OF f(2,1)] by (simp add: messages_def)
qed

lemma mqueue_main_total: "\<exists>r. mqueue_main pid lines r"
proof (cases "pid = -1")
  case True
  then show ?thesis by (simp add: mqueue_main_def CHECK_ERROR_def)
next
  case False
  have "\<exists>s. reach mq_step (mq_init lines) s \<and> (mq_final s \<or> mq_missed s)"
    using mq.live.final_reachable [of lines "mq_init lines"] by simp
  then obtain s where s: "reach mq_step (mq_init lines) s" "mq_final s \<or> mq_missed s" by blast
  from s(2) have "stuck mq_step s"
  proof
    assume "mq_final s"
    then show ?thesis by (simp add: stuck_def mq_final_def mq_step_def mq_parent_step_def mq_child_step_def)
  qed (simp add: stuck_def mq_missed_stuck)
  then show ?thesis using s(1) mqueue_main_ok [OF False] by (auto simp: mq_maximal_def)
qed

theorem mqueue_delivers_witness:
  "\<exists>s. mqueue_main 7 (replicate 12 ''hello'') (Inr s) \<and> mq_printed s = replicate 12 (1028, Some ''hello'')"
proof -
  obtain r where r: "mqueue_main 7 (replicate 12 ''hello'') r" using mqueue_main_total by blast
  have "\<exists>s. r = Inr s \<and> mq_printed s = replicate 12 (1028, Some ''hello'')"
    using mqueue_delivers [of 7 "replicate 12 ''hello''"] r by auto
  with r show ?thesis by blast
qed

text \<open>The parent alone: sends everything, closes, unlinks and waits.\<close>

fun parent_alone :: "nat \<Rightarrow> bool list" where
  "parent_alone n = [True] @ replicate (2 * n) True @ [True, True, True, True]"

lemma mq_parent_sends:
  assumes "length q + length ls \<le> 10"
  shows "run mq_step (replicate (2 * length ls) True)
     \<lparr>mq_store = [q], mq_path = Some 0, mq_ppc = MpLoop, mq_input = ls, mq_pqueue = 0, mq_cpc = McOpen,
      mq_cqueue = 0, mq_received = [], mq_printed = [], mq_exits = []\<rparr> =
     Some \<lparr>mq_store = [q @ map data_message ls], mq_path = Some 0, mq_ppc = MpLoop, mq_input = [], mq_pqueue = 0,
      mq_cpc = McOpen, mq_cqueue = 0, mq_received = [], mq_printed = [], mq_exits = []\<rparr>"
  using assms
proof (induction ls arbitrary: q)
  case (Cons l ls)
  then show ?case using Cons.IH [of "q @ [data_message l]"]
    by (simp add: mq_step_def mq_parent_step_def mq_send_def)
qed simp

text \<open>C20: with at most nine lines of input \<^verbatim>\<open>mqueue.cpp\<close> may hang: there is a schedule on which the
  parent sends everything and unlinks the path before the child opens it; the child then creates a
  queue of its own, receives nothing, and neither process ever moves again.\<close>

theorem mqueue_short_input_hangs:
  assumes "pid \<noteq> -1" "length lines \<le> 9"
  shows "\<exists>s. mqueue_main pid lines (Inr s) \<and> \<not> mq_final s \<and> mq_cpc s = McReceive \<and> mq_received s = [] \<and>
    mq_store s = [map data_message lines @ [stop_message], []]"
proof -
  define t where "t = \<lparr>mq_store = [map data_message lines @ [stop_message], []], mq_path = Some 1,
     mq_ppc = MpWait, mq_input = [], mq_pqueue = 0, mq_cpc = McReceive, mq_cqueue = 1, mq_received = [],
     mq_printed = [], mq_exits = []\<rparr>"
  have "run mq_step (parent_alone (length lines) @ [False]) (mq_init lines) = Some t"
    using assms(2) mq_parent_sends [of "[]" lines]
    by (simp add: run_append mq_step_def mq_parent_step_def mq_child_step_def mq_send_def mq_open_def mq_init_def t_def)
  then have "reach mq_step (mq_init lines) t" by (rule run_imp_reach)
  moreover have "stuck mq_step t" using mq_missed_stuck [of t] by (simp add: stuck_def mq_missed_def t_def)
  ultimately have "mqueue_main pid lines (Inr t)" using mqueue_main_ok [OF assms(1)] by (simp add: mq_maximal_def)
  then show ?thesis by (intro exI [of _ t]) (simp add: t_def mq_final_def)
qed

theorem mqueue_short_input_hangs_witness:
  "\<exists>s. mqueue_main 7 [''hello'', ''world''] (Inr s) \<and> \<not> mq_final s"
  using mqueue_short_input_hangs [of 7 "[''hello'', ''world'']"] by auto

end
