(* ===== verification/Mqueue_Failures.thy ===== *)
theory Mqueue_Failures
  imports Mqueue
begin

text \<open>
  \<^verbatim>\<open>ipc/mqueue.cpp\<close> when system calls fail. Every call is checked, and a process whose call fails exits. Whatever fails, what the
  child has printed are the first lines of the input; but a queue, unlike a pipe, does not tell a process that the other one is
  gone, so each of the two can be left waiting for ever.
\<close>

section \<open>The machine with failing calls\<close>

fun mp_calls :: "mq_ppc \<Rightarrow> bool" where
  "mp_calls MpOpen = True" | "mp_calls (MpSend l) = True" | "mp_calls MpStop = True" | "mp_calls MpClose = True"
| "mp_calls MpUnlink = True" | "mp_calls MpWait = True" | "mp_calls _ = False"

fun mc_calls :: "mq_cpc \<Rightarrow> bool" where
  "mc_calls McOpen = True" | "mc_calls McReceive = True" | "mc_calls McClose = True" | "mc_calls _ = False"

fun mq_fail :: "process \<Rightarrow> mq_state \<Rightarrow> mq_state option" where
  "mq_fail Parent s = (if mp_calls (mq_ppc s) then Some (s\<lparr>mq_ppc := MpFailed\<rparr>) else None)"
| "mq_fail Child s = (if mc_calls (mq_cpc s) then Some (s\<lparr>mq_cpc := McFailed\<rparr>) else None)"

fun mq_fail_step :: "(process \<times> outcome, mq_state) machine" where
  "mq_fail_step (p, Succeeds) s = mq_step (p = Parent) s"
| "mq_fail_step (p, Fails) s = mq_fail p s"

section \<open>What holds whatever fails\<close>

definition past_unlink :: "mq_ppc \<Rightarrow> bool" where
  "past_unlink p \<longleftrightarrow> p \<in> {MpWait, MpLast, MpExited, MpFailed}"

text \<open>No queue yet; the one queue of both processes; two queues, and the child on the second.\<close>

definition no_queue :: "string list \<Rightarrow> mq_state \<Rightarrow> bool" where
  "no_queue lines s \<longleftrightarrow>
     mq_store s = [] \<and> mq_path s = None \<and> mq_received s = [] \<and> mq_ppc s \<in> {MpOpen, MpFailed} \<and> mq_cpc s \<in> {McOpen, McFailed} \<and>
     (mq_ppc s = MpOpen \<longrightarrow> mq_input s = lines)"

definition one_queue :: "string list \<Rightarrow> mq_state \<Rightarrow> bool" where
  "one_queue lines s \<longleftrightarrow>
     (\<exists>q rest. mq_store s = [q] \<and> mq_received s @ q @ rest = messages lines \<and>
        (mq_ppc s \<noteq> MpFailed \<longrightarrow> rest = unsent (mq_ppc s) (mq_input s))) \<and>
     (mq_path s = Some 0 \<or> mq_path s = None \<and> past_unlink (mq_ppc s)) \<and> (mq_cpc s = McOpen \<longrightarrow> mq_received s = [])"

definition two_queues :: "mq_state \<Rightarrow> bool" where
  "two_queues s \<longleftrightarrow>
     (\<exists>q. mq_store s = [q, []]) \<and> mq_cqueue s = 1 \<and> mq_received s = [] \<and> past_unlink (mq_ppc s) \<and>
     mq_cpc s \<in> {McReceive, McFailed}"

definition mf_queues :: "string list \<Rightarrow> mq_state \<Rightarrow> bool" where
  "mf_queues lines s \<longleftrightarrow> mq_pqueue s = 0 \<and> (mq_cqueue s = 0 \<and> (no_queue lines s \<or> one_queue lines s) \<or> two_queues s)"

definition mf_inv :: "string list \<Rightarrow> mq_state \<Rightarrow> bool" where
  "mf_inv lines s \<longleftrightarrow>
     mf_queues lines s \<and> (\<forall>m \<in> set (in_print (mq_cpc s)). messageType m = Default) \<and>
     mq_printed s @ mq_output (in_print (mq_cpc s)) = mq_output (mq_received s)"

lemmas mf_defs = mf_queues_def no_queue_def one_queue_def two_queues_def past_unlink_def

lemma mf_inv_init: "mf_inv lines (mq_init lines)"
  by (simp add: mf_inv_def mf_defs mq_init_def)

lemma mf_queues_one:
  assumes "mq_pqueue s = 0" "mq_cqueue s = 0" "mq_store s = [q]" "mq_received s @ q @ rest = messages lines"
    "mq_ppc s \<noteq> MpFailed \<Longrightarrow> rest = unsent (mq_ppc s) (mq_input s)"
    "mq_path s = Some 0 \<or> mq_path s = None \<and> past_unlink (mq_ppc s)" "mq_cpc s = McOpen \<Longrightarrow> mq_received s = []"
  shows "mf_queues lines s"
  using assms unfolding mf_queues_def one_queue_def by blast

lemma mf_queues_parent:
  assumes q: "mf_queues lines s" and st: "mq_parent_step s = Some s'"
  shows "mf_queues lines s'"
proof -
  have p0: "mq_pqueue s = 0" using q by (simp add: mf_queues_def)
  consider (no) "mq_cqueue s = 0" "no_queue lines s" | (one) "mq_cqueue s = 0" "one_queue lines s" | (two) "two_queues s"
    using q by (auto simp: mf_queues_def)
  then show ?thesis
  proof cases
    case no
    then have "s' = s\<lparr>mq_store := [[]], mq_path := Some 0, mq_pqueue := 0, mq_ppc := MpLoop\<rparr>" "mq_input s = lines"
      using st by (auto simp: no_queue_def mq_parent_step_def mq_open_def)
    then show ?thesis using no p0 by (intro mf_queues_one [of _ "[]" "messages lines"]) (simp_all add: no_queue_def)
  next
    case one
    obtain q rest where d: "mq_store s = [q]" "mq_received s @ q @ rest = messages lines"
        "mq_ppc s \<noteq> MpFailed \<Longrightarrow> rest = unsent (mq_ppc s) (mq_input s)"
        "mq_path s = Some 0 \<or> mq_path s = None \<and> past_unlink (mq_ppc s)" "mq_cpc s = McOpen \<Longrightarrow> mq_received s = []"
      using one(2) unfolding one_queue_def by blast
    show ?thesis
    proof (cases "mq_ppc s")
      case MpOpen
      then have "s' = s\<lparr>mq_pqueue := 0, mq_ppc := MpLoop\<rparr>"
        using st d(4) by (auto simp: mq_parent_step_def mq_open_def past_unlink_def)
      then show ?thesis using MpOpen one(1) d by (intro mf_queues_one [of _ q rest]) (auto simp: past_unlink_def)
    next
      case MpLoop
      then have "s' = s\<lparr>mq_ppc := MpStop\<rparr> \<and> mq_input s = [] \<or>
          (\<exists>l ls. mq_input s = l # ls \<and> s' = s\<lparr>mq_ppc := MpSend l, mq_input := ls\<rparr>)"
        using st by (auto simp: mq_parent_step_def split: list.splits)
      then show ?thesis using MpLoop p0 one(1) d by (intro mf_queues_one [of _ q rest]) (auto simp: past_unlink_def)
    next
      case (MpSend l)
      then have "s' = s\<lparr>mq_store := [q @ [data_message l]], mq_ppc := MpLoop\<rparr>"
        using st d(1) p0 by (simp add: mq_parent_step_def mq_send_def split: if_splits)
      then show ?thesis using MpSend p0 one(1) d
        by (intro mf_queues_one [of _ "q @ [data_message l]" "messages (mq_input s)"]) (auto simp: past_unlink_def)
    next
      case MpStop
      then have "s' = s\<lparr>mq_store := [q @ [stop_message]], mq_ppc := MpClose\<rparr>"
        using st d(1) p0 by (simp add: mq_parent_step_def mq_send_def split: if_splits)
      then show ?thesis using MpStop p0 one(1) d
        by (intro mf_queues_one [of _ "q @ [stop_message]" "[]"]) (auto simp: past_unlink_def)
    next
      case MpClose
      then have "s' = s\<lparr>mq_ppc := MpUnlink\<rparr>" using st by (simp add: mq_parent_step_def)
      then show ?thesis using MpClose p0 one(1) d by (intro mf_queues_one [of _ q rest]) (auto simp: past_unlink_def)
    next
      case MpUnlink
      then have "s' = s\<lparr>mq_path := None, mq_ppc := MpWait\<rparr>" using st by (simp add: mq_parent_step_def)
      then show ?thesis using MpUnlink p0 one(1) d by (intro mf_queues_one [of _ q rest]) (auto simp: past_unlink_def)
    next
      case MpWait
      then have "s' = s\<lparr>mq_ppc := MpLast\<rparr>" using st by (simp add: mq_parent_step_def split: if_splits)
      then show ?thesis using MpWait p0 one(1) d by (intro mf_queues_one [of _ q rest]) (auto simp: past_unlink_def)
    next
      case MpLast
      then have "s' = s\<lparr>mq_exits := mq_exits s @ [Parent], mq_ppc := MpExited\<rparr>" using st by (simp add: mq_parent_step_def)
      then show ?thesis using MpLast p0 one(1) d by (intro mf_queues_one [of _ q rest]) (auto simp: past_unlink_def)
    qed (use st in \<open>simp_all add: mq_parent_step_def\<close>)
  next
    case two
    then have "mq_ppc s = MpWait \<or> mq_ppc s = MpLast" using st by (auto simp: two_queues_def past_unlink_def mq_parent_step_def)
    then have "s' = s\<lparr>mq_ppc := MpLast\<rparr> \<or> s' = s\<lparr>mq_exits := mq_exits s @ [Parent], mq_ppc := MpExited\<rparr>"
      using st by (auto simp: mq_parent_step_def split: if_splits)
    then show ?thesis using two p0 by (auto simp: mf_queues_def two_queues_def past_unlink_def)
  qed
qed

lemma mf_queues_child:
  assumes q: "mf_queues lines s" and st: "mq_child_step s = Some s'"
  shows "mf_queues lines s'"
proof -
  have p0: "mq_pqueue s = 0" using q by (simp add: mf_queues_def)
  consider (no) "mq_cqueue s = 0" "no_queue lines s" | (one) "mq_cqueue s = 0" "one_queue lines s" | (two) "two_queues s"
    using q by (auto simp: mf_queues_def)
  then show ?thesis
  proof cases
    case no
    then have "s' = s\<lparr>mq_store := [[]], mq_path := Some 0, mq_cqueue := 0, mq_cpc := McReceive\<rparr>"
      using st by (auto simp: no_queue_def mq_child_step_def mq_open_def)
    then show ?thesis using no p0 by (intro mf_queues_one [of _ "[]" "messages lines"]) (auto simp: no_queue_def)
  next
    case one
    obtain q rest where d: "mq_store s = [q]" "mq_received s @ q @ rest = messages lines"
        "mq_ppc s \<noteq> MpFailed \<Longrightarrow> rest = unsent (mq_ppc s) (mq_input s)"
        "mq_path s = Some 0 \<or> mq_path s = None \<and> past_unlink (mq_ppc s)" "mq_cpc s = McOpen \<Longrightarrow> mq_received s = []"
      using one(2) unfolding one_queue_def by blast
    show ?thesis
    proof (cases "mq_cpc s")
      case McOpen
      show ?thesis
      proof (cases "mq_path s")
        case None
        then have "s' = s\<lparr>mq_store := [q, []], mq_path := Some 1, mq_cqueue := 1, mq_cpc := McReceive\<rparr>" "past_unlink (mq_ppc s)"
          using st McOpen d by (simp_all add: mq_child_step_def mq_open_def)
        then show ?thesis using d(5) McOpen p0 by (simp add: mf_queues_def two_queues_def)
      next
        case (Some x)
        then have "s' = s\<lparr>mq_cqueue := 0, mq_cpc := McReceive\<rparr>" using st McOpen d(4) by (auto simp: mq_child_step_def mq_open_def)
        then show ?thesis using p0 d by (intro mf_queues_one [of _ q rest]) simp_all
      qed
    next
      case McReceive
      then obtain m q' where "q = m # q'" "s' = s\<lparr>mq_store := [q'], mq_received := mq_received s @ [m],
          mq_cpc := if messageType m = Stop then McClose else McPrint m\<rparr>"
        using st d(1) one(1) by (auto simp: mq_child_step_def split: list.splits)
      then show ?thesis using p0 one(1) d by (intro mf_queues_one [of _ q' rest]) (auto split: if_splits)
    next
      case (McPrint m)
      then have "s' = s\<lparr>mq_printed := mq_printed s @ [(sizeof_Message, print_c_string (msg_data m))], mq_cpc := McReceive\<rparr>"
        using st by (simp add: mq_child_step_def)
      then show ?thesis using p0 one(1) d by (intro mf_queues_one [of _ q rest]) simp_all
    next
      case McClose
      then have "s' = s\<lparr>mq_cpc := McLast\<rparr>" using st by (simp add: mq_child_step_def)
      then show ?thesis using p0 one(1) d by (intro mf_queues_one [of _ q rest]) simp_all
    next
      case McLast
      then have "s' = s\<lparr>mq_exits := mq_exits s @ [Child], mq_cpc := McExited\<rparr>" using st by (simp add: mq_child_step_def)
      then show ?thesis using p0 one(1) d by (intro mf_queues_one [of _ q rest]) simp_all
    qed (use st in \<open>simp_all add: mq_child_step_def\<close>)
  next
    case two
    then show ?thesis using st by (auto simp: two_queues_def mq_child_step_def)
  qed
qed

lemma mf_queues_fail:
  assumes q: "mf_queues lines s" and st: "mq_fail p s = Some s'"
  shows "mf_queues lines s'"
proof (cases p)
  case Parent
  then have "s' = s\<lparr>mq_ppc := MpFailed\<rparr>" using st by (simp split: if_splits)
  then show ?thesis using q unfolding mf_defs by auto
next
  case Child
  then have "s' = s\<lparr>mq_cpc := McFailed\<rparr>" using st by (simp split: if_splits)
  then show ?thesis using q unfolding mf_defs by auto
qed

lemma mf_inv_step:
  assumes inv: "mf_inv lines s" and st: "mq_fail_step l s = Some s'"
  shows "mf_inv lines s'"
proof (cases "(l, s)" rule: mq_fail_step.cases)
  case (1 p s0)
  then have st: "mq_step (p = Parent) s = Some s'" using st by simp
  have q: "mf_queues lines s" using inv by (simp add: mf_inv_def)
  have "mf_queues lines s'"
  proof (cases p)
    case Parent
    then show ?thesis using st by (intro mf_queues_parent [OF q]) (simp add: mq_step_def)
  next
    case Child
    then show ?thesis using st by (intro mf_queues_child [OF q]) (simp add: mq_step_def)
  qed
  then show ?thesis using inv mq_print_ok [OF _ _ st] by (simp add: mf_inv_def)
next
  case (2 p s0)
  then have st: "mq_fail p s = Some s'" using st by simp
  then have "in_print (mq_cpc s') = in_print (mq_cpc s) \<and> mq_printed s' = mq_printed s \<and> mq_received s' = mq_received s"
    by (cases p; cases "mq_cpc s") (auto split: if_splits)
  then show ?thesis using inv mf_queues_fail [OF _ st] by (simp add: mf_inv_def)
qed

lemma mf_decrease:
  assumes inv: "mf_inv lines s" and st: "mq_fail_step l s = Some s'"
  shows "mq_rank s' < mq_rank s"
proof (cases "(l, s)" rule: mq_fail_step.cases)
  case (1 p s0)
  then have st: "mq_step (p = Parent) s = Some s'" using st by simp
  have store: "mq_pqueue s = 0" "mq_store s = [] \<and> mq_cqueue s = 0 \<and> mq_ppc s \<in> {MpOpen, MpFailed} \<and> mq_cpc s \<in> {McOpen, McFailed} \<or>
      mq_cqueue s = 0 \<and> (\<exists>q. mq_store s = [q]) \<or> past_unlink (mq_ppc s) \<and> mq_cqueue s = 1 \<and> (\<exists>q. mq_store s = [q, []])"
    using inv by (auto simp: mf_inv_def mf_queues_def no_queue_def one_queue_def two_queues_def)
  show ?thesis
  proof (cases p)
    case Parent
    then show ?thesis using st store
      by (cases "mq_ppc s")
        (auto simp: mq_step_def mq_parent_step_def mq_open_def mq_send_def mq_rank_def Let_def past_unlink_def
          split: option.splits list.splits if_splits)
  next
    case Child
    then show ?thesis using st store
      by (cases "mq_cpc s")
        (auto simp: mq_step_def mq_child_step_def mq_open_def mq_rank_def split: option.splits list.splits)
  qed
next
  case (2 p s0)
  then have "mq_fail p s = Some s'" using st by simp
  then show ?thesis
    by (cases p; cases "mq_ppc s"; cases "mq_cpc s") (auto simp: mq_rank_def split: if_splits)
qed

text \<open>Nothing is claimed of the states in which such a schedule stops; each of the two processes may be waiting.\<close>

interpretation mf: machine_term mq_fail_step "mq_init lines" "mf_inv lines" mq_rank "stuck mq_fail_step" for lines
  by unfold_locales (auto simp: stuck_def intro: mf_inv_init mf_inv_step mf_decrease)

lemma mq_output_prefix:
  assumes "ms @ rest = messages lines"
  shows "\<exists>k. mq_output ms = map (\<lambda>l. (sizeof_Message, print_c_string (msg_fill l))) (take k lines)"
proof -
  have ms: "ms = take (length ms) (map data_message lines @ [stop_message])"
    using assms by (metis append_eq_conv_conj messages_def)
  have "mq_output ms = mq_output (take (length ms) (map data_message lines))"
  proof (cases "length ms \<le> length lines")
    case True
    then show ?thesis using ms by simp
  next
    case False
    then have "ms = map data_message lines @ [stop_message]"
      using ms by (cases "length ms - length lines") simp_all
    then show ?thesis by simp
  qed
  moreover have "mq_output (map data_message xs) = map (\<lambda>l. (sizeof_Message, print_c_string (msg_fill l))) xs" for xs
    by (induction xs) (simp_all add: mq_output_def data_message_def)
  ultimately show ?thesis by (metis take_map)
qed

lemma mf_printed:
  assumes "mf_inv lines s"
  shows "\<exists>k. mq_printed s = map (\<lambda>l. (sizeof_Message, print_c_string (msg_fill l))) (take k lines)"
proof -
  have "\<exists>rest. mq_received s @ rest = messages lines"
    using assms by (auto simp: mf_inv_def mf_queues_def no_queue_def one_queue_def two_queues_def)
  then obtain k where k: "mq_output (mq_received s) = map (\<lambda>l. (sizeof_Message, print_c_string (msg_fill l))) (take k lines)"
    using mq_output_prefix by blast
  then have "mq_printed s = take (length (mq_printed s)) (map (\<lambda>l. (sizeof_Message, print_c_string (msg_fill l))) (take k lines))"
    using assms by (metis append_eq_conv_conj mf_inv_def)
  then show ?thesis by (metis take_map take_take)
qed

section \<open>Properties\<close>

text \<open>The parent alone, when the child has failed to open the queue.\<close>

lemma mf_parent_sends:
  assumes "length q + length ls \<le> 10"
  shows "run mq_fail_step (replicate (2 * length ls) (Parent, Succeeds))
     \<lparr>mq_store = [q], mq_path = Some 0, mq_ppc = MpLoop, mq_input = ls @ ks, mq_pqueue = 0, mq_cpc = McFailed,
      mq_cqueue = 0, mq_received = [], mq_printed = [], mq_exits = []\<rparr> =
     Some \<lparr>mq_store = [q @ map data_message ls], mq_path = Some 0, mq_ppc = MpLoop, mq_input = ks, mq_pqueue = 0,
      mq_cpc = McFailed, mq_cqueue = 0, mq_received = [], mq_printed = [], mq_exits = []\<rparr>"
  using assms
proof (induction ls arbitrary: q)
  case (Cons l ls)
  then show ?case using Cons.IH [of "q @ [data_message l]"]
    by (simp add: mq_step_def mq_parent_step_def mq_send_def)
qed simp

text \<open>C21: failing calls of \<^verbatim>\<open>mqueue.cpp\<close>. Whatever calls fail, every schedule has at most 6n + 15 steps and the child has printed the first
  lines of the input. But neither process learns that the other has exited: if the first \<^verbatim>\<open>mq_send\<close> of the parent fails the child
  waits in \<^verbatim>\<open>mq_receive\<close> for ever, and if the child cannot open the queue a parent with ten or more lines waits for ever with the
  queue full, its path still in place.\<close>

theorem mqueue_failures:
  "(\<forall>ls s. run mq_fail_step ls (mq_init lines) = Some s \<longrightarrow>
      length ls \<le> 6 * length lines + 15 \<and>
      (\<exists>k. mq_printed s = map (\<lambda>l. (1028, print_c_string (msg_fill l))) (take k lines))) \<and>
   (\<exists>s. reach mq_fail_step (mq_init lines) s \<and> halted mq_fail_step s \<and> mq_ppc s = MpFailed \<and> mq_cpc s = McReceive) \<and>
   (10 \<le> length lines \<longrightarrow>
      (\<exists>s. reach mq_fail_step (mq_init lines) s \<and> halted mq_fail_step s \<and> mq_cpc s = McFailed \<and>
         mq_ppc s \<notin> {MpExited, MpFailed} \<and> mq_store s = [map data_message (take 10 lines)] \<and> mq_path s = Some 0))"
proof (intro conjI allI impI)
  fix ls s
  assume r: "run mq_fail_step ls (mq_init lines) = Some s"
  show "length ls \<le> 6 * length lines + 15" using mf.run_length [OF r] by (simp add: mq_rank_def mq_init_def)
  show "\<exists>k. mq_printed s = map (\<lambda>l. (1028, print_c_string (msg_fill l))) (take k lines)"
    using mf_printed [OF mf.run_inv [OF r]] by (simp add: sizeof_Message_def)
next
  have "\<exists>s. run mq_fail_step [(Parent, Succeeds), (Child, Succeeds), (Parent, Succeeds), (Parent, Fails)] (mq_init lines) = Some s \<and>
      halted mq_fail_step s \<and> mq_ppc s = MpFailed \<and> mq_cpc s = McReceive"
    by (cases lines) (simp_all add: mq_init_def mq_step_def mq_parent_step_def mq_child_step_def mq_open_def halted_def)
  then show "\<exists>s. reach mq_fail_step (mq_init lines) s \<and> halted mq_fail_step s \<and> mq_ppc s = MpFailed \<and> mq_cpc s = McReceive"
    using run_imp_reach by metis
next
  assume n: "10 \<le> length lines"
  define t where "t p rest = \<lparr>mq_store = [map data_message (take 10 lines)], mq_path = Some 0, mq_ppc = p, mq_input = rest, mq_pqueue = 0,
      mq_cpc = McFailed, mq_cqueue = 0, mq_received = [], mq_printed = [], mq_exits = []\<rparr>" for p rest
  have "run mq_fail_step ([(Child, Fails), (Parent, Succeeds)] @ replicate (2 * length (take 10 lines)) (Parent, Succeeds)) (mq_init lines) =
      Some (t MpLoop (drop 10 lines))"
    using mf_parent_sends [of "[]" "take 10 lines" "drop 10 lines"] n
    by (simp add: mq_init_def mq_step_def mq_parent_step_def mq_open_def t_def)
  then have r: "reach mq_fail_step (mq_init lines) (t MpLoop (drop 10 lines))" by (rule run_imp_reach)
  obtain p rest where p: "mq_fail_step (Parent, Succeeds) (t MpLoop (drop 10 lines)) = Some (t p rest)" "p = MpStop \<or> (\<exists>l. p = MpSend l)"
    by (cases "drop 10 lines") (auto simp: t_def mq_step_def mq_parent_step_def)
  have "halted mq_fail_step (t p rest)"
    using p(2) n by (auto simp: halted_def t_def mq_step_def mq_parent_step_def mq_child_step_def mq_send_def)
  moreover have "reach mq_fail_step (mq_init lines) (t p rest)" using r p(1) by (rule reach_step)
  ultimately show "\<exists>s. reach mq_fail_step (mq_init lines) s \<and> halted mq_fail_step s \<and> mq_cpc s = McFailed \<and>
         mq_ppc s \<notin> {MpExited, MpFailed} \<and> mq_store s = [map data_message (take 10 lines)] \<and> mq_path s = Some 0"
    using p(2) by (intro exI [of _ "t p rest"]) (auto simp: t_def)
qed

theorem mqueue_failures_witness:
  "\<exists>s. reach mq_fail_step (mq_init (replicate 12 ''hello'')) s \<and> halted mq_fail_step s \<and> mq_cpc s = McFailed \<and>
    length (hd (mq_store s)) = 10"
  using mqueue_failures [of "replicate 12 ''hello''"] by auto

end
