(* ===== verification/Worker_Thread.thy ===== *)
theory Worker_Thread
  imports Prelude "HOL-Library.Sublist"
begin

text \<open>
  \<^verbatim>\<open>synchronization_primitives/condition_variable/condition_variable_any.cpp\<close>: class \<^verbatim>\<open>Worker\<close> runs the
  tasks it is given on a thread of its own. \<^verbatim>\<open>AddTask\<close> pushes a task under the mutex and notifies a
  condition variable; \<^verbatim>\<open>WorkerThread\<close> waits for tasks, swaps the whole vector out and executes it. The
  destructor of the \<^verbatim>\<open>jthread\<close> requests a stop and joins.

  Tasks are executed in order, each at most once. But the wait does not take the stop token: a
  worker that waits when the stop is requested is never woken, and the destructor never returns. And
  a worker that sees the stop request leaves the tasks it has not taken unexecuted.
\<close>

section \<open>The class and its client\<close>

text \<open>Program points of the owner: between calls, in \<^verbatim>\<open>AddTask\<close> holding the mutex before and after the
  push, before the notification, joining in the destructor, returned. Of the worker: at the loop head,
  before the \<^verbatim>\<open>unique_lock\<close>, evaluating the predicate, blocked in the wait, woken, before the swap and
  holding the swapped-out tasks, executing them, returned.\<close>

datatype wk_main_pc = WmNext | WmPush int | WmUnlock | WmNotify | WmJoin | WmReturned

datatype wk_pc =
    WkHead | WkLock | WkTest | WkWaiting | WkWoken | WkSwap | WkUnlock "int list" | WkExec "int list" | WkExited

datatype wk_who = WkMain | WkThread | WkSpurious

record worker =
  wk_owner :: "wk_who option"
  wk_tasks :: "int list"
  wk_stop :: bool
  wk_main :: wk_main_pc
  wk_todo :: "int list"
  wk_pc :: wk_pc
  wk_out :: "int list"

text \<open>The calls of \<^verbatim>\<open>AddTask\<close> the owner will make are \<open>wk_todo\<close>; \<open>wk_out\<close> are the tasks executed.\<close>

definition worker_init :: "int list \<Rightarrow> worker" where
  "worker_init tasks =
     \<lparr>wk_owner = None, wk_tasks = [], wk_stop = False, wk_main = WmNext, wk_todo = tasks, wk_pc = WkHead, wk_out = []\<rparr>"

text \<open>The lock is taken by a step that is enabled only when it is free.\<close>

definition wk_acquire :: "wk_who \<Rightarrow> worker \<Rightarrow> worker option" where
  "wk_acquire who s = (if wk_owner s = None then Some (s\<lparr>wk_owner := Some who\<rparr>) else None)"

definition AddTask_lock :: "int \<Rightarrow> worker \<Rightarrow> worker option" where
  "AddTask_lock task s = map_option (\<lambda>s. s\<lparr>wk_main := WmPush task\<rparr>) (wk_acquire WkMain s)"

definition wk_notify_one :: "worker \<Rightarrow> worker" where
  "wk_notify_one s = (if wk_pc s = WkWaiting then s\<lparr>wk_pc := WkWoken\<rparr> else s)"

definition main_thread_step :: "worker \<Rightarrow> worker option" where
  "main_thread_step s =
     (case wk_main s of
        WmNext \<Rightarrow>
          (case wk_todo s of
             [] \<Rightarrow> Some (s\<lparr>wk_stop := True, wk_main := WmJoin\<rparr>)
           | task # rest \<Rightarrow> map_option (\<lambda>s. s\<lparr>wk_todo := rest\<rparr>) (AddTask_lock task s))
      | WmPush task \<Rightarrow> Some (s\<lparr>wk_tasks := wk_tasks s @ [task], wk_main := WmUnlock\<rparr>)
      | WmUnlock \<Rightarrow> Some (s\<lparr>wk_owner := None, wk_main := WmNotify\<rparr>)
      | WmNotify \<Rightarrow> Some ((wk_notify_one s)\<lparr>wk_main := WmNext\<rparr>)
      | WmJoin \<Rightarrow> if wk_pc s = WkExited then Some (s\<lparr>wk_main := WmReturned\<rparr>) else None
      | WmReturned \<Rightarrow> None)"

definition WorkerThread :: "worker \<Rightarrow> worker option" where
  "WorkerThread s =
     (case wk_pc s of
        WkHead \<Rightarrow> Some (s\<lparr>wk_pc := if wk_stop s then WkExited else WkLock\<rparr>)
      | WkLock \<Rightarrow> map_option (\<lambda>s. s\<lparr>wk_pc := WkTest\<rparr>) (wk_acquire WkThread s)
      | WkTest \<Rightarrow>
          if wk_tasks s \<noteq> [] then Some (s\<lparr>wk_pc := WkSwap\<rparr>)
          else Some (s\<lparr>wk_owner := None, wk_pc := WkWaiting\<rparr>)
      | WkWaiting \<Rightarrow> None
      | WkWoken \<Rightarrow> map_option (\<lambda>s. s\<lparr>wk_pc := WkTest\<rparr>) (wk_acquire WkThread s)
      | WkSwap \<Rightarrow> Some (s\<lparr>wk_tasks := [], wk_pc := WkUnlock (wk_tasks s)\<rparr>)
      | WkUnlock tasks \<Rightarrow> Some (s\<lparr>wk_owner := None, wk_pc := WkExec tasks\<rparr>)
      | WkExec [] \<Rightarrow> Some (s\<lparr>wk_pc := WkHead\<rparr>)
      | WkExec (task # tasks) \<Rightarrow> Some (s\<lparr>wk_out := wk_out s @ [task], wk_pc := WkExec tasks\<rparr>)
      | WkExited \<Rightarrow> None)"

fun worker_step :: "(wk_who, worker) machine" where
  "worker_step WkMain s = main_thread_step s"
| "worker_step WkThread s = WorkerThread s"
| "worker_step WkSpurious s = (if wk_pc s = WkWaiting then Some (s\<lparr>wk_pc := WkWoken\<rparr>) else None)"

text \<open>\<^verbatim>\<open>main\<close> adds three tasks and destroys the worker.\<close>

definition cv_any_main :: "worker \<Rightarrow> bool" where
  "cv_any_main s \<longleftrightarrow> reach worker_step (worker_init [10, 4, 5]) s"

section \<open>Invariant\<close>

fun wk_taken :: "wk_pc \<Rightarrow> int list" where
  "wk_taken (WkUnlock ts) = ts" | "wk_taken (WkExec ts) = ts" | "wk_taken _ = []"

fun wk_adding :: "wk_main_pc \<Rightarrow> int list" where
  "wk_adding (WmPush t) = [t]" | "wk_adding _ = []"

fun wm_locked :: "wk_main_pc \<Rightarrow> bool" where
  "wm_locked (WmPush t) = True" | "wm_locked WmUnlock = True" | "wm_locked _ = False"

fun wk_locked :: "wk_pc \<Rightarrow> bool" where
  "wk_locked WkTest = True" | "wk_locked WkSwap = True" | "wk_locked (WkUnlock ts) = True" | "wk_locked _ = False"

text \<open>Every task is in exactly one place, in order; the mutex is held exactly by the thread that is
  inside; a worker waits on a non-empty vector only while its notification is under way.\<close>

definition wk_order :: "int list \<Rightarrow> worker \<Rightarrow> bool" where
  "wk_order tasks s \<longleftrightarrow> wk_out s @ wk_taken (wk_pc s) @ wk_tasks s @ wk_adding (wk_main s) @ wk_todo s = tasks"

definition wk_lock_inv :: "worker \<Rightarrow> bool" where
  "wk_lock_inv s \<longleftrightarrow>
     wk_owner s =
       (if wm_locked (wk_main s) then Some WkMain else if wk_locked (wk_pc s) then Some WkThread else None) \<and>
     \<not> (wm_locked (wk_main s) \<and> wk_locked (wk_pc s))"

definition wk_sync :: "worker \<Rightarrow> bool" where
  "wk_sync s \<longleftrightarrow>
     (wk_pc s = WkWaiting \<longrightarrow> wk_tasks s = [] \<or> wk_main s = WmUnlock \<or> wk_main s = WmNotify) \<and>
     (wk_pc s = WkSwap \<longrightarrow> wk_tasks s \<noteq> []) \<and>
     (wk_stop s \<longleftrightarrow> wk_main s = WmJoin \<or> wk_main s = WmReturned) \<and>
     (wk_stop s \<longrightarrow> wk_todo s = []) \<and>
     (wk_pc s = WkExited \<longrightarrow> wk_stop s) \<and>
     (wk_main s = WmReturned \<longrightarrow> wk_pc s = WkExited)"

definition worker_inv :: "int list \<Rightarrow> worker \<Rightarrow> bool" where
  "worker_inv tasks s \<longleftrightarrow> wk_order tasks s \<and> wk_lock_inv s \<and> wk_sync s"

lemmas worker_inv_defs = worker_inv_def wk_order_def wk_lock_inv_def wk_sync_def

lemma wk_acquire_Some [simp]: "wk_acquire who s = Some t \<longleftrightarrow> wk_owner s = None \<and> t = s\<lparr>wk_owner := Some who\<rparr>"
  by (auto simp: wk_acquire_def)

lemma worker_inv_init: "worker_inv tasks (worker_init tasks)"
  by (simp add: worker_inv_defs worker_init_def)

lemma worker_inv_main:
  assumes inv: "worker_inv tasks s" and st: "main_thread_step s = Some t"
  shows "worker_inv tasks t"
proof (cases "wk_main s")
  case WmNext
  show ?thesis
  proof (cases "wk_todo s")
    case Nil
    then have "t = s\<lparr>wk_stop := True, wk_main := WmJoin\<rparr>" using st WmNext by (simp add: main_thread_step_def)
    then show ?thesis using inv WmNext Nil by (simp add: worker_inv_defs)
  next
    case (Cons task rest)
    then have "wk_owner s = None" and t: "t = s\<lparr>wk_owner := Some WkMain, wk_main := WmPush task, wk_todo := rest\<rparr>"
      using st WmNext by (auto simp: main_thread_step_def AddTask_lock_def)
    then have "\<not> wk_locked (wk_pc s)" using inv by (auto simp: worker_inv_def wk_lock_inv_def split: if_splits)
    then show ?thesis using inv WmNext Cons by (simp add: t worker_inv_defs) blast
  qed
next
  case (WmPush task)
  then have t: "t = s\<lparr>wk_tasks := wk_tasks s @ [task], wk_main := WmUnlock\<rparr>" using st by (simp add: main_thread_step_def)
  have "wk_pc s \<noteq> WkSwap" using inv WmPush by (auto simp: worker_inv_defs)
  then show ?thesis using inv WmPush by (simp add: t worker_inv_defs) blast
next
  case WmUnlock
  then have "t = s\<lparr>wk_owner := None, wk_main := WmNotify\<rparr>" using st by (simp add: main_thread_step_def)
  then show ?thesis using inv WmUnlock by (simp add: worker_inv_defs) blast
next
  case WmNotify
  then have t: "t = (wk_notify_one s)\<lparr>wk_main := WmNext\<rparr>" using st by (simp add: main_thread_step_def)
  then show ?thesis using inv WmNotify
    by (cases "wk_pc s = WkWaiting") (auto simp: wk_notify_one_def worker_inv_defs)
next
  case WmJoin
  then have "wk_pc s = WkExited" "t = s\<lparr>wk_main := WmReturned\<rparr>" using st by (auto simp: main_thread_step_def split: if_splits)
  then show ?thesis using inv WmJoin by (auto simp: worker_inv_defs)
qed (use st in \<open>simp add: main_thread_step_def\<close>)

lemma worker_inv_thread:
  assumes inv: "worker_inv tasks s" and st: "WorkerThread s = Some t"
  shows "worker_inv tasks t"
proof (cases "wk_pc s")
  case WkHead
  then have "t = s\<lparr>wk_pc := if wk_stop s then WkExited else WkLock\<rparr>" using st by (simp add: WorkerThread_def)
  then show ?thesis using inv WkHead by (cases "wk_main s") (auto simp: worker_inv_defs)
next
  case WkLock
  then have o: "wk_owner s = None" and t: "t = s\<lparr>wk_owner := Some WkThread, wk_pc := WkTest\<rparr>"
    using st by (auto simp: WorkerThread_def)
  then have "\<not> wm_locked (wk_main s)" using inv by (auto simp: worker_inv_def wk_lock_inv_def)
  then show ?thesis using inv WkLock by (simp add: t worker_inv_defs)
next
  case WkWoken
  then have o: "wk_owner s = None" and t: "t = s\<lparr>wk_owner := Some WkThread, wk_pc := WkTest\<rparr>"
    using st by (auto simp: WorkerThread_def)
  then have "\<not> wm_locked (wk_main s)" using inv by (auto simp: worker_inv_def wk_lock_inv_def)
  then show ?thesis using inv WkWoken by (simp add: t worker_inv_defs)
next
  case WkTest
  then show ?thesis using inv st by (cases "wk_tasks s = []") (auto simp: WorkerThread_def worker_inv_defs split: if_splits)
next
  case WkSwap
  then have "t = s\<lparr>wk_tasks := [], wk_pc := WkUnlock (wk_tasks s)\<rparr>" using st by (simp add: WorkerThread_def)
  then show ?thesis using inv WkSwap by (simp add: worker_inv_defs)
next
  case (WkUnlock ts)
  then have "t = s\<lparr>wk_owner := None, wk_pc := WkExec ts\<rparr>" using st by (simp add: WorkerThread_def)
  then show ?thesis using inv WkUnlock by (simp add: worker_inv_defs)
next
  case (WkExec ts)
  then show ?thesis using inv st by (cases ts) (auto simp: WorkerThread_def worker_inv_defs)
qed (use st in \<open>simp_all add: WorkerThread_def\<close>)

lemma worker_inv_step:
  assumes inv: "worker_inv tasks s" and st: "worker_step who s = Some t"
  shows "worker_inv tasks t"
proof (cases who)
  case WkMain
  then show ?thesis using inv st worker_inv_main by simp
next
  case WkThread
  then show ?thesis using inv st worker_inv_thread by simp
next
  case WkSpurious
  then have "wk_pc s = WkWaiting" "t = s\<lparr>wk_pc := WkWoken\<rparr>" using st by (auto split: if_splits)
  then show ?thesis using inv by (simp add: worker_inv_defs)
qed

interpretation worker: machine_inv worker_step "worker_init tasks" "worker_inv tasks" for tasks
  by unfold_locales (auto intro: worker_inv_init worker_inv_step)

section \<open>Termination and the hang\<close>

fun wm_weight :: "wk_main_pc \<Rightarrow> nat" where
  "wm_weight WmNext = 2" | "wm_weight (WmPush t) = 14" | "wm_weight WmUnlock = 6" | "wm_weight WmNotify = 5"
| "wm_weight WmJoin = 1" | "wm_weight WmReturned = 0"

fun wk_weight :: "wk_pc \<Rightarrow> nat" where
  "wk_weight WkHead = 3" | "wk_weight WkLock = 2" | "wk_weight WkTest = 1" | "wk_weight WkWaiting = 0"
| "wk_weight WkWoken = 2" | "wk_weight WkSwap = 0" | "wk_weight (WkUnlock ts) = 5 + length ts"
| "wk_weight (WkExec ts) = 4 + length ts" | "wk_weight WkExited = 0"

definition worker_rank :: "worker \<Rightarrow> nat" where
  "worker_rank s = 13 * length (wk_todo s) + wm_weight (wk_main s) + 7 * length (wk_tasks s) + wk_weight (wk_pc s)"

lemma worker_rank_main: "main_thread_step s = Some t \<Longrightarrow> worker_rank t < worker_rank s"
  by (cases "wk_main s"; cases "wk_todo s")
    (auto simp: main_thread_step_def AddTask_lock_def wk_notify_one_def worker_rank_def split: if_splits)

lemma worker_rank_thread:
  assumes "worker_inv tasks s" "WorkerThread s = Some t"
  shows "worker_rank t < worker_rank s"
proof (cases "wk_pc s")
  case WkSwap
  then have "wk_tasks s \<noteq> []" using assms(1) by (simp add: worker_inv_def wk_sync_def)
  then have "0 < length (wk_tasks s)" by simp
  then have "5 + length (wk_tasks s) < 7 * length (wk_tasks s)" by linarith
  then show ?thesis using WkSwap assms(2) by (auto simp: WorkerThread_def worker_rank_def)
next
  case (WkExec ts)
  then show ?thesis using assms(2) by (cases ts) (auto simp: WorkerThread_def worker_rank_def)
qed (use assms(2) in \<open>auto simp: WorkerThread_def worker_rank_def split: if_splits\<close>)

text \<open>Only spurious wake-ups prolong a run, by at most three steps each.\<close>

lemma worker_run_length:
  assumes "worker_inv tasks s" "run worker_step ls s = Some t"
  shows "length ls + worker_rank t \<le> worker_rank s + 3 * count_list ls WkSpurious"
  using assms
proof (induction ls arbitrary: s)
  case (Cons l ls)
  then obtain u where u: "worker_step l s = Some u" and r: "run worker_step ls u = Some t" by (auto split: option.splits)
  have IH: "length ls + worker_rank t \<le> worker_rank u + 3 * count_list ls WkSpurious"
    using Cons.IH [OF worker_inv_step [OF Cons.prems(1) u] r] .
  show ?case
  proof (cases l)
    case WkMain
    then show ?thesis using IH worker_rank_main [of s u] u by simp
  next
    case WkThread
    then show ?thesis using IH worker_rank_thread [OF Cons.prems(1)] u by fastforce
  next
    case WkSpurious
    then have "worker_rank u = worker_rank s + 2" using u by (auto simp: worker_rank_def split: if_splits)
    then show ?thesis using IH WkSpurious by simp
  qed
qed simp

text \<open>The destructor has requested the stop and joins a worker that waits for a task nobody will add.\<close>

definition worker_hangs :: "worker \<Rightarrow> bool" where
  "worker_hangs s \<longleftrightarrow>
     wk_main s = WmJoin \<and> wk_tasks s = [] \<and>
     (wk_pc s = WkWaiting \<or> wk_pc s = WkWoken \<or> wk_pc s = WkTest)"

lemma worker_hangs_step: "worker_hangs s \<Longrightarrow> worker_step who s = Some t \<Longrightarrow> worker_hangs t"
  by (cases who) (auto simp: worker_hangs_def main_thread_step_def WorkerThread_def split: if_splits)

lemma worker_hangs_forever: "reach worker_step s t \<Longrightarrow> worker_hangs s \<Longrightarrow> worker_hangs t"
  by (induction rule: reach.induct) (auto intro: worker_hangs_step)

text \<open>No thread is stuck before the end for any other reason: no wake-up is lost.\<close>

lemma worker_blocked:
  assumes inv: "worker_inv tasks s" and m: "main_thread_step s = None" and w: "WorkerThread s = None"
  shows "wk_main s = WmReturned \<and> wk_pc s = WkExited \<or> worker_hangs s \<and> wk_pc s = WkWaiting \<and> wk_out s = tasks"
proof (cases "wk_main s")
  case WmNext
  then obtain x xs where "wk_todo s = x # xs" "wk_owner s \<noteq> None" using m
    by (auto simp: main_thread_step_def AddTask_lock_def wk_acquire_def split: list.splits if_splits)
  then have "wk_locked (wk_pc s)" using inv WmNext by (auto simp: worker_inv_def wk_lock_inv_def split: if_splits)
  then show ?thesis using w by (cases "wk_pc s") (auto simp: WorkerThread_def split: if_splits)
next
  case WmJoin
  then have free: "wk_owner s = None \<or> wk_locked (wk_pc s)" using inv by (auto simp: worker_inv_def wk_lock_inv_def)
  have "wk_pc s = WkWaiting" using w m WmJoin free
    by (cases "wk_pc s")
      (auto simp: WorkerThread_def main_thread_step_def wk_acquire_def split: if_splits list.splits)
  then show ?thesis using inv WmJoin by (auto simp: worker_inv_defs worker_hangs_def)
next
  case WmReturned
  then show ?thesis using inv by (simp add: worker_inv_def wk_sync_def)
qed (use m in \<open>auto simp: main_thread_step_def\<close>)

section \<open>Properties\<close>

text \<open>C23: in every reachable state of the program that adds the given tasks, the mutex is held by at
  most one of the two threads and exactly by one that is inside, the tasks executed are the first of those added, in order
  and each once, and those executed, taken, queued and still to be added are together all the tasks.\<close>

theorem worker_in_order:
  assumes "reach worker_step (worker_init tasks) s"
  shows "prefix (wk_out s) tasks \<and>
    wk_out s @ wk_taken (wk_pc s) @ wk_tasks s @ wk_adding (wk_main s) @ wk_todo s = tasks \<and>
    (wk_owner s = Some WkMain \<longleftrightarrow> wm_locked (wk_main s)) \<and> (wk_owner s = Some WkThread \<longleftrightarrow> wk_locked (wk_pc s))"
proof -
  have inv: "worker_inv tasks s" using assms by (rule worker.reach_inv)
  then have eq: "wk_out s @ wk_taken (wk_pc s) @ wk_tasks s @ wk_adding (wk_main s) @ wk_todo s = tasks"
    by (simp add: worker_inv_def wk_order_def)
  then have "prefix (wk_out s) tasks" by (metis prefixI)
  with eq inv show ?thesis by (auto simp: worker_inv_def wk_lock_inv_def)
qed

theorem worker_in_order_witness:
  "\<exists>s. reach worker_step (worker_init [10, 4, 5]) s \<and> wk_out s = [10, 4] \<and> prefix (wk_out s) [10, 4, 5]"
proof -
  let ?sched = "replicate 8 WkMain @ replicate 7 WkThread"
  have "\<exists>s. run worker_step ?sched (worker_init [10, 4, 5]) = Some s \<and> wk_out s = [10, 4]"
    by (simp add: worker_init_def main_thread_step_def WorkerThread_def AddTask_lock_def wk_acquire_def wk_notify_one_def
        numeral_eq_Suc)
  then obtain s where s: "reach worker_step (worker_init [10, 4, 5]) s" "wk_out s = [10, 4]"
    using run_imp_reach by metis
  then show ?thesis using worker_in_order [of "[10, 4, 5]" s] by blast
qed

text \<open>C24: a run of the program with n tasks and k spurious wake-ups has at most 13n + 5 + 3k steps; when
  neither thread can move, either the owner has returned from the destructor and the worker has
  exited, or the owner is joining a worker that waits with nothing to do, having executed every
  task. A state of the second kind is never left: the program does not end.\<close>

theorem worker_ends_or_hangs:
  assumes "run worker_step sched (worker_init tasks) = Some s"
  shows "length sched \<le> 13 * length tasks + 5 + 3 * count_list sched WkSpurious \<and>
    (worker_step WkMain s = None \<and> worker_step WkThread s = None \<longrightarrow>
      wk_main s = WmReturned \<and> wk_pc s = WkExited \<or>
      wk_out s = tasks \<and> wk_pc s = WkWaiting \<and> (\<forall>t. reach worker_step s t \<longrightarrow> wk_main t = WmJoin \<and> wk_pc t \<noteq> WkExited))"
proof -
  have "length sched \<le> 13 * length tasks + 5 + 3 * count_list sched WkSpurious"
    using worker_run_length [OF worker_inv_init assms] by (simp add: worker_rank_def worker_init_def)
  moreover have "wk_main t = WmJoin \<and> wk_pc t \<noteq> WkExited" if "worker_hangs s" "reach worker_step s t" for t
    using worker_hangs_forever [OF that(2,1)] by (auto simp: worker_hangs_def)
  ultimately show ?thesis using worker_blocked [OF worker.run_inv [OF assms]] by auto
qed

text \<open>\<^verbatim>\<open>main\<close> as it normally runs: the worker takes each task as it comes and waits again.\<close>

definition cv_any_usual :: "wk_who list" where
  "cv_any_usual =
     replicate 3 WkThread @ replicate 4 WkMain @ replicate 9 WkThread @ replicate 8 WkMain @ replicate 10 WkThread @ [WkMain]"

theorem worker_ends_or_hangs_witness:
  "\<exists>s. run worker_step cv_any_usual (worker_init [10, 4, 5]) = Some s \<and> wk_out s = [10, 4, 5] \<and>
    (\<forall>t. reach worker_step s t \<longrightarrow> wk_main t = WmJoin)"
proof -
  have "\<exists>s. run worker_step cv_any_usual (worker_init [10, 4, 5]) = Some s \<and> wk_main s = WmJoin \<and> wk_pc s = WkWaiting"
    by (simp add: cv_any_usual_def worker_init_def main_thread_step_def WorkerThread_def AddTask_lock_def wk_acquire_def
        wk_notify_one_def numeral_eq_Suc)
  then obtain s where r: "run worker_step cv_any_usual (worker_init [10, 4, 5]) = Some s"
    and s: "wk_main s = WmJoin" "wk_pc s = WkWaiting" by blast
  from s have "worker_step WkMain s = None" "worker_step WkThread s = None"
    by (simp_all add: main_thread_step_def WorkerThread_def)
  then show ?thesis using worker_ends_or_hangs [OF r] r s by auto
qed

text \<open>If the worker starts late, \<^verbatim>\<open>main\<close> returns and no task has been executed.\<close>

lemma cv_any_tasks_lost: "\<exists>s. cv_any_main s \<and> wk_main s = WmReturned \<and> wk_out s = [] \<and> wk_tasks s = [10, 4, 5]"
proof -
  have "\<exists>s. run worker_step (replicate 13 WkMain @ [WkThread, WkMain]) (worker_init [10, 4, 5]) = Some s \<and>
      wk_main s = WmReturned \<and> wk_out s = [] \<and> wk_tasks s = [10, 4, 5]"
    by (simp add: worker_init_def main_thread_step_def WorkerThread_def AddTask_lock_def wk_acquire_def
        wk_notify_one_def numeral_eq_Suc)
  then show ?thesis unfolding cv_any_main_def using run_imp_reach by metis
qed

end
