(* ===== verification/Barriers.thy ===== *)
theory Barriers
  imports Prelude
begin

text \<open>
  \<^verbatim>\<open>synchronization_primitives/barrier/barrier.cpp\<close> and \<^verbatim>\<open>latch.cpp\<close>: workers that finish a phase and
  synchronise on a \<^verbatim>\<open>std::barrier\<close> or a \<^verbatim>\<open>std::latch\<close>, for any positive number of workers. The sleeps
  only make some orders likely and are not modelled. Both programs end, and their output has the
  lines of one phase before those of the next.
\<close>

section \<open>Workers below a bound\<close>

lemma all_but_one:
  assumes "card {u. u < n \<and> P u} + 1 = n" "w < n" "\<not> P w" "u < n" "u \<noteq> w"
  shows "P u"
proof -
  have "{u. u < n \<and> P u} \<subseteq> {..<n} - {w}" using assms(3) by auto
  moreover have "card ({..<n} - {w}) = card {u. u < n \<and> P u}" using assms(1,2) by simp
  ultimately have "{u. u < n \<and> P u} = {..<n} - {w}" by (intro card_subset_eq) simp_all
  then show ?thesis using assms(4,5) by blast
qed

lemma card_insert_one:
  fixes n :: nat
  assumes "w < n" "\<not> P w" "\<And>u. u < n \<Longrightarrow> Q u \<longleftrightarrow> u = w \<or> P u"
  shows "card {u. u < n \<and> Q u} = Suc (card {u. u < n \<and> P u})"
proof -
  have "{u. u < n \<and> Q u} = insert w {u. u < n \<and> P u}" using assms by auto
  moreover have "finite {u. u < n \<and> P u}" by (rule finite_subset [of _ "{..<n}"]) auto
  ultimately show ?thesis using assms(2) by simp
qed

lemma card_other:
  assumes "\<And>u. u < n \<Longrightarrow> Q u = P u"
  shows "card {u. u < n \<and> Q u} = card {u. u < n \<and> P u}"
  using assms by (metis (mono_tags, lifting))

section \<open>The barrier program\<close>

text \<open>A wait keeps the token of the phase in which the thread arrived.\<close>

datatype bar_pc = BFinish | BArrive1 | BWait1 nat | BClean | BArrive2 | BWait2 nat | BDone

datatype bar_line = Finished nat | AllReached | Cleaned nat

record barrier =
  bar_arrived :: nat
  bar_phase :: nat
  bar_pc :: "nat \<Rightarrow> bar_pc"
  bar_out :: "bar_line list"

definition barrier_init :: barrier where
  "barrier_init = \<lparr>bar_arrived = 0, bar_phase = 0, bar_pc = (\<lambda>_. BFinish), bar_out = []\<rparr>"

text \<open>\<^verbatim>\<open>arrive\<close>: the last of the expected threads runs the completion function and starts the next phase.\<close>

definition bar_arrive :: "nat \<Rightarrow> barrier \<Rightarrow> barrier" where
  "bar_arrive n s =
     (if bar_arrived s + 1 = n
      then s\<lparr>bar_arrived := 0, bar_phase := bar_phase s + 1, bar_out := bar_out s @ [AllReached]\<rparr>
      else s\<lparr>bar_arrived := bar_arrived s + 1\<rparr>)"

definition barrier_step :: "nat \<Rightarrow> (nat, barrier) machine" where
  "barrier_step n w s =
     (if w < n
      then (case bar_pc s w of
              BFinish \<Rightarrow> Some (s\<lparr>bar_out := bar_out s @ [Finished w], bar_pc := (bar_pc s)(w := BArrive1)\<rparr>)
            | BArrive1 \<Rightarrow> Some ((bar_arrive n s)\<lparr>bar_pc := (bar_pc s)(w := BWait1 (bar_phase s))\<rparr>)
            | BWait1 token \<Rightarrow>
                if bar_phase s \<noteq> token then Some (s\<lparr>bar_pc := (bar_pc s)(w := BClean)\<rparr>) else None
            | BClean \<Rightarrow> Some (s\<lparr>bar_out := bar_out s @ [Cleaned w], bar_pc := (bar_pc s)(w := BArrive2)\<rparr>)
            | BArrive2 \<Rightarrow> Some ((bar_arrive n s)\<lparr>bar_pc := (bar_pc s)(w := BWait2 (bar_phase s))\<rparr>)
            | BWait2 token \<Rightarrow>
                if bar_phase s \<noteq> token then Some (s\<lparr>bar_pc := (bar_pc s)(w := BDone)\<rparr>) else None
            | BDone \<Rightarrow> None)
      else None)"

definition barrier_final :: "nat \<Rightarrow> barrier \<Rightarrow> bool" where
  "barrier_final n s \<longleftrightarrow> (\<forall>w<n. bar_pc s w = BDone)"

text \<open>One predicate per phase; \<open>xs\<close> and \<open>ys\<close> are the orders in which the workers printed.\<close>

definition bar_phase0 :: "nat \<Rightarrow> nat list \<Rightarrow> barrier \<Rightarrow> bool" where
  "bar_phase0 n xs s \<longleftrightarrow>
     bar_phase s = 0 \<and> (\<forall>w<n. bar_pc s w \<in> {BFinish, BArrive1, BWait1 0}) \<and>
     bar_out s = map Finished xs \<and> distinct xs \<and> set xs = {w. w < n \<and> bar_pc s w \<noteq> BFinish} \<and>
     bar_arrived s = card {w. w < n \<and> bar_pc s w = BWait1 0} \<and> bar_arrived s < n"

definition bar_phase1 :: "nat \<Rightarrow> nat list \<Rightarrow> nat list \<Rightarrow> barrier \<Rightarrow> bool" where
  "bar_phase1 n xs ys s \<longleftrightarrow>
     bar_phase s = 1 \<and> (\<forall>w<n. bar_pc s w \<in> {BWait1 0, BClean, BArrive2, BWait2 1}) \<and>
     bar_out s = map Finished xs @ [AllReached] @ map Cleaned ys \<and> distinct xs \<and> set xs = {..<n} \<and>
     distinct ys \<and> set ys = {w. w < n \<and> bar_pc s w \<in> {BArrive2, BWait2 1}} \<and>
     bar_arrived s = card {w. w < n \<and> bar_pc s w = BWait2 1} \<and> bar_arrived s < n"

definition bar_phase2 :: "nat \<Rightarrow> nat list \<Rightarrow> nat list \<Rightarrow> barrier \<Rightarrow> bool" where
  "bar_phase2 n xs ys s \<longleftrightarrow>
     bar_phase s = 2 \<and> (\<forall>w<n. bar_pc s w \<in> {BWait2 1, BDone}) \<and>
     bar_out s = map Finished xs @ [AllReached] @ map Cleaned ys @ [AllReached] \<and>
     distinct xs \<and> set xs = {..<n} \<and> distinct ys \<and> set ys = {..<n}"

definition barrier_inv :: "nat \<Rightarrow> barrier \<Rightarrow> bool" where
  "barrier_inv n s \<longleftrightarrow> (\<exists>xs ys. bar_phase0 n xs s \<or> bar_phase1 n xs ys s \<or> bar_phase2 n xs ys s)"

lemma barrier_inv_init: "0 < n \<Longrightarrow> barrier_inv n barrier_init"
proof -
  assume "0 < n"
  then have "bar_phase0 n [] barrier_init" by (simp add: bar_phase0_def barrier_init_def)
  then show ?thesis unfolding barrier_inv_def by blast
qed

lemma barrier_step_phase0:
  assumes inv: "bar_phase0 n xs s" and st: "barrier_step n w s = Some t"
  shows "bar_phase0 n (xs @ [w]) t \<or> bar_phase0 n xs t \<or> bar_phase1 n xs [] t"
proof -
  have w: "w < n" using st by (simp add: barrier_step_def split: if_splits)
  have pc: "bar_pc s w \<in> {BFinish, BArrive1, BWait1 0}" and ph: "bar_phase s = 0"
    using inv w by (auto simp: bar_phase0_def)
  then consider (finish) "bar_pc s w = BFinish" | (arrive) "bar_pc s w = BArrive1"
    using st w by (auto simp: barrier_step_def)
  then show ?thesis
  proof cases
    case finish
    then have t: "t = s\<lparr>bar_out := bar_out s @ [Finished w], bar_pc := (bar_pc s)(w := BArrive1)\<rparr>"
      using st w by (simp add: barrier_step_def)
    have "card {u. u < n \<and> bar_pc t u = BWait1 0} = card {u. u < n \<and> bar_pc s u = BWait1 0}"
      using finish by (intro card_other) (simp add: t)
    then have "bar_phase0 n (xs @ [w]) t" using inv finish w by (auto simp: bar_phase0_def t)
    then show ?thesis by simp
  next
    case arrive
    then have t: "t = (bar_arrive n s)\<lparr>bar_pc := (bar_pc s)(w := BWait1 0)\<rparr>"
      using st w ph by (simp add: barrier_step_def)
    show ?thesis
    proof (cases "bar_arrived s + 1 = n")
      case True
      have rest: "bar_pc s u = BWait1 0" if "u < n" "u \<noteq> w" for u
        using all_but_one [of n "\<lambda>u. bar_pc s u = BWait1 0" w u] True inv arrive w that by (simp add: bar_phase0_def)
      then have "\<forall>u<n. bar_pc t u = BWait1 0" by (simp add: t)
      moreover have "bar_pc s u \<noteq> BFinish" if "u < n" for u
        using rest [OF that] arrive by (cases "u = w") simp_all
      then have "set xs = {..<n}" using inv by (auto simp: bar_phase0_def)
      ultimately have "bar_phase1 n xs [] t" using True inv w by (auto simp: bar_phase0_def bar_phase1_def bar_arrive_def t)
      then show ?thesis by simp
    next
      case False
      have "card {u. u < n \<and> bar_pc t u = BWait1 0} = Suc (card {u. u < n \<and> bar_pc s u = BWait1 0})"
        using arrive w by (intro card_insert_one [of w]) (simp_all add: t)
      then have "bar_phase0 n xs t" using False inv arrive w by (auto simp: bar_phase0_def bar_arrive_def t)
      then show ?thesis by simp
    qed
  qed
qed

lemma barrier_step_phase1:
  assumes inv: "bar_phase1 n xs ys s" and st: "barrier_step n w s = Some t"
  shows "bar_phase1 n xs (ys @ [w]) t \<or> bar_phase1 n xs ys t \<or> bar_phase2 n xs ys t"
proof -
  have w: "w < n" using st by (simp add: barrier_step_def split: if_splits)
  have pc: "bar_pc s w \<in> {BWait1 0, BClean, BArrive2, BWait2 1}" and ph: "bar_phase s = 1"
    using inv w by (auto simp: bar_phase1_def)
  then consider (wait) "bar_pc s w = BWait1 0" | (clean) "bar_pc s w = BClean" | (arrive) "bar_pc s w = BArrive2"
    using st w by (auto simp: barrier_step_def)
  then show ?thesis
  proof cases
    case wait
    then have t: "t = s\<lparr>bar_pc := (bar_pc s)(w := BClean)\<rparr>" using st w ph by (simp add: barrier_step_def)
    have "card {u. u < n \<and> bar_pc t u = BWait2 1} = card {u. u < n \<and> bar_pc s u = BWait2 1}"
      using wait by (intro card_other) (simp add: t)
    then have "bar_phase1 n xs ys t" using inv wait w by (auto simp: bar_phase1_def t)
    then show ?thesis by simp
  next
    case clean
    then have t: "t = s\<lparr>bar_out := bar_out s @ [Cleaned w], bar_pc := (bar_pc s)(w := BArrive2)\<rparr>"
      using st w by (simp add: barrier_step_def)
    have "card {u. u < n \<and> bar_pc t u = BWait2 1} = card {u. u < n \<and> bar_pc s u = BWait2 1}"
      using clean by (intro card_other) (simp add: t)
    then have "bar_phase1 n xs (ys @ [w]) t" using inv clean w by (auto simp: bar_phase1_def t)
    then show ?thesis by simp
  next
    case arrive
    then have t: "t = (bar_arrive n s)\<lparr>bar_pc := (bar_pc s)(w := BWait2 1)\<rparr>"
      using st w ph by (simp add: barrier_step_def)
    show ?thesis
    proof (cases "bar_arrived s + 1 = n")
      case True
      have rest: "bar_pc s u = BWait2 1" if "u < n" "u \<noteq> w" for u
        using all_but_one [of n "\<lambda>u. bar_pc s u = BWait2 1" w u] True inv arrive w that by (simp add: bar_phase1_def)
      then have "\<forall>u<n. bar_pc t u = BWait2 1" by (simp add: t)
      moreover have "bar_pc s u \<in> {BArrive2, BWait2 1}" if "u < n" for u
        using rest [OF that] arrive by (cases "u = w") simp_all
      then have "set ys = {..<n}" using inv by (auto simp: bar_phase1_def)
      ultimately have "bar_phase2 n xs ys t" using True inv w by (auto simp: bar_phase1_def bar_phase2_def bar_arrive_def t)
      then show ?thesis by simp
    next
      case False
      have "card {u. u < n \<and> bar_pc t u = BWait2 1} = Suc (card {u. u < n \<and> bar_pc s u = BWait2 1})"
        using arrive w by (intro card_insert_one [of w]) (simp_all add: t)
      then have "bar_phase1 n xs ys t" using False inv arrive w by (auto simp: bar_phase1_def bar_arrive_def t)
      then show ?thesis by simp
    qed
  qed
qed

lemma barrier_step_phase2:
  assumes inv: "bar_phase2 n xs ys s" and st: "barrier_step n w s = Some t"
  shows "bar_phase2 n xs ys t"
proof -
  have w: "w < n" using st by (simp add: barrier_step_def split: if_splits)
  have "bar_pc s w \<in> {BWait2 1, BDone}" using inv w by (simp add: bar_phase2_def)
  then have "t = s\<lparr>bar_pc := (bar_pc s)(w := BDone)\<rparr>" using inv st w by (auto simp: barrier_step_def split: if_splits)
  then show ?thesis using inv by (simp add: bar_phase2_def)
qed

lemma barrier_inv_step: "barrier_inv n s \<Longrightarrow> barrier_step n w s = Some t \<Longrightarrow> barrier_inv n t"
  unfolding barrier_inv_def using barrier_step_phase0 barrier_step_phase1 barrier_step_phase2 by metis

fun bar_weight :: "bar_pc \<Rightarrow> nat" where
  "bar_weight BFinish = 6" | "bar_weight BArrive1 = 5" | "bar_weight (BWait1 k) = 4" | "bar_weight BClean = 3"
| "bar_weight BArrive2 = 2" | "bar_weight (BWait2 k) = 1" | "bar_weight BDone = 0"

definition barrier_rank :: "nat \<Rightarrow> barrier \<Rightarrow> nat" where
  "barrier_rank n s = (\<Sum>w<n. bar_weight (bar_pc s w))"

lemma barrier_decrease:
  assumes "barrier_step n w s = Some t"
  shows "barrier_rank n t < barrier_rank n s"
  unfolding barrier_rank_def
proof (rule sum_weight_decrease [of w])
  show "w < n" using assms by (simp add: barrier_step_def split: if_splits)
  show "bar_weight (bar_pc t w) < bar_weight (bar_pc s w)"
    using assms by (auto simp: barrier_step_def split: if_splits bar_pc.splits)
  show "bar_weight (bar_pc t u) = bar_weight (bar_pc s u)" if "u \<noteq> w" for u
    using assms that by (auto simp: barrier_step_def split: if_splits bar_pc.splits)
qed

text \<open>If every worker waits, all have arrived and the phase has moved on.\<close>

lemma barrier_blocked_phase:
  assumes inv: "barrier_inv n s" and all: "\<forall>w<n. barrier_step n w s = None"
  shows "barrier_final n s"
proof -
  from inv obtain xs ys where "bar_phase0 n xs s \<or> bar_phase1 n xs ys s \<or> bar_phase2 n xs ys s"
    unfolding barrier_inv_def by blast
  moreover have "\<not> bar_phase0 n xs s"
  proof
    assume p: "bar_phase0 n xs s"
    then have "bar_pc s w = BWait1 0" if "w < n" for w
      using all that by (auto simp: bar_phase0_def barrier_step_def split: bar_pc.splits if_splits)
    then have "{w. w < n \<and> bar_pc s w = BWait1 0} = {..<n}" by auto
    then have "card {w. w < n \<and> bar_pc s w = BWait1 0} = n" by (metis card_lessThan)
    then show False using p unfolding bar_phase0_def by linarith
  qed
  moreover have "\<not> bar_phase1 n xs ys s"
  proof
    assume p: "bar_phase1 n xs ys s"
    then have "bar_pc s w = BWait2 1" if "w < n" for w
      using all that by (auto simp: bar_phase1_def barrier_step_def split: bar_pc.splits if_splits)
    then have "{w. w < n \<and> bar_pc s w = BWait2 1} = {..<n}" by auto
    then have "card {w. w < n \<and> bar_pc s w = BWait2 1} = n" by (metis card_lessThan)
    then show False using p unfolding bar_phase1_def by linarith
  qed
  moreover have "barrier_final n s" if p: "bar_phase2 n xs ys s"
    unfolding barrier_final_def
  proof (intro allI impI)
    fix w assume w: "w < n"
    then have "bar_pc s w \<in> {BWait2 1, BDone}" "bar_phase s = 2" using p by (simp_all add: bar_phase2_def)
    moreover have "barrier_step n w s = None" using all w by simp
    ultimately show "bar_pc s w = BDone" using w by (auto simp: barrier_step_def)
  qed
  ultimately show ?thesis by blast
qed

interpretation barrier: machine_term "barrier_step (Suc k)" barrier_init "barrier_inv (Suc k)" "barrier_rank (Suc k)" "barrier_final (Suc k)"
  for k
proof unfold_locales
  show "barrier_inv (Suc k) barrier_init" by (rule barrier_inv_init) simp
  show "barrier_inv (Suc k) t" if "barrier_inv (Suc k) s" "barrier_step (Suc k) w s = Some t" for s w t
    using that by (rule barrier_inv_step)
  show "\<exists>w t. barrier_step (Suc k) w s = Some t" if "barrier_inv (Suc k) s" "\<not> barrier_final (Suc k) s" for s
    using barrier_blocked_phase [OF that(1)] that(2) by fastforce
  show "barrier_rank (Suc k) t < barrier_rank (Suc k) s" if "barrier_step (Suc k) w s = Some t" for s w t
    using that by (rule barrier_decrease)
qed

text \<open>C25: with n workers, n positive (3 in \<^verbatim>\<open>main\<close>), \<^verbatim>\<open>barrier.cpp\<close> ends on every schedule, after at
  most 6n steps; when no worker can move all have returned, and the output is: each worker's "finished"
  once, in some order, then the line of the completion function, then each worker's "finished
  cleaning up" once, in some order, then the line of the completion function again.\<close>

theorem barrier_output:
  assumes "0 < n"
  shows "(\<forall>sched s. run (barrier_step n) sched barrier_init = Some s \<longrightarrow> length sched \<le> 6 * n) \<and>
    (\<forall>s. reach (barrier_step n) barrier_init s \<and> stuck (barrier_step n) s \<longrightarrow>
      (\<forall>w<n. bar_pc s w = BDone) \<and>
      (\<exists>xs ys. mset xs = mset [0..<n] \<and> mset ys = mset [0..<n] \<and>
        bar_out s = map Finished xs @ [AllReached] @ map Cleaned ys @ [AllReached]))"
proof -
  obtain k where k: "n = Suc k" using assms by (cases n) auto
  have perm: "mset zs = mset [0..<n]" if "distinct zs" "set zs = {..<n}" for zs
    using that by (metis atLeast_upt distinct_upt set_eq_iff_mset_eq_distinct)
  have "length sched \<le> 6 * n" if "run (barrier_step n) sched barrier_init = Some s" for sched s
    using barrier.run_length [of k sched s] that by (simp add: k barrier_rank_def barrier_init_def)
  moreover have "(\<forall>w<n. bar_pc s w = BDone) \<and> (\<exists>xs ys. mset xs = mset [0..<n] \<and> mset ys = mset [0..<n] \<and>
        bar_out s = map Finished xs @ [AllReached] @ map Cleaned ys @ [AllReached])"
    if r: "reach (barrier_step n) barrier_init s" and st: "stuck (barrier_step n) s" for s
  proof -
    have f: "\<forall>w<n. bar_pc s w = BDone" using barrier.live.stuck_final [of k s] r st by (simp add: k barrier_final_def)
    have "barrier_inv n s" using barrier.reach_inv [of k s] r by (simp add: k)
    then obtain xs ys where "bar_phase2 n xs ys s" using f assms
      unfolding barrier_inv_def bar_phase0_def bar_phase1_def by fastforce
    then show ?thesis using f perm unfolding bar_phase2_def by blast
  qed
  ultimately show ?thesis by blast
qed

lemma barrier_ends: "0 < n \<Longrightarrow> \<exists>s. reach (barrier_step n) barrier_init s \<and> stuck (barrier_step n) s"
proof -
  assume "0 < n"
  then obtain k where k: "n = Suc k" by (cases n) auto
  obtain s where s: "reach (barrier_step n) barrier_init s" "barrier_final n s"
    using barrier.live.final_reachable [of k barrier_init] by (auto simp: k)
  then have "stuck (barrier_step n) s" by (auto simp: stuck_def barrier_final_def barrier_step_def)
  with s(1) show ?thesis by blast
qed

theorem barrier_output_witness:
  "\<exists>s. reach (barrier_step 3) barrier_init s \<and> bar_pc s 2 = BDone \<and> last (bar_out s) = AllReached"
proof -
  obtain s where s: "reach (barrier_step 3) barrier_init s" "stuck (barrier_step 3) s" using barrier_ends [of 3] by auto
  then have "bar_pc s 2 = BDone \<and> last (bar_out s) = AllReached" using barrier_output [of 3] by fastforce
  with s(1) show ?thesis by blast
qed

text \<open>\<^verbatim>\<open>main\<close> starts three workers, which are counted from 1 in the output.\<close>

fun bar_text :: "bar_line \<Rightarrow> string" where
  "bar_text (Finished w) = ''Worker #'' @ show_nat (w + 1) @ '' finished''"
| "bar_text AllReached = ''All workers reached the barried''"
| "bar_text (Cleaned w) = ''Worker #'' @ show_nat (w + 1) @ '' finished cleaning up''"

definition barrier_main :: "string list \<Rightarrow> bool" where
  "barrier_main out \<longleftrightarrow>
     (\<exists>s. reach (barrier_step 3) barrier_init s \<and> stuck (barrier_step 3) s \<and> out = map bar_text (bar_out s))"

theorem barrier_main_output:
  "(\<exists>out. barrier_main out) \<and>
   (\<forall>out. barrier_main out \<longrightarrow>
      mset (take 3 out) = {#''Worker #1 finished'', ''Worker #2 finished'', ''Worker #3 finished''#} \<and>
      out ! 3 = ''All workers reached the barried'' \<and> length out = 8 \<and> last out = out ! 3)"
proof (intro conjI allI impI)
  show "\<exists>out. barrier_main out" using barrier_ends [of 3] by (auto simp: barrier_main_def)
  fix out
  assume "barrier_main out"
  then obtain s where s: "reach (barrier_step 3) barrier_init s" "stuck (barrier_step 3) s" "out = map bar_text (bar_out s)"
    by (auto simp: barrier_main_def)
  have inv: "barrier_inv 3 s" using barrier.reach_inv [of 2 s] s(1) by simp
  have f: "\<forall>w<3. bar_pc s w = BDone" using barrier.live.stuck_final [of 2 s] s(1,2) by (simp add: barrier_final_def)
  then obtain xs ys where x: "bar_phase2 3 xs ys s" using inv
    unfolding barrier_inv_def bar_phase0_def bar_phase1_def by fastforce
  have x: "distinct xs" "set xs = {..<3}" "distinct ys" "set ys = {..<3}"
      "bar_out s = map Finished xs @ [AllReached] @ map Cleaned ys @ [AllReached]"
    using x f unfolding bar_phase2_def by blast+
  have l: "length xs = 3" "length ys = 3" using distinct_card [OF x(1)] distinct_card [OF x(3)] x(2,4) by simp_all
  have "mset xs = mset [0..<3]" using x(1,2) by (metis atLeast_upt distinct_upt set_eq_iff_mset_eq_distinct)
  then have "image_mset (\<lambda>w. bar_text (Finished w)) (mset xs) = image_mset (\<lambda>w. bar_text (Finished w)) (mset [0..<3])" by simp
  also have "\<dots> = {#''Worker #1 finished'', ''Worker #2 finished'', ''Worker #3 finished''#}"
    by (simp add: eval_nat_numeral show_nat.simps digit_def)
  finally show "mset (take 3 out) = {#''Worker #1 finished'', ''Worker #2 finished'', ''Worker #3 finished''#}"
    using l by (simp add: s(3) x(5) comp_def)
  show "out ! 3 = ''All workers reached the barried''" "length out = 8" "last out = out ! 3"
    using l by (simp_all add: s(3) x(5) nth_append)
qed

section \<open>The latch program\<close>

datatype lp_pc = LpFinish | LpCount | LpDone

datatype lp_main = LmWait | LmPrint | LmJoin | LmReturned

datatype lp_line = WorkerFinished nat | AllFinished

record latch_prog =
  lp_count :: nat
  lp_pc :: "nat \<Rightarrow> lp_pc"
  lp_main :: lp_main
  lp_out :: "lp_line list"

definition latch_prog_init :: "nat \<Rightarrow> latch_prog" where
  "latch_prog_init n = \<lparr>lp_count = n, lp_pc = (\<lambda>_. LpFinish), lp_main = LmWait, lp_out = []\<rparr>"

definition lp_worker_step :: "nat \<Rightarrow> nat \<Rightarrow> latch_prog \<Rightarrow> latch_prog option" where
  "lp_worker_step n w s =
     (if w < n
      then (case lp_pc s w of
              LpFinish \<Rightarrow> Some (s\<lparr>lp_out := lp_out s @ [WorkerFinished w], lp_pc := (lp_pc s)(w := LpCount)\<rparr>)
            | LpCount \<Rightarrow> Some (s\<lparr>lp_count := lp_count s - 1, lp_pc := (lp_pc s)(w := LpDone)\<rparr>)
            | LpDone \<Rightarrow> None)
      else None)"

text \<open>\<^verbatim>\<open>wait\<close> returns when the count is zero; the vector of \<^verbatim>\<open>jthread\<close>s is joined at the end of \<^verbatim>\<open>main\<close>.\<close>

definition lp_main_step :: "nat \<Rightarrow> latch_prog \<Rightarrow> latch_prog option" where
  "lp_main_step n s =
     (case lp_main s of
        LmWait \<Rightarrow> if lp_count s = 0 then Some (s\<lparr>lp_main := LmPrint\<rparr>) else None
      | LmPrint \<Rightarrow> Some (s\<lparr>lp_out := lp_out s @ [AllFinished], lp_main := LmJoin\<rparr>)
      | LmJoin \<Rightarrow> if list_all (\<lambda>w. lp_pc s w = LpDone) [0..<n] then Some (s\<lparr>lp_main := LmReturned\<rparr>) else None
      | LmReturned \<Rightarrow> None)"

fun latch_prog_step :: "nat \<Rightarrow> (nat option, latch_prog) machine" where
  "latch_prog_step n (Some w) s = lp_worker_step n w s"
| "latch_prog_step n None s = lp_main_step n s"

definition lp_inv :: "nat \<Rightarrow> latch_prog \<Rightarrow> bool" where
  "lp_inv n s \<longleftrightarrow>
     lp_count s = card {w. w < n \<and> lp_pc s w \<noteq> LpDone} \<and>
     (lp_main s \<noteq> LmWait \<longrightarrow> (\<forall>w<n. lp_pc s w = LpDone)) \<and>
     (\<exists>xs. distinct xs \<and> set xs = {w. w < n \<and> lp_pc s w \<noteq> LpFinish} \<and>
       lp_out s = map WorkerFinished xs @ (if lp_main s \<in> {LmWait, LmPrint} then [] else [AllFinished]))"

lemma lp_inv_init: "lp_inv n (latch_prog_init n)"
  by (simp add: lp_inv_def latch_prog_init_def)

lemma lp_waitI:
  assumes "lp_count s = card {w. w < n \<and> lp_pc s w \<noteq> LpDone}" "lp_main s = LmWait" "distinct xs"
    "set xs = {w. w < n \<and> lp_pc s w \<noteq> LpFinish}" "lp_out s = map WorkerFinished xs"
  shows "lp_inv n s"
  using assms(2) unfolding lp_inv_def by (intro conjI exI [of _ xs] assms(1,3,4)) (simp_all add: assms(5))

lemma lp_inv_worker:
  assumes inv: "lp_inv n s" and st: "lp_worker_step n w s = Some t"
  shows "lp_inv n t"
proof -
  have w: "w < n" and nd: "lp_pc s w \<noteq> LpDone" using st by (auto simp: lp_worker_step_def split: if_splits)
  then have m: "lp_main s = LmWait" using inv by (auto simp: lp_inv_def)
  obtain xs where xs: "distinct xs" "set xs = {w. w < n \<and> lp_pc s w \<noteq> LpFinish}" "lp_out s = map WorkerFinished xs"
    using inv m by (auto simp: lp_inv_def)
  show ?thesis
  proof (cases "lp_pc s w")
    case LpFinish
    then have t: "t = s\<lparr>lp_out := lp_out s @ [WorkerFinished w], lp_pc := (lp_pc s)(w := LpCount)\<rparr>"
      using st w by (simp add: lp_worker_step_def)
    have "card {u. u < n \<and> lp_pc t u \<noteq> LpDone} = card {u. u < n \<and> lp_pc s u \<noteq> LpDone}"
      using LpFinish by (intro card_other) (simp add: t)
    moreover have "distinct (xs @ [w])" "set (xs @ [w]) = {u. u < n \<and> lp_pc t u \<noteq> LpFinish}"
      using xs(1,2) LpFinish w by (auto simp: t)
    moreover have "lp_out t = map WorkerFinished (xs @ [w])" using xs(3) by (simp add: t)
    moreover have "lp_main t = LmWait" "lp_count t = card {u. u < n \<and> lp_pc s u \<noteq> LpDone}"
      using inv m by (simp_all add: t lp_inv_def)
    ultimately show ?thesis by (intro lp_waitI [of t n "xs @ [w]"]) simp_all
  next
    case LpCount
    then have t: "t = s\<lparr>lp_count := lp_count s - 1, lp_pc := (lp_pc s)(w := LpDone)\<rparr>"
      using st w by (simp add: lp_worker_step_def)
    then have pc: "lp_pc t = (lp_pc s)(w := LpDone)" by simp
    have "card {u. u < n \<and> lp_pc s u \<noteq> LpDone} = Suc (card {u. u < n \<and> lp_pc t u \<noteq> LpDone})"
      using LpCount w by (intro card_insert_one [of w]) (auto simp: pc)
    moreover have "set xs = {u. u < n \<and> lp_pc t u \<noteq> LpFinish}" unfolding xs(2) pc
      by (rule Collect_cong) (use LpCount in \<open>simp\<close>)
    moreover have "lp_count t = card {u. u < n \<and> lp_pc s u \<noteq> LpDone} - 1"
      using inv by (simp add: t lp_inv_def)
    moreover have "lp_main t = LmWait" "lp_out t = map WorkerFinished xs" using m xs(3) by (simp_all add: t)
    ultimately show ?thesis using xs(1) by (intro lp_waitI [of t n xs]) simp_all
  qed (use nd in simp)
qed

lemma lp_inv_main:
  assumes inv: "lp_inv n s" and st: "lp_main_step n s = Some t"
  shows "lp_inv n t"
proof (cases "lp_main s")
  case LmWait
  then have z: "lp_count s = 0" and t: "t = s\<lparr>lp_main := LmPrint\<rparr>" using st by (auto simp: lp_main_step_def split: if_splits)
  have "finite {w. w < n \<and> lp_pc s w \<noteq> LpDone}" by (rule finite_subset [of _ "{..<n}"]) auto
  then have "\<forall>w<n. lp_pc s w = LpDone" using inv z by (simp add: lp_inv_def)
  then show ?thesis using inv LmWait by (simp add: t lp_inv_def)
qed (use inv st in \<open>auto simp: lp_main_step_def lp_inv_def split: if_splits\<close>)

lemma lp_inv_step: "lp_inv n s \<Longrightarrow> latch_prog_step n l s = Some t \<Longrightarrow> lp_inv n t"
  by (cases l) (auto intro: lp_inv_worker lp_inv_main)

fun lp_weight :: "lp_pc \<Rightarrow> nat" where
  "lp_weight LpFinish = 2" | "lp_weight LpCount = 1" | "lp_weight LpDone = 0"

fun lm_weight :: "lp_main \<Rightarrow> nat" where
  "lm_weight LmWait = 3" | "lm_weight LmPrint = 2" | "lm_weight LmJoin = 1" | "lm_weight LmReturned = 0"

definition lp_rank :: "nat \<Rightarrow> latch_prog \<Rightarrow> nat" where
  "lp_rank n s = (\<Sum>w<n. lp_weight (lp_pc s w)) + lm_weight (lp_main s)"

lemma lp_decrease: "latch_prog_step n l s = Some t \<Longrightarrow> lp_rank n t < lp_rank n s"
proof (cases l)
  case (Some w)
  assume "latch_prog_step n l s = Some t"
  then have st: "lp_worker_step n w s = Some t" using Some by simp
  have "(\<Sum>u<n. lp_weight (lp_pc t u)) < (\<Sum>u<n. lp_weight (lp_pc s u))"
  proof (rule sum_weight_decrease [of w])
    show "w < n" using st by (simp add: lp_worker_step_def split: if_splits)
    show "lp_weight (lp_pc t w) < lp_weight (lp_pc s w)"
      using st by (auto simp: lp_worker_step_def split: if_splits lp_pc.splits)
    show "lp_weight (lp_pc t u) = lp_weight (lp_pc s u)" if "u \<noteq> w" for u
      using st that by (auto simp: lp_worker_step_def split: if_splits lp_pc.splits)
  qed
  moreover have "lp_main t = lp_main s" using st by (auto simp: lp_worker_step_def split: if_splits lp_pc.splits)
  ultimately show ?thesis by (simp add: lp_rank_def)
next
  case None
  assume "latch_prog_step n l s = Some t"
  then show ?thesis using None by (cases "lp_main s") (auto simp: lp_main_step_def lp_rank_def split: if_splits)
qed

definition lp_final :: "nat \<Rightarrow> latch_prog \<Rightarrow> bool" where
  "lp_final n s \<longleftrightarrow> lp_main s = LmReturned \<and> (\<forall>w<n. lp_pc s w = LpDone)"

lemma lp_enabled:
  assumes inv: "lp_inv n s" and nf: "\<not> lp_final n s"
  shows "\<exists>l t. latch_prog_step n l s = Some t"
proof (cases "\<forall>w<n. lp_pc s w = LpDone")
  case True
  then have "{w. w < n \<and> lp_pc s w \<noteq> LpDone} = {}" by auto
  then have "lp_count s = 0" using inv unfolding lp_inv_def by (metis card.empty)
  then have "\<exists>t. latch_prog_step n None s = Some t" using True nf
    by (cases "lp_main s") (auto simp: lp_main_step_def lp_final_def list_all_iff)
  then show ?thesis by blast
next
  case False
  then obtain w where w: "w < n" "lp_pc s w \<noteq> LpDone" by blast
  then have "\<exists>t. latch_prog_step n (Some w) s = Some t" by (cases "lp_pc s w") (auto simp: lp_worker_step_def)
  then show ?thesis by blast
qed

interpretation latch_prog: machine_term "latch_prog_step n" "latch_prog_init n" "lp_inv n" "lp_rank n" "lp_final n" for n
  by unfold_locales (auto intro: lp_inv_init lp_inv_step lp_enabled lp_decrease)

text \<open>\<^verbatim>\<open>latch.cpp\<close> with n workers (3 in \<^verbatim>\<open>main\<close>) ends on every schedule, after at most 2n + 3 steps, and
  its output is each worker's "finished" once, in some order, and then "All workers finished".\<close>

theorem latch_prog_output:
  "(\<forall>sched s. run (latch_prog_step n) sched (latch_prog_init n) = Some s \<longrightarrow> length sched \<le> 2 * n + 3) \<and>
   (\<forall>s. reach (latch_prog_step n) (latch_prog_init n) s \<and> stuck (latch_prog_step n) s \<longrightarrow>
     lp_main s = LmReturned \<and>
     (\<exists>xs. mset xs = mset [0..<n] \<and> lp_out s = map WorkerFinished xs @ [AllFinished]))"
proof -
  have "length sched \<le> 2 * n + 3" if "run (latch_prog_step n) sched (latch_prog_init n) = Some s" for sched s
    using latch_prog.run_length [OF that] by (simp add: lp_rank_def latch_prog_init_def)
  moreover have "lp_main s = LmReturned \<and> (\<exists>xs. mset xs = mset [0..<n] \<and> lp_out s = map WorkerFinished xs @ [AllFinished])"
    if r: "reach (latch_prog_step n) (latch_prog_init n) s" and st: "stuck (latch_prog_step n) s" for s
  proof -
    have f: "lp_main s = LmReturned" "\<forall>w<n. lp_pc s w = LpDone"
      using latch_prog.live.stuck_final [OF r st] by (simp_all add: lp_final_def)
    have "lp_inv n s" using r by (rule latch_prog.reach_inv)
    then obtain xs where xs: "distinct xs" "set xs = {w. w < n \<and> lp_pc s w \<noteq> LpFinish}"
      "lp_out s = map WorkerFinished xs @ [AllFinished]" using f(1) unfolding lp_inv_def by auto
    have "set xs = set [0..<n]" using xs(2) f(2) by auto
    then have "mset xs = mset [0..<n]" using xs(1) set_eq_iff_mset_eq_distinct by (metis distinct_upt)
    then show ?thesis using f(1) xs(3) by blast
  qed
  ultimately show ?thesis by blast
qed

theorem latch_prog_output_witness:
  "\<exists>s. reach (latch_prog_step 3) (latch_prog_init 3) s \<and> lp_main s = LmReturned \<and> last (lp_out s) = AllFinished"
proof -
  obtain s where s: "reach (latch_prog_step 3) (latch_prog_init 3) s" "lp_final 3 s"
    using latch_prog.live.final_reachable [of 3 "latch_prog_init 3"] by auto
  have "latch_prog_step 3 l s = None" for l
    using s(2) by (cases l) (auto simp: lp_final_def lp_worker_step_def lp_main_step_def)
  then have "stuck (latch_prog_step 3) s" by (simp add: stuck_def)
  then have "lp_main s = LmReturned \<and> last (lp_out s) = AllFinished"
    using latch_prog_output [of 3] s(1) by fastforce
  with s(1) show ?thesis by blast
qed

fun lp_text :: "lp_line \<Rightarrow> string" where
  "lp_text (WorkerFinished w) = ''Worker #'' @ show_nat (w + 1) @ '' finished''"
| "lp_text AllFinished = ''All workers finished''"

definition latch_main :: "string list \<Rightarrow> bool" where
  "latch_main out \<longleftrightarrow>
     (\<exists>s. reach (latch_prog_step 3) (latch_prog_init 3) s \<and> stuck (latch_prog_step 3) s \<and> out = map lp_text (lp_out s))"

theorem latch_main_output:
  assumes "latch_main out"
  shows "mset out = {#''Worker #1 finished'', ''Worker #2 finished'', ''Worker #3 finished'', ''All workers finished''#} \<and>
    last out = ''All workers finished''"
proof -
  obtain s where s: "reach (latch_prog_step 3) (latch_prog_init 3) s" "stuck (latch_prog_step 3) s" "out = map lp_text (lp_out s)"
    using assms by (auto simp: latch_main_def)
  have f: "lp_main s = LmReturned" "\<forall>w<3. lp_pc s w = LpDone"
    using latch_prog.live.stuck_final [OF s(1,2)] by (simp_all add: lp_final_def)
  have "lp_inv 3 s" using s(1) by (rule latch_prog.reach_inv)
  then obtain xs where xs: "distinct xs" "set xs = {w. w < 3 \<and> lp_pc s w \<noteq> LpFinish}"
    "lp_out s = map WorkerFinished xs @ [AllFinished]" using f(1) unfolding lp_inv_def by auto
  have "set xs = set [0..<3]" using xs(2) f(2) by auto
  then have "mset xs = mset [0..<3]" using xs(1) set_eq_iff_mset_eq_distinct by (metis distinct_upt)
  then have "image_mset (\<lambda>w. lp_text (WorkerFinished w)) (mset xs) = image_mset (\<lambda>w. lp_text (WorkerFinished w)) (mset [0..<3])" by simp
  also have "\<dots> = {#''Worker #1 finished'', ''Worker #2 finished'', ''Worker #3 finished''#}"
    by (simp add: eval_nat_numeral show_nat.simps digit_def)
  finally have "mset (map (\<lambda>w. lp_text (WorkerFinished w)) xs) = {#''Worker #1 finished'', ''Worker #2 finished'', ''Worker #3 finished''#}"
    by simp
  then show ?thesis by (simp add: s(3) xs(3) comp_def)
qed

end
