(* ===== verification/False_Sharing.thy ===== *)
theory False_Sharing
  imports Barriers
begin

text \<open>
  \<^verbatim>\<open>cache/false_sharing.cpp\<close>: three threads meet at a \<^verbatim>\<open>std::latch\<close> and then increment 500 million times
  each a field of one shared structure. The fields are different, so sharing a cache line costs
  time but no update: every field ends at 500 million, which an \<^verbatim>\<open>int\<close> can hold. The model has any
  number of threads and iterations; the fields are the values of \<open>fs_value\<close>.
\<close>

datatype fs_pc = FsArrive | FsWait | FsLoop nat | FsDone

record sharing =
  fs_count :: nat
  fs_value :: "nat \<Rightarrow> int"
  fs_pc :: "nat \<Rightarrow> fs_pc"

definition sharing_init :: "nat \<Rightarrow> sharing" where
  "sharing_init n = \<lparr>fs_count = n, fs_value = (\<lambda>_. 0), fs_pc = (\<lambda>_. FsArrive)\<rparr>"

text \<open>\<^verbatim>\<open>arrive_and_wait\<close> is a decrement and a wait for zero; the body of the loop is one step.\<close>

definition sharing_step :: "nat \<Rightarrow> nat \<Rightarrow> (nat, sharing) machine" where
  "sharing_step n k w s =
     (if w < n
      then (case fs_pc s w of
              FsArrive \<Rightarrow> Some (s\<lparr>fs_count := fs_count s - 1, fs_pc := (fs_pc s)(w := FsWait)\<rparr>)
            | FsWait \<Rightarrow> if fs_count s = 0 then Some (s\<lparr>fs_pc := (fs_pc s)(w := FsLoop 0)\<rparr>) else None
            | FsLoop i \<Rightarrow>
                if i < k
                then Some (s\<lparr>fs_value := (fs_value s)(w := fs_value s w + 1), fs_pc := (fs_pc s)(w := FsLoop (i + 1))\<rparr>)
                else Some (s\<lparr>fs_pc := (fs_pc s)(w := FsDone)\<rparr>)
            | FsDone \<Rightarrow> None)
      else None)"

definition sharing_final :: "nat \<Rightarrow> sharing \<Rightarrow> bool" where
  "sharing_final n s \<longleftrightarrow> (\<forall>w<n. fs_pc s w = FsDone)"

text \<open>The value of a field as a function of where its thread is.\<close>

fun fs_progress :: "nat \<Rightarrow> fs_pc \<Rightarrow> nat" where
  "fs_progress k (FsLoop i) = i" | "fs_progress k FsDone = k" | "fs_progress k _ = 0"

fun fs_past :: "fs_pc \<Rightarrow> bool" where
  "fs_past (FsLoop i) = True" | "fs_past FsDone = True" | "fs_past _ = False"

definition sharing_inv :: "nat \<Rightarrow> nat \<Rightarrow> sharing \<Rightarrow> bool" where
  "sharing_inv n k s \<longleftrightarrow>
     fs_count s = card {w. w < n \<and> fs_pc s w = FsArrive} \<and>
     (\<forall>w<n. fs_value s w = int (fs_progress k (fs_pc s w)) \<and> fs_progress k (fs_pc s w) \<le> k \<and>
       (fs_past (fs_pc s w) \<longrightarrow> fs_count s = 0))"

lemma sharing_inv_init: "sharing_inv n k (sharing_init n)"
  by (simp add: sharing_inv_def sharing_init_def)

lemma sharing_cases:
  assumes "sharing_step n k w s = Some t"
  obtains (arrive) "w < n" "fs_pc s w = FsArrive" "t = s\<lparr>fs_count := fs_count s - 1, fs_pc := (fs_pc s)(w := FsWait)\<rparr>"
  | (start) "w < n" "fs_pc s w = FsWait" "fs_count s = 0" "t = s\<lparr>fs_pc := (fs_pc s)(w := FsLoop 0)\<rparr>"
  | (incr) i where "w < n" "fs_pc s w = FsLoop i" "i < k"
      "t = s\<lparr>fs_value := (fs_value s)(w := fs_value s w + 1), fs_pc := (fs_pc s)(w := FsLoop (i + 1))\<rparr>"
  | (leave) i where "w < n" "fs_pc s w = FsLoop i" "k \<le> i" "t = s\<lparr>fs_pc := (fs_pc s)(w := FsDone)\<rparr>"
  using assms by (auto simp: sharing_step_def split: if_splits fs_pc.splits)

lemma sharing_inv_step:
  assumes inv: "sharing_inv n k s" and st: "sharing_step n k w s = Some t"
  shows "sharing_inv n k t"
  using st
proof (cases rule: sharing_cases)
  case arrive
  then have pc: "fs_pc t = (fs_pc s)(w := FsWait)" by simp
  have "card {u. u < n \<and> fs_pc s u = FsArrive} = Suc (card {u. u < n \<and> fs_pc t u = FsArrive})"
    using arrive(1,2) by (intro card_insert_one [of w]) (auto simp: pc)
  moreover from this have "\<forall>u<n. \<not> fs_past (fs_pc s u)" using inv by (auto simp: sharing_inv_def)
  ultimately show ?thesis using inv arrive by (simp add: sharing_inv_def)
next
  case start
  have "card {u. u < n \<and> fs_pc t u = FsArrive} = card {u. u < n \<and> fs_pc s u = FsArrive}"
    using start by (intro card_other) simp
  then show ?thesis using inv start by (simp add: sharing_inv_def)
next
  case (incr i)
  have "card {u. u < n \<and> fs_pc t u = FsArrive} = card {u. u < n \<and> fs_pc s u = FsArrive}"
    using incr by (intro card_other) simp
  moreover have "fs_count s = 0" "fs_value s w = int i" using inv incr by (auto simp: sharing_inv_def)
  ultimately show ?thesis using inv incr by (simp add: sharing_inv_def)
next
  case (leave i)
  have "card {u. u < n \<and> fs_pc t u = FsArrive} = card {u. u < n \<and> fs_pc s u = FsArrive}"
    using leave by (intro card_other) simp
  moreover have "fs_count s = 0" "fs_value s w = int i" "i = k" using inv leave by (auto simp: sharing_inv_def)
  ultimately show ?thesis using inv leave by (simp add: sharing_inv_def)
qed

fun fs_weight :: "nat \<Rightarrow> fs_pc \<Rightarrow> nat" where
  "fs_weight k FsArrive = k + 3" | "fs_weight k FsWait = k + 2" | "fs_weight k (FsLoop i) = k - i + 1" | "fs_weight k FsDone = 0"

definition sharing_rank :: "nat \<Rightarrow> nat \<Rightarrow> sharing \<Rightarrow> nat" where
  "sharing_rank n k s = (\<Sum>w<n. fs_weight k (fs_pc s w))"

lemma sharing_decrease:
  assumes "sharing_step n k w s = Some t"
  shows "sharing_rank n k t < sharing_rank n k s"
  unfolding sharing_rank_def
proof (rule sum_weight_decrease [of w])
  show "w < n" using assms by (simp add: sharing_step_def split: if_splits)
  show "fs_weight k (fs_pc t w) < fs_weight k (fs_pc s w)" using assms by (cases rule: sharing_cases) auto
  show "fs_weight k (fs_pc t u) = fs_weight k (fs_pc s u)" if "u \<noteq> w" for u
    using assms that by (cases rule: sharing_cases) auto
qed

lemma sharing_enabled:
  assumes inv: "sharing_inv n k s" and nf: "\<not> sharing_final n s"
  shows "\<exists>w t. sharing_step n k w s = Some t"
proof (cases "\<exists>w<n. fs_pc s w = FsArrive")
  case True
  then obtain w where "w < n" "fs_pc s w = FsArrive" by blast
  then have "\<exists>t. sharing_step n k w s = Some t" by (simp add: sharing_step_def)
  then show ?thesis by blast
next
  case False
  then have "{w. w < n \<and> fs_pc s w = FsArrive} = {}" by auto
  then have z: "fs_count s = 0" using inv unfolding sharing_inv_def by (metis card.empty)
  obtain w where w: "w < n" "fs_pc s w \<noteq> FsDone" using nf by (auto simp: sharing_final_def)
  then have "\<exists>t. sharing_step n k w s = Some t" using z by (cases "fs_pc s w") (auto simp: sharing_step_def)
  then show ?thesis by blast
qed

interpretation sharing: machine_term "sharing_step n k" "sharing_init n" "sharing_inv n k" "sharing_rank n k" "sharing_final n"
  for n k
  by unfold_locales (auto intro: sharing_inv_init sharing_inv_step sharing_enabled sharing_decrease)

definition false_sharing_main :: "sharing \<Rightarrow> bool" where
  "false_sharing_main s \<longleftrightarrow> reach (sharing_step 3 500000000) (sharing_init 3) s"

text \<open>C33: the fields of \<^verbatim>\<open>false_sharing.cpp\<close> keep their type: with three threads and 500 million iterations
  no field leaves the range of \<^verbatim>\<open>int\<close>, no field is touched before
  every thread has arrived, and when no thread can move all are 500 million.\<close>

theorem false_sharing_values:
  assumes "false_sharing_main s" "w < 3"
  shows "0 \<le> fs_value s w \<and> fs_value s w < 2 ^ 31 \<and> (fs_value s w \<noteq> 0 \<longrightarrow> (\<forall>u<3. fs_pc s u \<noteq> FsArrive)) \<and>
    (stuck (sharing_step 3 500000000) s \<longrightarrow> fs_value s w = 500000000)"
proof -
  let ?k = "500000000 :: nat"
  have r: "reach (sharing_step 3 ?k) (sharing_init 3) s" using assms(1) by (simp add: false_sharing_main_def)
  then have inv: "sharing_inv 3 ?k s" by (rule sharing.reach_inv)
  have v: "fs_value s w = int (fs_progress ?k (fs_pc s w))" "fs_progress ?k (fs_pc s w) \<le> ?k"
    using inv assms(2) by (auto simp: sharing_inv_def)
  have "\<forall>u<3. fs_pc s u \<noteq> FsArrive" if "fs_value s w \<noteq> 0"
  proof -
    have "fs_past (fs_pc s w)" using that v(1) by (cases "fs_pc s w") auto
    then have "card {u. u < 3 \<and> fs_pc s u = FsArrive} = 0" using inv assms(2) unfolding sharing_inv_def by metis
    moreover have "finite {u. u < 3 \<and> fs_pc s u = FsArrive}" by (rule finite_subset [of _ "{..<3}"]) auto
    ultimately show ?thesis by simp
  qed
  moreover have "fs_value s w = 500000000" if "stuck (sharing_step 3 ?k) s"
    using sharing.live.stuck_final [OF r that] v(1) assms(2) by (simp add: sharing_final_def)
  ultimately show ?thesis using v by simp
qed

theorem false_sharing_values_witness: "\<exists>s. false_sharing_main s \<and> fs_value s 2 = 500000000"
proof -
  obtain s where s: "reach (sharing_step 3 500000000) (sharing_init 3) s" "sharing_final 3 s"
    using sharing.live.final_reachable [of 3 500000000 "sharing_init 3"] by auto
  have "stuck (sharing_step 3 500000000) s"
    using s(2) by (auto simp: stuck_def sharing_final_def sharing_step_def)
  then have "fs_value s 2 = 500000000" using false_sharing_values [of s 2] s(1) by (simp add: false_sharing_main_def)
  then show ?thesis using s(1) by (auto simp: false_sharing_main_def)
qed

end
