(* ===== verification/Futures.thy ===== *)
theory Futures
  imports Prelude
begin

text \<open>
  \<^verbatim>\<open>structured_concurrency/async.cpp\<close>, \<^verbatim>\<open>future.cpp\<close> and \<^verbatim>\<open>shared_future.cpp\<close>: a worker computes a number
  or an exception, the caller gets it through a future and prints it. The first program starts the
  worker with \<^verbatim>\<open>std::async\<close>, the others pass it a promise; the third gets the value twice.

  The model has the shared state of the future, whether the future still refers to it, and the output
  character by character as the program writes it: the operands of \<^verbatim>\<open><<\<close> are evaluated from left to
  right, so the text before \<^verbatim>\<open>future.get()\<close> is already out when \<^verbatim>\<open>get\<close> throws.
\<close>

section \<open>Shared state\<close>

datatype shared_state = Pending | Value int | Raised string

text \<open>A result of signed arithmetic outside the range of \<^verbatim>\<open>int\<close> is undefined behaviour, here \<open>None\<close>.\<close>

definition int_result :: "int \<Rightarrow> int option" where
  "int_result i = (if - (2 ^ 31) \<le> i \<and> i < 2 ^ 31 then Some i else None)"

text \<open>\<^verbatim>\<open>WorkerFunction\<close> of \<^verbatim>\<open>async.cpp\<close> throws or returns; \<^verbatim>\<open>std::async\<close> stores either.\<close>

definition async_WorkerFunction :: "int \<Rightarrow> (string + int) option" where
  "async_WorkerFunction n =
     (if n = 228 then Some (Inl ''Invalid value'') else map_option Inr (int_result (n * 2)))"

definition store_result :: "string + int \<Rightarrow> shared_state" where
  "store_result r = (case r of Inl e \<Rightarrow> Raised e | Inr v \<Rightarrow> Value v)"

text \<open>\<^verbatim>\<open>set_value\<close> and \<^verbatim>\<open>set_exception\<close> of a promise; \<open>None\<close> is the \<^verbatim>\<open>future_error\<close> for a promise that is
  already satisfied.\<close>

definition set_value :: "int \<Rightarrow> shared_state \<Rightarrow> shared_state option" where
  "set_value v s = (if s = Pending then Some (Value v) else None)"

definition set_exception :: "string \<Rightarrow> shared_state \<Rightarrow> shared_state option" where
  "set_exception e s = (if s = Pending then Some (Raised e) else None)"

definition promise_WorkerFunction :: "int \<Rightarrow> shared_state \<Rightarrow> shared_state option" where
  "promise_WorkerFunction n s =
     (if n = 228 then set_exception ''Invalid value'' s
      else (case int_result (n * 2) of None \<Rightarrow> None | Some v \<Rightarrow> set_value v s))"

section \<open>\<open>RunWorker\<close>\<close>

datatype fut_kind = AsyncProg | FutureProg | SharedFutureProg

datatype fut_worker = FwRun | FwReturned

text \<open>The caller writes a text, gets the value, and goes on with the next text; then it joins (the
  destructor of the \<^verbatim>\<open>jthread\<close>, or of the future of \<^verbatim>\<open>std::async\<close>).\<close>

datatype fut_main = FmText "string list" | FmGet "string list" | FmJoin | FmReturned

record fut =
  ft_state :: shared_state
  ft_valid :: bool
  ft_worker :: fut_worker
  ft_main :: fut_main
  ft_out :: string

fun fut_texts :: "fut_kind \<Rightarrow> string list" where
  "fut_texts SharedFutureProg = [''Result: '', ''Another try: '']"
| "fut_texts _ = [''Result: '']"

definition fut_init :: "fut_kind \<Rightarrow> fut" where
  "fut_init kind =
     \<lparr>ft_state = Pending, ft_valid = True, ft_worker = FwRun, ft_main = FmText (fut_texts kind), ft_out = []\<rparr>"

definition fut_compute :: "fut_kind \<Rightarrow> int \<Rightarrow> shared_state \<Rightarrow> shared_state option" where
  "fut_compute kind n st =
     (if kind = AsyncProg then map_option store_result (async_WorkerFunction n) else promise_WorkerFunction n st)"

definition fut_worker_step :: "fut_kind \<Rightarrow> int \<Rightarrow> fut \<Rightarrow> fut option" where
  "fut_worker_step kind n s =
     (case ft_worker s of
        FwRun \<Rightarrow>
          map_option (\<lambda>r. s\<lparr>ft_state := r, ft_worker := FwReturned\<rparr>) (fut_compute kind n (ft_state s))
      | FwReturned \<Rightarrow> None)"

definition caught :: "string \<Rightarrow> string" where
  "caught what = ''Exception caught: '' @ what @ [CHR 0x0A]"

text \<open>\<^verbatim>\<open>get\<close> waits until the state is ready and releases it. A future that has no state any more throws a \<^verbatim>\<open>future_error\<close>, whose
  text is \<open>no_state\<close>.\<close>

definition fut_main_step :: "string \<Rightarrow> fut \<Rightarrow> fut option" where
  "fut_main_step no_state s =
     (case ft_main s of
        FmText [] \<Rightarrow> Some (s\<lparr>ft_main := FmJoin\<rparr>)
      | FmText (text # rest) \<Rightarrow> Some (s\<lparr>ft_out := ft_out s @ text, ft_main := FmGet rest\<rparr>)
      | FmGet rest \<Rightarrow>
          if \<not> ft_valid s then Some (s\<lparr>ft_out := ft_out s @ caught no_state, ft_main := FmJoin\<rparr>)
          else (case ft_state s of
                  Pending \<Rightarrow> None
                | Value v \<Rightarrow>
                    Some (s\<lparr>ft_valid := False, ft_out := ft_out s @ show_int v @ [CHR 0x0A], ft_main := FmText rest\<rparr>)
                | Raised e \<Rightarrow> Some (s\<lparr>ft_valid := False, ft_out := ft_out s @ caught e, ft_main := FmJoin\<rparr>))
      | FmJoin \<Rightarrow> if ft_worker s = FwReturned then Some (s\<lparr>ft_main := FmReturned\<rparr>) else None
      | FmReturned \<Rightarrow> None)"

definition fut_step :: "fut_kind \<Rightarrow> string \<Rightarrow> int \<Rightarrow> (bool, fut) machine" where
  "fut_step kind no_state n main s = (if main then fut_main_step no_state s else fut_worker_step kind n s)"

definition RunWorker :: "fut_kind \<Rightarrow> string \<Rightarrow> int \<Rightarrow> string \<Rightarrow> bool" where
  "RunWorker kind no_state n out \<longleftrightarrow>
     (\<exists>s. reach (fut_step kind no_state n) (fut_init kind) s \<and> stuck (fut_step kind no_state n) s \<and> ft_out s = out)"

definition futures_main :: "fut_kind \<Rightarrow> string \<Rightarrow> string \<Rightarrow> bool" where
  "futures_main kind no_state out \<longleftrightarrow>
     (\<exists>out1 out2. RunWorker kind no_state 10 out1 \<and> RunWorker kind no_state 228 out2 \<and> out = out1 @ out2)"

definition async_main :: "string \<Rightarrow> string \<Rightarrow> bool" where
  "async_main no_state out \<longleftrightarrow> futures_main AsyncProg no_state out"

definition future_main :: "string \<Rightarrow> string \<Rightarrow> bool" where
  "future_main no_state out \<longleftrightarrow> futures_main FutureProg no_state out"

section \<open>Reference definition\<close>

text \<open>What the two threads do together, as one sequential computation.\<close>

fun get_all :: "string \<Rightarrow> string + int \<Rightarrow> string list \<Rightarrow> string" where
  "get_all no_state r [] = []"
| "get_all no_state (Inl e) (text # rest) = text @ caught e"
| "get_all no_state (Inr v) (text # rest) =
     text @ show_int v @ [CHR 0x0A] @ (case rest of [] \<Rightarrow> [] | text' # _ \<Rightarrow> text' @ caught no_state)"

definition run_worker_ref :: "fut_kind \<Rightarrow> string \<Rightarrow> int \<Rightarrow> string" where
  "run_worker_ref kind no_state n =
     get_all no_state (if n = 228 then Inl ''Invalid value'' else Inr (n * 2)) (fut_texts kind)"

text \<open>Values whose double is an \<^verbatim>\<open>int\<close>.\<close>

definition doubles :: "int \<Rightarrow> bool" where
  "doubles n \<longleftrightarrow> - (2 ^ 30) \<le> n \<and> n < 2 ^ 30"

definition worker_result :: "int \<Rightarrow> shared_state" where
  "worker_result n = (if n = 228 then Raised ''Invalid value'' else Value (n * 2))"

lemma fut_worker_result:
  assumes "doubles n"
  shows "fut_compute kind n Pending = Some (worker_result n)"
  using assms
  by (auto simp: doubles_def fut_compute_def async_WorkerFunction_def promise_WorkerFunction_def int_result_def store_result_def
      set_value_def set_exception_def worker_result_def)

section \<open>Invariant\<close>

text \<open>What is still to be written, given where the caller is.\<close>

fun fut_rest :: "string \<Rightarrow> int \<Rightarrow> bool \<Rightarrow> fut_main \<Rightarrow> string" where
  "fut_rest no_state n True (FmText texts) =
     get_all no_state (if n = 228 then Inl ''Invalid value'' else Inr (n * 2)) texts"
| "fut_rest no_state n True (FmGet rest) =
     get_all no_state (if n = 228 then Inl ''Invalid value'' else Inr (n * 2)) ([] # rest)"
| "fut_rest no_state n False (FmText texts) = (case texts of [] \<Rightarrow> [] | text # _ \<Rightarrow> text @ caught no_state)"
| "fut_rest no_state n False (FmGet rest) = caught no_state"
| "fut_rest no_state n _ _ = []"

definition fut_inv :: "fut_kind \<Rightarrow> string \<Rightarrow> int \<Rightarrow> fut \<Rightarrow> bool" where
  "fut_inv kind no_state n s \<longleftrightarrow>
     ft_out s @ fut_rest no_state n (ft_valid s) (ft_main s) = run_worker_ref kind no_state n \<and>
     ft_state s = (if ft_worker s = FwReturned then worker_result n else Pending) \<and>
     (ft_main s = FmReturned \<longrightarrow> ft_worker s = FwReturned)"

lemma fut_inv_init: "fut_inv kind no_state n (fut_init kind)"
  by (simp add: fut_inv_def fut_init_def run_worker_ref_def)

lemma fut_inv_worker:
  assumes "fut_inv kind no_state n s" "doubles n" "fut_worker_step kind n s = Some t"
  shows "fut_inv kind no_state n t"
  using assms fut_worker_result [OF assms(2), of kind]
  by (cases "ft_worker s") (auto simp: fut_worker_step_def fut_inv_def)

lemma fut_inv_main:
  assumes inv: "fut_inv kind no_state n s" and st: "fut_main_step no_state s = Some t"
  shows "fut_inv kind no_state n t"
proof (cases "ft_main s")
  case (FmText texts)
  then show ?thesis using inv st
    by (cases texts; cases "ft_valid s") (auto simp: fut_main_step_def fut_inv_def)
next
  case (FmGet rest)
  show ?thesis
  proof (cases "ft_valid s")
    case True
    then have "ft_worker s = FwReturned" using inv st FmGet
      by (cases "ft_worker s") (auto simp: fut_main_step_def fut_inv_def)
    then show ?thesis using inv st FmGet True
      by (cases rest) (auto simp: fut_main_step_def fut_inv_def worker_result_def split: if_splits)
  qed (use inv st FmGet in \<open>auto simp: fut_main_step_def fut_inv_def\<close>)
qed (use inv st in \<open>auto simp: fut_main_step_def fut_inv_def split: if_splits\<close>)

fun fm_weight :: "fut_main \<Rightarrow> nat" where
  "fm_weight (FmText texts) = 2 * length texts + 3" | "fm_weight (FmGet rest) = 2 * length rest + 4"
| "fm_weight FmJoin = 1" | "fm_weight FmReturned = 0"

definition fut_rank :: "fut \<Rightarrow> nat" where
  "fut_rank s = fm_weight (ft_main s) + (if ft_worker s = FwRun then 1 else 0)"

lemma fut_decrease: "fut_step kind no_state n main s = Some t \<Longrightarrow> fut_rank t < fut_rank s"
  by (auto simp: fut_step_def fut_main_step_def fut_worker_step_def fut_rank_def
      split: if_splits fut_main.splits list.splits shared_state.splits fut_worker.splits)

lemma fut_enabled:
  assumes inv: "fut_inv kind no_state n s" and d: "doubles n" and nf: "ft_main s \<noteq> FmReturned"
  shows "\<exists>main t. fut_step kind no_state n main s = Some t"
proof (cases "ft_worker s")
  case FwRun
  then have "ft_state s = Pending" using inv by (simp add: fut_inv_def)
  then have "\<exists>t. fut_step kind no_state n False s = Some t"
    using fut_worker_result [OF d, of kind] FwRun by (auto simp: fut_step_def fut_worker_step_def)
  then show ?thesis by blast
next
  case FwReturned
  then have "ft_state s = worker_result n" using inv by (simp add: fut_inv_def)
  then have "\<exists>t. fut_step kind no_state n True s = Some t" using FwReturned nf
    by (cases "ft_main s") (auto simp: fut_step_def fut_main_step_def worker_result_def split: list.splits)
  then show ?thesis by blast
qed

text \<open>The library carries the theorem: the machine ends, with what the reference computes.\<close>

lemma fut_machine:
  assumes "doubles n"
  shows "machine_term (fut_step kind no_state n) (fut_init kind) (fut_inv kind no_state n) fut_rank
    (\<lambda>s. ft_main s = FmReturned)"
proof unfold_locales
  show "fut_inv kind no_state n (fut_init kind)" by (rule fut_inv_init)
  show "fut_inv kind no_state n t" if "fut_inv kind no_state n s" "fut_step kind no_state n l s = Some t" for s l t
    using that assms by (auto simp: fut_step_def intro: fut_inv_worker fut_inv_main split: if_splits)
  show "\<exists>l t. fut_step kind no_state n l s = Some t"
    if "fut_inv kind no_state n s" "ft_main s \<noteq> FmReturned" for s
    using fut_enabled [OF that(1) assms that(2)] .
  show "fut_rank t < fut_rank s" if "fut_step kind no_state n l s = Some t" for s l t
    using that by (rule fut_decrease)
qed

lemma RunWorker_iff:
  assumes "doubles n"
  shows "RunWorker kind no_state n out \<longleftrightarrow> out = run_worker_ref kind no_state n"
proof -
  note m = fut_machine [OF assms, of kind no_state]
  note live = machine_term.axioms(1) [OF m]
  have final: "ft_out s = run_worker_ref kind no_state n"
    if "reach (fut_step kind no_state n) (fut_init kind) s" "ft_main s = FmReturned" for s
  proof -
    have "fut_inv kind no_state n s" using live that(1) by (rule machine_inv.reach_inv)
    then show ?thesis using that(2) by (cases "ft_valid s") (simp_all add: fut_inv_def)
  qed
  have l: "machine_live (fut_step kind no_state n) (fut_init kind) (fut_inv kind no_state n) fut_rank
      (\<lambda>s. ft_main s = FmReturned)"
    using machine_term.live [OF m] live by (auto simp: machine_live_def machine_live_axioms_def)
  show ?thesis
  proof
    assume "RunWorker kind no_state n out"
    then show "out = run_worker_ref kind no_state n"
      using machine_live.stuck_final [OF l] final by (auto simp: RunWorker_def)
  next
    assume out: "out = run_worker_ref kind no_state n"
    obtain s where s: "reach (fut_step kind no_state n) (fut_init kind) s" "ft_main s = FmReturned"
      using machine_live.final_reachable [OF l reach_init] by blast
    have "fut_inv kind no_state n s" using live s(1) by (rule machine_inv.reach_inv)
    then have "ft_worker s = FwReturned" using s(2) by (simp add: fut_inv_def)
    then have "stuck (fut_step kind no_state n) s"
      using s(2) by (simp add: stuck_def fut_step_def fut_main_step_def fut_worker_step_def)
    then show "RunWorker kind no_state n out" using s out final by (auto simp: RunWorker_def)
  qed
qed

section \<open>Properties\<close>

text \<open>C26: for every argument whose double is an \<^verbatim>\<open>int\<close>, \<^verbatim>\<open>RunWorker\<close> with a promise and a thread
  (\<^verbatim>\<open>future.cpp\<close>) and \<^verbatim>\<open>RunWorker\<close> with \<^verbatim>\<open>std::async\<close> (\<^verbatim>\<open>async.cpp\<close>) are equivalent: each has, over all
  schedules, exactly one output, the same for both: the doubled argument, or for 228 the text of
  the exception, each after "Result: ".\<close>

theorem future_async_equivalent:
  assumes "doubles n"
  shows "(RunWorker FutureProg no_state n out \<longleftrightarrow> RunWorker AsyncProg no_state n out) \<and>
    (RunWorker AsyncProg no_state n out \<longleftrightarrow>
      out = ''Result: '' @ (if n = 228 then ''Exception caught: Invalid value'' else show_int (n * 2)) @ [CHR 0x0A])"
  using assms by (simp add: RunWorker_iff run_worker_ref_def caught_def)

theorem future_async_equivalent_witness:
  "RunWorker FutureProg [] 10 (''Result: '' @ show_int 20 @ [CHR 0x0A]) \<and>
   RunWorker AsyncProg [] 10 (''Result: '' @ show_int 20 @ [CHR 0x0A])"
  using future_async_equivalent [of 10] by (simp add: doubles_def)

text \<open>The whole output of \<^verbatim>\<open>shared_future.cpp\<close>: the second \<^verbatim>\<open>get\<close> of a future that is not shared always
  throws, so "Another try: " is never followed by the value.\<close>

theorem shared_future_output:
  "futures_main SharedFutureProg no_state out \<longleftrightarrow>
    out = ''Result: 20'' @ [CHR 0x0A] @ ''Another try: Exception caught: '' @ no_state @ [CHR 0x0A] @
      ''Result: Exception caught: Invalid value'' @ [CHR 0x0A]"
proof -
  have d: "doubles 10" "doubles 228" by (simp_all add: doubles_def)
  have "show_int 20 = ''20''" by (simp add: show_int_def show_nat.simps digit_def)
  then show ?thesis unfolding futures_main_def RunWorker_iff [OF d(1)] RunWorker_iff [OF d(2)]
    by (simp add: run_worker_ref_def caught_def)
qed

text \<open>The whole output of \<^verbatim>\<open>async.cpp\<close> and of \<^verbatim>\<open>future.cpp\<close>.\<close>

theorem async_future_output:
  "(async_main no_state out \<longleftrightarrow>
      out = ''Result: 20'' @ [CHR 0x0A] @ ''Result: Exception caught: Invalid value'' @ [CHR 0x0A]) \<and>
   (future_main no_state out \<longleftrightarrow> async_main no_state out)"
proof -
  have d: "doubles 10" "doubles 228" by (simp_all add: doubles_def)
  have "show_int 20 = ''20''" by (simp add: show_int_def show_nat.simps digit_def)
  then show ?thesis unfolding async_main_def future_main_def futures_main_def RunWorker_iff [OF d(1)] RunWorker_iff [OF d(2)]
    by (simp add: run_worker_ref_def caught_def)
qed

end
