(* ===== verification/Thread_Pool.thy ===== *)
theory Thread_Pool
  imports Prelude
begin

text \<open>
  \<^verbatim>\<open>structured_concurrency/packaged_task.cpp\<close>: class \<^verbatim>\<open>ThreadPool\<close> and its \<^verbatim>\<open>main\<close>. Workers take packaged tasks
  from a list under a mutex and run them; \<^verbatim>\<open>Submit\<close> appends to the list without the mutex. \<^verbatim>\<open>main\<close> submits
  four tasks (two that print, one that throws, one that sets a variable), gets their futures and
  prints.

  Each use of the list by \<^verbatim>\<open>GetTask\<close> is a step of its own: the test for emptiness, the move out of the
  first element, \<^verbatim>\<open>pop_front\<close>. Two workers between these steps would take the same element, so the
  mutex is what keeps the tasks apart. The append is two steps, so that a worker can be at the
  list meanwhile. That is a data race, which the program can reach: behaviour is then undefined, and
  the execution of the model ends there with \<open>tp_raced\<close>. All other executions are described in
  full: every task is run exactly once and the futures deliver its outcome.
\<close>

section \<open>Tasks and futures\<close>

datatype pool_task = PrintTask | ThrowTask string | SetValue int

datatype task_result = TPending | TReady | TRaised string

datatype pool_line = Printed nat nat | Caught string | ValueIs int

text \<open>The tasks of \<^verbatim>\<open>main\<close>, in the order of submission.\<close>

definition main_tasks :: "pool_task list" where
  "main_tasks = [PrintTask, PrintTask, ThrowTask ''Exception in task!'', SetValue 42]"

text \<open>A packaged task with the number of its future. An object of type \<^verbatim>\<open>std::packaged_task\<close> that has
  been moved from holds none: the elements of the list are of type \<open>packaged option\<close>.\<close>

type_synonym packaged = "nat \<times> pool_task"

section \<open>Workers and \<open>main\<close>\<close>

text \<open>\<open>PwEmpty\<close> to \<open>PwGuard\<close> are in \<^verbatim>\<open>GetTask\<close> with the mutex: before \<^verbatim>\<open>empty()\<close>, before \<^verbatim>\<open>front()\<close>, before
  \<^verbatim>\<open>pop_front()\<close> with the local \<^verbatim>\<open>task\<close>, and about to release the mutex with the optional that
  \<^verbatim>\<open>GetTask\<close> returns.\<close>

datatype pw_pc =
    PwHead | PwLock | PwEmpty | PwFront | PwPop "packaged option" | PwGuard "packaged option option"
  | PwRun "packaged option" | PwSleep | PwExited

datatype pm_pc = PmNext nat | PmEmplacing nat | PmGet nat | PmStop nat | PmJoin nat | PmReturned | PmTerminated

record pool =
  tp_owner :: "nat option"
  tp_list :: "packaged option list"
  tp_futs :: "nat \<Rightarrow> task_result"
  tp_value :: int
  tp_out :: "pool_line list"
  tp_stop :: "nat \<Rightarrow> bool"
  tp_worker :: "nat \<Rightarrow> pw_pc"
  tp_main :: pm_pc
  tp_raced :: bool
  tp_crashed :: bool

definition pool_init :: pool where
  "pool_init =
     \<lparr>tp_owner = None, tp_list = [], tp_futs = (\<lambda>_. TPending), tp_value = 0, tp_out = [], tp_stop = (\<lambda>_. False),
      tp_worker = (\<lambda>_. PwHead), tp_main = PmNext 0, tp_raced = False, tp_crashed = False\<rparr>"

text \<open>Calling a packaged task runs the function and stores its outcome.\<close>

definition call_task :: "nat \<Rightarrow> packaged \<Rightarrow> pool \<Rightarrow> pool" where
  "call_task w p s =
     (case p of (f, task) \<Rightarrow>
        (case task of
           PrintTask \<Rightarrow> s\<lparr>tp_out := tp_out s @ [Printed f w], tp_futs := (tp_futs s)(f := TReady)\<rparr>
         | ThrowTask e \<Rightarrow> s\<lparr>tp_futs := (tp_futs s)(f := TRaised e)\<rparr>
         | SetValue v \<Rightarrow> s\<lparr>tp_value := v, tp_futs := (tp_futs s)(f := TReady)\<rparr>))"

definition goto :: "nat \<Rightarrow> pw_pc \<Rightarrow> pool \<Rightarrow> pool" where
  "goto w pc s = s\<lparr>tp_worker := (tp_worker s)(w := pc)\<rparr>"

text \<open>\<open>tp_crashed\<close>: \<^verbatim>\<open>front()\<close> or \<^verbatim>\<open>pop_front()\<close> of an empty list, or the call of a packaged task that has been
  moved from, which throws out of the \<^verbatim>\<open>noexcept\<close> function \<^verbatim>\<open>WorkerThread\<close>.\<close>

definition pool_worker_step :: "nat \<Rightarrow> pool \<Rightarrow> pool option" where
  "pool_worker_step w s =
     (case tp_worker s w of
        PwHead \<Rightarrow> Some (goto w (if tp_stop s w then PwExited else PwLock) s)
      | PwLock \<Rightarrow> if tp_owner s = None then Some (goto w PwEmpty (s\<lparr>tp_owner := Some w\<rparr>)) else None
      | PwEmpty \<Rightarrow> Some (goto w (if tp_list s = [] then PwGuard None else PwFront) s)
      | PwFront \<Rightarrow>
          (case tp_list s of
             [] \<Rightarrow> Some (s\<lparr>tp_crashed := True\<rparr>)
           | q # qs \<Rightarrow> Some (goto w (PwPop q) (s\<lparr>tp_list := None # qs\<rparr>)))
      | PwPop q \<Rightarrow>
          (case tp_list s of
             [] \<Rightarrow> Some (s\<lparr>tp_crashed := True\<rparr>)
           | _ # qs \<Rightarrow> Some (goto w (PwGuard (Some q)) (s\<lparr>tp_list := qs\<rparr>)))
      | PwGuard r \<Rightarrow>
          Some (goto w (case r of None \<Rightarrow> PwSleep | Some q \<Rightarrow> PwRun q) (s\<lparr>tp_owner := None\<rparr>))
      | PwRun q \<Rightarrow>
          (case q of
             None \<Rightarrow> Some (s\<lparr>tp_crashed := True\<rparr>)
           | Some p \<Rightarrow> Some (goto w PwHead (call_task w p s)))
      | PwSleep \<Rightarrow> Some (goto w PwHead s)
      | PwExited \<Rightarrow> None)"

text \<open>\<^verbatim>\<open>main\<close>: four calls of \<^verbatim>\<open>Submit\<close>, four of \<^verbatim>\<open>get\<close>, of which the third is in a \<^verbatim>\<open>try\<close> block; the destructor of
  the pool stops and joins one thread after the other.\<close>

definition pool_main_step :: "nat \<Rightarrow> pool \<Rightarrow> pool option" where
  "pool_main_step n s =
     (case tp_main s of
        PmNext k \<Rightarrow> Some (s\<lparr>tp_main := PmEmplacing k\<rparr>)
      | PmEmplacing k \<Rightarrow>
          Some (s\<lparr>tp_list := tp_list s @ [Some (k, main_tasks ! k)], tp_main := if k < 3 then PmNext (k + 1) else PmGet 0\<rparr>)
      | PmGet k \<Rightarrow>
          (case tp_futs s k of
             TPending \<Rightarrow> None
           | TReady \<Rightarrow>
               if k < 3 then Some (s\<lparr>tp_main := PmGet (k + 1)\<rparr>)
               else Some (s\<lparr>tp_out := tp_out s @ [ValueIs (tp_value s)], tp_main := PmStop 0\<rparr>)
           | TRaised e \<Rightarrow>
               if k = 2 then Some (s\<lparr>tp_out := tp_out s @ [Caught e], tp_main := PmGet 3\<rparr>)
               else Some (s\<lparr>tp_main := PmTerminated\<rparr>))
      | PmStop i \<Rightarrow>
          if i < n then Some (s\<lparr>tp_stop := (tp_stop s)(i := True), tp_main := PmJoin i\<rparr>)
          else Some (s\<lparr>tp_main := PmReturned\<rparr>)
      | PmJoin i \<Rightarrow> if tp_worker s i = PwExited then Some (s\<lparr>tp_main := PmStop (i + 1)\<rparr>) else None
      | PmReturned \<Rightarrow> None
      | PmTerminated \<Rightarrow> None)"

text \<open>\<^verbatim>\<open>main\<close> is in \<^verbatim>\<open>emplace_back\<close> while a worker is at the list.\<close>

fun at_list :: "pw_pc \<Rightarrow> bool" where
  "at_list PwEmpty = True" | "at_list PwFront = True" | "at_list (PwPop q) = True" | "at_list _ = False"

definition pool_race :: "nat \<Rightarrow> pool \<Rightarrow> bool" where
  "pool_race n s \<longleftrightarrow> (\<exists>k. tp_main s = PmEmplacing k) \<and> list_ex (\<lambda>w. at_list (tp_worker s w)) [0..<n]"

text \<open>A step of \<^verbatim>\<open>main\<close> or of a worker. Behaviour after a data race is undefined: the execution ends.\<close>

definition pool_step :: "nat \<Rightarrow> (nat option, pool) machine" where
  "pool_step n l s =
     (if tp_raced s \<or> tp_crashed s then None
      else case (case l of None \<Rightarrow> pool_main_step n s | Some w \<Rightarrow> if w < n then pool_worker_step w s else None) of
             None \<Rightarrow> None
           | Some t \<Rightarrow> Some (t\<lparr>tp_raced := pool_race n t\<rparr>))"

text \<open>The executions without a data race, for the argument that \<^verbatim>\<open>main\<close> can return.\<close>

definition pool_norace :: "nat \<Rightarrow> (nat option, pool) machine" where
  "pool_norace n l s = (case pool_step n l s of None \<Rightarrow> None | Some t \<Rightarrow> if tp_raced t then None else Some t)"

section \<open>Invariant\<close>

fun submitted :: "pm_pc \<Rightarrow> nat" where
  "submitted (PmNext k) = k" | "submitted (PmEmplacing k) = k" | "submitted _ = 4"

fun in_hand :: "pw_pc \<Rightarrow> packaged option" where
  "in_hand (PwPop q) = q" | "in_hand (PwGuard (Some q)) = q" | "in_hand (PwRun q) = q" | "in_hand _ = None"

definition entry :: "nat \<Rightarrow> packaged" where
  "entry k = (k, main_tasks ! k)"

definition is_entry :: "packaged \<Rightarrow> bool" where
  "is_entry p \<longleftrightarrow> p = entry (fst p)"

definition task_outcome :: "nat \<Rightarrow> task_result" where
  "task_outcome k = (if k = 2 then TRaised ''Exception in task!'' else TReady)"

text \<open>The tasks still in the list.\<close>

definition tasks :: "pool \<Rightarrow> packaged list" where
  "tasks s = List.map_filter id (tp_list s)"

text \<open>The first \<open>a\<close> tasks have been taken: each has its outcome or is in the hand of exactly one
  worker; the others are in the list, in order.\<close>

definition tp_places :: "nat \<Rightarrow> nat \<Rightarrow> pool \<Rightarrow> bool" where
  "tp_places n a s \<longleftrightarrow>
     a \<le> submitted (tp_main s) \<and> submitted (tp_main s) \<le> 4 \<and>
     tasks s = map entry [a..<submitted (tp_main s)] \<and>
     (\<forall>w<n. \<forall>p. in_hand (tp_worker s w) = Some p \<longrightarrow> fst p < a \<and> is_entry p \<and> tp_futs s (fst p) = TPending) \<and>
     (\<forall>v<n. \<forall>w<n. \<forall>p. in_hand (tp_worker s v) = Some p \<and> in_hand (tp_worker s w) = Some p \<longrightarrow> v = w) \<and>
     (\<forall>k. tp_futs s k \<noteq> TPending \<longrightarrow> k < a \<and> tp_futs s k = task_outcome k) \<and>
     (\<forall>k<a. tp_futs s k = TPending \<longrightarrow> (\<exists>w<n. in_hand (tp_worker s w) = Some (entry k)))"

fun got :: "pm_pc \<Rightarrow> nat" where
  "got (PmNext k) = 0" | "got (PmEmplacing k) = 0" | "got (PmGet k) = k" | "got _ = 4"

fun main_lines :: "pm_pc \<Rightarrow> pool_line list" where
  "main_lines (PmNext k) = []" | "main_lines (PmEmplacing k) = []"
| "main_lines (PmGet k) = (if k < 3 then [] else [Caught ''Exception in task!''])"
| "main_lines _ = [Caught ''Exception in task!'', ValueIs 42]"

definition printed_line :: "nat \<times> nat \<Rightarrow> pool_line" where
  "printed_line p = Printed (fst p) (snd p)"

definition tp_lines :: "nat \<Rightarrow> pool \<Rightarrow> bool" where
  "tp_lines n s \<longleftrightarrow>
     (\<exists>ps. tp_out s = map printed_line ps @ main_lines (tp_main s) \<and> distinct (map fst ps) \<and>
       set (map fst ps) = {k. k < 2 \<and> tp_futs s k \<noteq> TPending} \<and> (\<forall>p \<in> set ps. snd p < n))"

fun pm_ok :: "pm_pc \<Rightarrow> bool" where
  "pm_ok (PmNext k) = (k < 4)" | "pm_ok (PmEmplacing k) = (k < 4)" | "pm_ok (PmGet k) = (k < 4)"
| "pm_ok PmTerminated = False" | "pm_ok _ = True"

definition tp_output :: "nat \<Rightarrow> pool \<Rightarrow> bool" where
  "tp_output n s \<longleftrightarrow>
     tp_value s = (if tp_futs s 3 = TPending then 0 else 42) \<and>
     (\<forall>k < got (tp_main s). tp_futs s k \<noteq> TPending) \<and> pm_ok (tp_main s) \<and> tp_lines n s"

fun pw_locked :: "pw_pc \<Rightarrow> bool" where
  "pw_locked (PwGuard r) = True" | "pw_locked pc = at_list pc"

text \<open>The mutex is owned exactly by the worker between its lock and its release.\<close>

definition tp_mutex :: "nat \<Rightarrow> pool \<Rightarrow> bool" where
  "tp_mutex n s \<longleftrightarrow>
     (\<forall>w. tp_owner s = Some w \<longrightarrow> w < n) \<and> (\<forall>w<n. tp_owner s = Some w \<longleftrightarrow> pw_locked (tp_worker s w))"

text \<open>What a worker at \<^verbatim>\<open>front()\<close> or \<^verbatim>\<open>pop_front()\<close> finds: only the element it has moved out itself is empty.\<close>

fun pw_shape :: "packaged option list \<Rightarrow> pw_pc \<Rightarrow> bool" where
  "pw_shape l PwFront = (l \<noteq> [] \<and> None \<notin> set l)"
| "pw_shape l (PwPop q) = (q \<noteq> None \<and> l \<noteq> [] \<and> hd l = None \<and> None \<notin> set (tl l))"
| "pw_shape l (PwGuard (Some q)) = (q \<noteq> None)"
| "pw_shape l (PwRun q) = (q \<noteq> None)"
| "pw_shape l _ = True"

fun popping :: "pw_pc \<Rightarrow> bool" where
  "popping (PwPop q) = True" | "popping _ = False"

definition tp_shape :: "nat \<Rightarrow> pool \<Rightarrow> bool" where
  "tp_shape n s \<longleftrightarrow>
     (\<forall>w<n. pw_shape (tp_list s) (tp_worker s w)) \<and>
     (None \<in> set (tp_list s) \<longrightarrow> (\<exists>w<n. popping (tp_worker s w))) \<and> \<not> tp_crashed s"

definition pool_inv :: "nat \<Rightarrow> pool \<Rightarrow> bool" where
  "pool_inv n s \<longleftrightarrow> (\<exists>a. tp_places n a s) \<and> tp_output n s \<and> tp_mutex n s \<and> tp_shape n s"

lemma pool_inv_init: "pool_inv n pool_init"
proof -
  have "tp_places n 0 pool_init" by (simp add: tp_places_def tasks_def pool_init_def)
  then show ?thesis
    by (auto simp: pool_inv_def tp_output_def tp_lines_def tp_mutex_def tp_shape_def pool_init_def)
qed

section \<open>Preservation\<close>

lemma goto_simps [simp]:
  "tp_owner (goto w pc s) = tp_owner s" "tp_list (goto w pc s) = tp_list s" "tp_futs (goto w pc s) = tp_futs s"
  "tp_value (goto w pc s) = tp_value s" "tp_out (goto w pc s) = tp_out s" "tp_stop (goto w pc s) = tp_stop s"
  "tp_worker (goto w pc s) = (tp_worker s)(w := pc)" "tp_main (goto w pc s) = tp_main s"
  "tp_raced (goto w pc s) = tp_raced s" "tp_crashed (goto w pc s) = tp_crashed s"
  by (simp_all add: goto_def)

lemma call_entry [simp]:
  assumes "k < 4"
  shows "tp_owner (call_task w (entry k) s) = tp_owner s" "tp_list (call_task w (entry k) s) = tp_list s"
    "tp_futs (call_task w (entry k) s) = (tp_futs s)(k := task_outcome k)"
    "tp_value (call_task w (entry k) s) = (if k = 3 then 42 else tp_value s)"
    "tp_out (call_task w (entry k) s) = tp_out s @ (if k < 2 then [Printed k w] else [])"
    "tp_worker (call_task w (entry k) s) = tp_worker s" "tp_main (call_task w (entry k) s) = tp_main s"
    "tp_crashed (call_task w (entry k) s) = tp_crashed s"
proof -
  have "k = 0 \<or> k = 1 \<or> k = 2 \<or> k = 3" using assms by arith
  then show "tp_owner (call_task w (entry k) s) = tp_owner s" "tp_list (call_task w (entry k) s) = tp_list s"
    "tp_futs (call_task w (entry k) s) = (tp_futs s)(k := task_outcome k)"
    "tp_value (call_task w (entry k) s) = (if k = 3 then 42 else tp_value s)"
    "tp_out (call_task w (entry k) s) = tp_out s @ (if k < 2 then [Printed k w] else [])"
    "tp_worker (call_task w (entry k) s) = tp_worker s" "tp_main (call_task w (entry k) s) = tp_main s"
    "tp_crashed (call_task w (entry k) s) = tp_crashed s"
    by (auto simp: call_task_def entry_def main_tasks_def task_outcome_def)
qed

lemma task_outcome_neq [simp]: "task_outcome k \<noteq> TPending"
  by (simp add: task_outcome_def)

lemma fst_entry [simp]: "fst (entry k) = k"
  by (simp add: entry_def)

lemma is_entryD: "is_entry p \<Longrightarrow> entry (fst p) = p"
  by (simp add: is_entry_def)

lemma is_entry_entry [simp]: "is_entry (entry k)"
  by (simp add: is_entry_def)

lemma tp_handD:
  assumes "tp_places n a s" "v < n" "in_hand (tp_worker s v) = Some q"
  shows "fst q < a" "is_entry q" "tp_futs s (fst q) = TPending"
  using assms unfolding tp_places_def by blast+

lemma tp_uniqueD:
  "tp_places n a s \<Longrightarrow> v < n \<Longrightarrow> w < n \<Longrightarrow> in_hand (tp_worker s v) = Some q \<Longrightarrow> in_hand (tp_worker s w) = Some q \<Longrightarrow> v = w"
  unfolding tp_places_def by blast

lemma tp_futsD:
  assumes "tp_places n a s" "tp_futs s k \<noteq> TPending"
  shows "k < a" "tp_futs s k = task_outcome k"
  using assms unfolding tp_places_def by blast+

lemma tp_heldD:
  "tp_places n a s \<Longrightarrow> k < a \<Longrightarrow> tp_futs s k = TPending \<Longrightarrow> \<exists>w<n. in_hand (tp_worker s w) = Some (entry k)"
  unfolding tp_places_def by blast

lemma tp_listD:
  assumes "tp_places n a s"
  shows "a \<le> submitted (tp_main s)" "submitted (tp_main s) \<le> 4" "tasks s = map entry [a..<submitted (tp_main s)]"
  using assms unfolding tp_places_def by blast+

lemma tasks_simps [simp]:
  "tasks (s\<lparr>tp_list := []\<rparr>) = []" "tasks (s\<lparr>tp_list := None # l\<rparr>) = tasks (s\<lparr>tp_list := l\<rparr>)"
  "tasks (s\<lparr>tp_list := Some p # l\<rparr>) = p # tasks (s\<lparr>tp_list := l\<rparr>)"
  by (simp_all add: tasks_def List.map_filter_def)

lemma tasks_cong: "tp_list t = tp_list s \<Longrightarrow> tasks t = tasks s"
  by (simp add: tasks_def)

text \<open>Places change only when a task is taken and when it is run.\<close>

lemma tp_places_same:
  assumes "tp_places n a s" "in_hand pc = in_hand (tp_worker s w)" "tp_worker t = (tp_worker s)(w := pc)"
    "tasks t = tasks s" "tp_futs t = tp_futs s" "tp_main t = tp_main s"
  shows "tp_places n a t"
proof -
  have "in_hand (tp_worker t v) = in_hand (tp_worker s v)" for v using assms(2,3) by simp
  moreover have "tasks t = tasks s" using assms(4) .
  ultimately show ?thesis using assms(1,5,6) by (simp add: tp_places_def)
qed

lemma tp_places_take:
  assumes inv: "tp_places n a s" and l: "tp_list s = Some p # ps" and w: "w < n" "in_hand (tp_worker s w) = None"
    and t: "t = goto w (PwPop (Some p)) (s\<lparr>tp_list := None # ps\<rparr>)"
  shows "tp_places n (Suc a) t"
proof -
  let ?m = "submitted (tp_main s)"
  have ts: "tasks s = p # tasks t" using l by (simp add: tasks_def List.map_filter_def t)
  have a: "a < ?m" using tp_listD(3) [OF inv] ts by (cases "a < ?m") auto
  then have "[a..<?m] = a # [Suc a..<?m]" by (rule upt_conv_Cons)
  then have p: "p = entry a" "tasks t = map entry [Suc a..<?m]" using tp_listD(3) [OF inv] ts by auto
  have f: "tp_futs s a = TPending" using tp_futsD(1) [OF inv, of a] by blast
  have hand: "in_hand (tp_worker t v) = (if v = w then Some (entry a) else in_hand (tp_worker s v))" for v
    by (simp add: t p)
  have futs: "tp_futs t = tp_futs s" by (simp add: t)
  show ?thesis unfolding tp_places_def
  proof (intro conjI allI impI)
    show "Suc a \<le> submitted (tp_main t)" "submitted (tp_main t) \<le> 4" using a tp_listD(2) [OF inv] by (simp_all add: t)
    show "tasks t = map entry [Suc a..<submitted (tp_main t)]" using p by (simp add: t)
    fix v q assume v: "v < n" "in_hand (tp_worker t v) = Some q"
    have "fst q < Suc a \<and> is_entry q \<and> tp_futs t (fst q) = TPending"
    proof (cases "v = w")
      case True
      then show ?thesis using v f by (auto simp: hand futs)
    next
      case False
      then show ?thesis using v tp_handD [OF inv v(1), of q] by (simp add: hand futs)
    qed
    then show "fst q < Suc a" "is_entry q" "tp_futs t (fst q) = TPending" by blast+
  next
    fix v u q assume vu: "v < n" "u < n" and q: "in_hand (tp_worker t v) = Some q \<and> in_hand (tp_worker t u) = Some q"
    have "q \<noteq> entry a" if "x < n" "in_hand (tp_worker s x) = Some q" for x
      using tp_handD(1) [OF inv that] by auto
    then show "v = u" using q vu tp_uniqueD [OF inv vu, of q] by (auto simp: hand split: if_splits)
  next
    fix k assume "tp_futs t k \<noteq> TPending"
    then show "k < Suc a" "tp_futs t k = task_outcome k" using tp_futsD [OF inv, of k] by (auto simp: futs)
  next
    fix k assume k: "k < Suc a" "tp_futs t k = TPending"
    show "\<exists>v<n. in_hand (tp_worker t v) = Some (entry k)"
    proof (cases "k = a")
      case False
      then obtain v where "v < n" "in_hand (tp_worker s v) = Some (entry k)" using tp_heldD [OF inv, of k] k by (auto simp: futs)
      moreover from this have "v \<noteq> w" using w(2) by auto
      ultimately show ?thesis by (auto simp: hand)
    qed (use w in \<open>auto simp: hand\<close>)
  qed
qed

lemma tp_places_run:
  assumes inv: "tp_places n a s" and w: "w < n" and p: "tp_worker s w = PwRun (Some p)"
    and t: "t = goto w PwHead (call_task w p s)"
  shows "tp_places n a t" and "fst p < 4" "is_entry p" "tp_futs s (fst p) = TPending"
proof -
  have h: "in_hand (tp_worker s w) = Some p" using p by simp
  note hp = tp_handD [OF inv w h]
  show k4: "fst p < 4" using hp(1) tp_listD [OF inv] by simp
  show "is_entry p" "tp_futs s (fst p) = TPending" by (rule hp)+
  define k where "k = fst p"
  have pk: "p = entry k" "k < a" "k < 4" using hp k4 is_entryD [of p] by (auto simp: k_def)
  have hand: "in_hand (tp_worker t v) = (if v = w then None else in_hand (tp_worker s v))" for v
    using pk by (simp add: t)
  have futs: "tp_futs t = (tp_futs s)(k := task_outcome k)" using pk by (simp add: t)
  have other: "fst q \<noteq> k" if v: "v < n" "v \<noteq> w" "in_hand (tp_worker s v) = Some q" for v q
  proof
    assume "fst q = k"
    then have "q = p" using is_entryD [OF tp_handD(2) [OF inv v(1,3)]] pk by simp
    then show False using tp_uniqueD [OF inv v(1) w, of q] v h by simp
  qed
  show "tp_places n a t" unfolding tp_places_def
  proof (intro conjI allI impI)
    show "a \<le> submitted (tp_main t)" "submitted (tp_main t) \<le> 4" "tasks t = map entry [a..<submitted (tp_main t)]"
      using tp_listD [OF inv] pk by (simp_all add: t tasks_def)
    fix v q assume v: "v < n" "in_hand (tp_worker t v) = Some q"
    then have "v \<noteq> w" "in_hand (tp_worker s v) = Some q" by (auto simp: hand split: if_splits)
    then show "fst q < a" "is_entry q" "tp_futs t (fst q) = TPending"
      using tp_handD [OF inv v(1), of q] other [OF v(1), of q] by (simp_all add: futs)
  next
    fix v u q assume vu: "v < n" "u < n" and "in_hand (tp_worker t v) = Some q \<and> in_hand (tp_worker t u) = Some q"
    then show "v = u" using tp_uniqueD [OF inv vu, of q] by (auto simp: hand split: if_splits)
  next
    fix j assume "tp_futs t j \<noteq> TPending"
    then have j: "j = k \<or> tp_futs s j \<noteq> TPending" by (auto simp: futs split: if_splits)
    then show "j < a" "tp_futs t j = task_outcome j" using tp_futsD [OF inv, of j] pk by (auto simp: futs)
  next
    fix j assume j: "j < a" "tp_futs t j = TPending"
    then have "j \<noteq> k" by (auto simp: futs)
    then obtain v where v: "v < n" "in_hand (tp_worker s v) = Some (entry j)"
      using tp_heldD [OF inv, of j] j by (auto simp: futs)
    then have "v \<noteq> w" using h pk \<open>j \<noteq> k\<close> fst_entry by (metis option.inject)
    then show "\<exists>v<n. in_hand (tp_worker t v) = Some (entry j)" using v by (auto simp: hand)
  qed
qed

lemma tp_output_same:
  assumes "tp_output n s" "tp_value t = tp_value s" "tp_futs t = tp_futs s" "tp_main t = tp_main s" "tp_out t = tp_out s"
  shows "tp_output n t"
  using assms by (simp add: tp_output_def tp_lines_def)

lemma tp_output_run:
  assumes out: "tp_output n s" and k: "k < 4" "tp_futs s k = TPending" and w: "w < n"
    and t: "t = goto w PwHead (call_task w (entry k) s)"
  shows "tp_output n t"
proof -
  obtain ps where ps: "tp_out s = map printed_line ps @ main_lines (tp_main s)" "distinct (map fst ps)"
    "set (map fst ps) = {j. j < 2 \<and> tp_futs s j \<noteq> TPending}" "\<forall>p \<in> set ps. snd p < n"
    using out unfolding tp_output_def tp_lines_def by blast
  define qs where "qs = (if k < 2 then [(k, w)] else [])"
  have futs: "tp_futs t = (tp_futs s)(k := task_outcome k)" using k by (simp add: t)
  have lines: "main_lines (tp_main s) = []" if "k < 2"
  proof (cases "tp_main s")
    case (PmGet j)
    have "\<not> k < j" using out k(2) PmGet unfolding tp_output_def by auto
    then show ?thesis using that PmGet by simp
  qed (use out k that in \<open>auto simp: tp_output_def\<close>)
  have "tp_out t = map printed_line (ps @ qs) @ main_lines (tp_main t)"
    using k ps(1) lines by (auto simp: t qs_def printed_line_def)
  moreover have "distinct (map fst (ps @ qs))" using ps(2,3) k by (auto simp: qs_def)
  moreover have "set (map fst (ps @ qs)) = {j. j < 2 \<and> tp_futs t j \<noteq> TPending}"
  proof -
    have "set (map fst (ps @ qs)) = {j. j < 2 \<and> tp_futs s j \<noteq> TPending} \<union> (if k < 2 then {k} else {})"
      using ps(3) by (simp add: qs_def)
    then show ?thesis by (auto simp: futs)
  qed
  moreover have "\<forall>p \<in> set (ps @ qs). snd p < n" using ps(4) w by (auto simp: qs_def)
  ultimately have "tp_lines n t" unfolding tp_lines_def by blast
  moreover have "tp_value t = (if tp_futs t 3 = TPending then 0 else 42)" using out k by (simp add: t tp_output_def)
  moreover have "tp_main t = tp_main s" using k by (simp add: t)
  ultimately show ?thesis using out by (auto simp: tp_output_def futs)
qed

lemma tp_mutex_move:
  assumes mx: "tp_mutex n s" and w: "w < n" and t: "tp_worker t = (tp_worker s)(w := pc)"
    and o: "tp_owner t = (if pw_locked pc then Some w else if pw_locked (tp_worker s w) then None else tp_owner s)"
    and f: "pw_locked pc \<Longrightarrow> pw_locked (tp_worker s w) \<or> tp_owner s = None"
  shows "tp_mutex n t"
proof -
  have m: "tp_owner s = Some v \<longleftrightarrow> v < n \<and> pw_locked (tp_worker s v)" if "v < n \<or> tp_owner s = Some v" for v
    using mx that unfolding tp_mutex_def by blast
  have "tp_owner t = Some v \<longleftrightarrow> pw_locked (tp_worker t v)" if "v < n" for v
    using m [of v] m [of w] w that o f by (cases "v = w") (auto simp: t)
  moreover have "v < n" if "tp_owner t = Some v" for v
    using that w o mx by (auto simp: tp_mutex_def split: if_splits)
  ultimately show ?thesis by (simp add: tp_mutex_def)
qed

lemma tp_ownD:
  assumes "tp_mutex n s" "v < n" "w < n" "pw_locked (tp_worker s v)" "pw_locked (tp_worker s w)"
  shows "v = w"
proof -
  have "tp_owner s = Some v" "tp_owner s = Some w" using assms unfolding tp_mutex_def by blast+
  then show ?thesis by simp
qed

lemma popping_locked: "popping pc \<Longrightarrow> pw_locked pc"
  by (cases pc) auto

text \<open>The shape of the list matters only to the worker that has the mutex.\<close>

lemma pw_shape_unlocked: "pw_shape l pc \<Longrightarrow> \<not> at_list pc \<Longrightarrow> pw_shape l' pc"
  by (induction l pc rule: pw_shape.induct) auto

lemma tp_shape_move:
  assumes mx: "tp_mutex n s" and sh: "tp_shape n s" and w: "w < n"
    and t: "tp_worker t = (tp_worker s)(w := pc)" "\<not> tp_crashed t"
    and l: "tp_list t = tp_list s \<or> pw_locked (tp_worker s w)"
    and p: "pw_shape (tp_list t) pc"
    and e: "None \<in> set (tp_list t) \<Longrightarrow> popping pc \<or> \<not> popping (tp_worker s w) \<and> tp_list t = tp_list s"
  shows "tp_shape n t"
  unfolding tp_shape_def
proof (intro conjI allI impI)
  fix v assume v: "v < n"
  have sv: "pw_shape (tp_list s) (tp_worker s v)" using sh v by (simp add: tp_shape_def)
  show "pw_shape (tp_list t) (tp_worker t v)"
  proof (cases "v = w")
    case False
    have "tp_list t = tp_list s \<or> \<not> at_list (tp_worker s v)"
      using l tp_ownD [OF mx v w] False by (cases "tp_worker s v") auto
    then show ?thesis using False sv pw_shape_unlocked [OF sv] by (auto simp: t)
  qed (simp add: t p)
next
  assume n: "None \<in> set (tp_list t)"
  show "\<exists>v<n. popping (tp_worker t v)"
  proof (cases "popping pc")
    case False
    then have q: "\<not> popping (tp_worker s w)" "None \<in> set (tp_list s)" using e n by auto
    then obtain v where "v < n" "popping (tp_worker s v)" using sh by (auto simp: tp_shape_def)
    moreover from this q(1) have "v \<noteq> w" by blast
    ultimately show ?thesis by (auto simp: t)
  qed (use w in \<open>auto simp: t\<close>)
qed (rule t(2))

lemma pool_inv_move:
  assumes a: "tp_places n a s" and out: "tp_output n s" and mx: "tp_mutex n s" and sh: "tp_shape n s" and w: "w < n"
    and t: "t = goto w pc (s\<lparr>tp_owner := ow\<rparr>)" and h: "in_hand pc = in_hand (tp_worker s w)"
    and o: "ow = (if pw_locked pc then Some w else if pw_locked (tp_worker s w) then None else tp_owner s)"
    and f: "pw_locked pc \<Longrightarrow> pw_locked (tp_worker s w) \<or> tp_owner s = None"
    and p: "pw_shape (tp_list s) pc" "\<not> popping (tp_worker s w)"
  shows "pool_inv n t"
proof -
  have "tp_places n a t" by (rule tp_places_same [OF a h]) (simp_all add: t tasks_def)
  moreover have "tp_mutex n t" by (rule tp_mutex_move [OF mx w, of _ pc]) (use o f in \<open>simp_all add: t\<close>)
  moreover have "tp_output n t" by (rule tp_output_same [OF out]) (simp_all add: t)
  moreover have "tp_shape n t"
    by (rule tp_shape_move [OF mx sh w, of _ pc]) (use p sh in \<open>simp_all add: t tp_shape_def\<close>)
  ultimately show ?thesis by (auto simp: pool_inv_def)
qed

lemma full_listD: "l \<noteq> [] \<Longrightarrow> None \<notin> set l \<Longrightarrow> \<exists>p qs. l = Some p # qs \<and> None \<notin> set qs"
  by (cases l; cases "hd l") auto

lemma pool_inv_front:
  assumes inv: "pool_inv n s" and w: "w < n" and pc: "tp_worker s w = PwFront" and st: "pool_worker_step w s = Some t"
  shows "pool_inv n t"
proof -
  obtain a where a: "tp_places n a s" and out: "tp_output n s" and mx: "tp_mutex n s" and sh: "tp_shape n s"
    using inv by (auto simp: pool_inv_def)
  have "pw_shape (tp_list s) PwFront" using sh w pc unfolding tp_shape_def by metis
  then obtain p qs where l: "tp_list s = Some p # qs" "None \<notin> set qs" using full_listD [of "tp_list s"] by auto
  have t: "t = goto w (PwPop (Some p)) (s\<lparr>tp_list := None # qs\<rparr>)" using st pc l by (simp add: pool_worker_step_def)
  have "tp_owner s = Some w" using mx w pc by (simp add: tp_mutex_def)
  then have "tp_mutex n t" using pc by (intro tp_mutex_move [OF mx w, of t "PwPop (Some p)"]) (simp_all add: t)
  moreover have "tp_places n (Suc a) t" by (rule tp_places_take [OF a l(1) w _ t]) (simp add: pc)
  moreover have "tp_output n t" by (rule tp_output_same [OF out]) (simp_all add: t)
  moreover have "tp_shape n t"
    using sh l pc by (intro tp_shape_move [OF mx sh w, of t "PwPop (Some p)"]) (simp_all add: t tp_shape_def)
  ultimately show ?thesis by (auto simp: pool_inv_def)
qed

lemma pool_inv_pop:
  assumes inv: "pool_inv n s" and w: "w < n" and pc: "tp_worker s w = PwPop q" and st: "pool_worker_step w s = Some t"
  shows "pool_inv n t"
proof -
  obtain a where a: "tp_places n a s" and out: "tp_output n s" and mx: "tp_mutex n s" and sh: "tp_shape n s"
    using inv by (auto simp: pool_inv_def)
  have "pw_shape (tp_list s) (PwPop q)" using sh w pc unfolding tp_shape_def by metis
  then obtain qs where q: "q \<noteq> None" and l: "tp_list s = None # qs" "None \<notin> set qs" by (cases "tp_list s") auto
  have t: "t = goto w (PwGuard (Some q)) (s\<lparr>tp_list := qs\<rparr>)" using st pc l by (simp add: pool_worker_step_def)
  have "tp_owner s = Some w" using mx w pc by (simp add: tp_mutex_def)
  then have "tp_mutex n t" using pc by (intro tp_mutex_move [OF mx w, of t "PwGuard (Some q)"]) (simp_all add: t)
  moreover have "tp_places n a t"
    using l pc by (intro tp_places_same [OF a, of "PwGuard (Some q)" w]) (simp_all add: t tasks_def List.map_filter_def)
  moreover have "tp_output n t" by (rule tp_output_same [OF out]) (simp_all add: t)
  moreover have "tp_shape n t"
    using sh l pc q by (intro tp_shape_move [OF mx sh w, of t "PwGuard (Some q)"]) (simp_all add: t tp_shape_def)
  ultimately show ?thesis by (auto simp: pool_inv_def)
qed

lemma pool_inv_run:
  assumes inv: "pool_inv n s" and w: "w < n" and pc: "tp_worker s w = PwRun q" and st: "pool_worker_step w s = Some t"
  shows "pool_inv n t"
proof -
  obtain a where a: "tp_places n a s" and out: "tp_output n s" and mx: "tp_mutex n s" and sh: "tp_shape n s"
    using inv by (auto simp: pool_inv_def)
  have "pw_shape (tp_list s) (PwRun q)" using sh w pc unfolding tp_shape_def by metis
  then obtain p where q: "q = Some p" by auto
  then have t: "t = goto w PwHead (call_task w p s)" using st pc by (simp add: pool_worker_step_def)
  note run = tp_places_run [OF a w pc [unfolded q] t]
  define k where "k = fst p"
  have p: "p = entry k" "k < 4" "tp_futs s k = TPending" using run is_entryD [of p] by (simp_all add: k_def)
  have "tp_output n t" using tp_output_run [OF out p(2,3) w] t p(1) by simp
  moreover have "tp_mutex n t" using pc p by (intro tp_mutex_move [OF mx w, of t PwHead]) (simp_all add: t)
  moreover have "tp_shape n t"
    using sh pc p by (intro tp_shape_move [OF mx sh w, of t PwHead]) (simp_all add: t tp_shape_def)
  ultimately show ?thesis using run(1) by (auto simp: pool_inv_def)
qed

lemma pool_inv_worker:
  assumes inv: "pool_inv n s" and w: "w < n" and st: "pool_worker_step w s = Some t"
  shows "pool_inv n t"
proof -
  obtain a where a: "tp_places n a s" and out: "tp_output n s" and mx: "tp_mutex n s" and sh: "tp_shape n s"
    using inv by (auto simp: pool_inv_def)
  note move = pool_inv_move [OF a out mx sh w]
  have own: "tp_owner s = Some w \<longleftrightarrow> pw_locked (tp_worker s w)" using mx w by (simp add: tp_mutex_def)
  show ?thesis
  proof (cases "tp_worker s w")
    case PwHead
    then show ?thesis using st by (intro move [of t "if tp_stop s w then PwExited else PwLock" "tp_owner s"])
        (simp_all add: pool_worker_step_def split: if_splits)
  next
    case PwLock
    then show ?thesis using st w by (intro move [of t PwEmpty "Some w"]) (simp_all add: pool_worker_step_def split: if_splits)
  next
    case PwEmpty
    have "None \<notin> set (tp_list s)"
    proof
      assume "None \<in> set (tp_list s)"
      then obtain v where v: "v < n" "popping (tp_worker s v)" using sh by (auto simp: tp_shape_def)
      then have "v = w" using PwEmpty by (intro tp_ownD [OF mx v(1) w popping_locked]) simp_all
      then show False using v PwEmpty by simp
    qed
    moreover have t: "t = goto w (if tp_list s = [] then PwGuard None else PwFront) (s\<lparr>tp_owner := tp_owner s\<rparr>)"
      using st PwEmpty by (simp add: pool_worker_step_def)
    ultimately show ?thesis using PwEmpty own by (intro move [OF t]) simp_all
  next
    case PwFront
    then show ?thesis using st by (intro pool_inv_front [OF inv w])
  next
    case (PwPop q)
    then show ?thesis using st by (intro pool_inv_pop [OF inv w])
  next
    case (PwGuard r)
    have "pw_shape (tp_list s) (PwGuard r)" using sh w PwGuard unfolding tp_shape_def by metis
    then show ?thesis using st PwGuard
      by (intro move [of t "case r of None \<Rightarrow> PwSleep | Some q \<Rightarrow> PwRun q" None])
        (simp_all add: pool_worker_step_def split: option.splits)
  next
    case (PwRun q)
    then show ?thesis using st by (intro pool_inv_run [OF inv w])
  next
    case PwSleep
    then show ?thesis using st by (intro move [of t PwHead "tp_owner s"]) (simp_all add: pool_worker_step_def)
  qed (use st in \<open>simp add: pool_worker_step_def\<close>)
qed

text \<open>A step of \<^verbatim>\<open>main\<close> that only moves on, possibly writing a line.\<close>

lemma pool_inv_advance:
  assumes inv: "pool_inv n s" and t: "t = s\<lparr>tp_out := tp_out s @ ls, tp_main := m\<rparr>"
    and m: "submitted m = submitted (tp_main s)" "main_lines m = main_lines (tp_main s) @ ls" "pm_ok m"
    and g: "\<forall>k < got m. tp_futs s k \<noteq> TPending"
  shows "pool_inv n t"
proof -
  obtain a where "tp_places n a s" "tp_output n s" "tp_mutex n s" "tp_shape n s" using inv by (auto simp: pool_inv_def)
  moreover from this have "tp_places n a t" using m(1) by (simp add: tp_places_def tasks_def t)
  moreover have "tp_mutex n t" "tp_shape n t" using calculation(3,4) by (simp_all add: tp_mutex_def tp_shape_def t)
  moreover have "tp_lines n t" using calculation(2) m(2) by (auto simp: tp_output_def tp_lines_def t)
  ultimately have "tp_output n t" using m(3) g by (simp add: tp_output_def t)
  then show ?thesis using \<open>tp_places n a t\<close> \<open>tp_mutex n t\<close> \<open>tp_shape n t\<close> by (auto simp: pool_inv_def)
qed

lemma pw_shape_append: "pw_shape l pc \<Longrightarrow> pw_shape (l @ [Some p]) pc"
  by (induction l pc rule: pw_shape.induct) auto

lemma pool_inv_emplace:
  assumes inv: "pool_inv n s" and pc: "tp_main s = PmEmplacing k"
    and t: "t = s\<lparr>tp_list := tp_list s @ [Some (entry k)], tp_main := if k < 3 then PmNext (k + 1) else PmGet 0\<rparr>"
  shows "pool_inv n t"
proof -
  obtain a where a: "tp_places n a s" and out: "tp_output n s" and mx: "tp_mutex n s" and sh: "tp_shape n s"
    using inv by (auto simp: pool_inv_def)
  have k: "k < 4" using out pc by (simp add: tp_output_def)
  then have sub: "submitted (tp_main t) = Suc k" by (auto simp: t)
  have "a \<le> k" using tp_listD(1) [OF a] pc by simp
  then have "tasks t = map entry [a..<Suc k]"
    using tp_listD(3) [OF a] pc by (simp add: t tasks_def List.map_filter_def)
  then have "tasks t = map entry [a..<submitted (tp_main t)]" by (simp only: sub)
  then have "tp_places n a t" using a \<open>a \<le> k\<close> k sub unfolding tp_places_def by (simp add: t)
  moreover have "tp_mutex n t" using mx by (simp add: tp_mutex_def t)
  moreover have "tp_shape n t" using sh pw_shape_append by (auto simp: tp_shape_def t)
  moreover have "tp_output n t" using out pc k by (auto simp: tp_output_def tp_lines_def t)
  ultimately show ?thesis by (auto simp: pool_inv_def)
qed

lemma pool_inv_main:
  assumes inv: "pool_inv n s" and st: "pool_main_step n s = Some t"
  shows "pool_inv n t"
proof -
  obtain a where a: "tp_places n a s" and out: "tp_output n s" using inv by (auto simp: pool_inv_def)
  have g: "\<forall>k < got (tp_main s). tp_futs s k \<noteq> TPending" and ok: "pm_ok (tp_main s)" using out by (simp_all add: tp_output_def)
  have v: "tp_value s = (if tp_futs s 3 = TPending then 0 else 42)" using out by (simp add: tp_output_def)
  show ?thesis
  proof (cases "tp_main s")
    case (PmNext k)
    then show ?thesis using st ok by (intro pool_inv_advance [OF inv, of t "PmEmplacing k" "[]"]) (simp_all add: pool_main_step_def)
  next
    case (PmEmplacing k)
    then show ?thesis using st by (intro pool_inv_emplace [OF inv PmEmplacing]) (simp add: pool_main_step_def entry_def)
  next
    case (PmGet k)
    have k: "k < 4" using ok PmGet by simp
    have g': "\<forall>j<Suc k. tp_futs s j \<noteq> TPending" if "tp_futs s k \<noteq> TPending" using g PmGet that by (auto simp: less_Suc_eq)
    have o: "tp_futs s k = task_outcome k" if "tp_futs s k \<noteq> TPending" using tp_futsD(2) [OF a that] .
    show ?thesis
    proof (cases "tp_futs s k")
      case TPending
      then show ?thesis using st PmGet by (simp add: pool_main_step_def)
    next
      case TReady
      then have k2: "k \<noteq> 2" using o by (auto simp: task_outcome_def)
      show ?thesis
      proof (cases "k < 3")
        case True
        then show ?thesis using st PmGet TReady k2 g'
          by (intro pool_inv_advance [OF inv, of t "PmGet (k + 1)" "[]"]) (simp_all add: pool_main_step_def)
      next
        case False
        then have "k = 3" using k by simp
        then show ?thesis using st PmGet TReady g' v
          by (intro pool_inv_advance [OF inv, of t "PmStop 0" "[ValueIs 42]"]) (simp_all add: pool_main_step_def)
      qed
    next
      case (TRaised e)
      then have "k = 2" "e = ''Exception in task!''" using o by (auto simp: task_outcome_def split: if_splits)
      then show ?thesis using st PmGet TRaised g'
        by (intro pool_inv_advance [OF inv, of t "PmGet 3" "[Caught e]"]) (simp_all add: pool_main_step_def)
    qed
  next
    case (PmStop i)
    show ?thesis
    proof (cases "i < n")
      case True
      then have t: "t = s\<lparr>tp_stop := (tp_stop s)(i := True), tp_main := PmJoin i\<rparr>" using st PmStop by (simp add: pool_main_step_def)
      have "pool_inv n (s\<lparr>tp_main := PmJoin i\<rparr>)"
        using PmStop g by (intro pool_inv_advance [OF inv, of _ "PmJoin i" "[]"]) simp_all
      then show ?thesis
        by (simp add: t pool_inv_def tp_places_def tasks_def tp_output_def tp_lines_def tp_mutex_def tp_shape_def)
    next
      case False
      then show ?thesis using st PmStop g
        by (intro pool_inv_advance [OF inv, of t PmReturned "[]"]) (simp_all add: pool_main_step_def)
    qed
  next
    case (PmJoin i)
    then show ?thesis using st g
      by (intro pool_inv_advance [OF inv, of t "PmStop (i + 1)" "[]"]) (simp_all add: pool_main_step_def split: if_splits)
  qed (use st in \<open>simp_all add: pool_main_step_def\<close>)
qed

text \<open>The race flag is no part of the invariant; it ends the execution.\<close>

lemma pool_inv_flag [simp]: "pool_inv n (s\<lparr>tp_raced := b\<rparr>) = pool_inv n s"
  by (simp add: pool_inv_def tp_places_def tasks_def tp_output_def tp_lines_def tp_mutex_def tp_shape_def)

lemma pool_step_cases [consumes 1, case_names Main Worker]:
  assumes "pool_step n l s = Some t"
  obtains (Main) u where "l = None" "pool_main_step n s = Some u" "t = u\<lparr>tp_raced := pool_race n u\<rparr>"
      "\<not> tp_raced s" "\<not> tp_crashed s"
  | (Worker) w u where "l = Some w" "w < n" "pool_worker_step w s = Some u" "t = u\<lparr>tp_raced := pool_race n u\<rparr>"
      "\<not> tp_raced s" "\<not> tp_crashed s"
  using assms by (auto simp: pool_step_def split: if_splits option.splits)

lemma pool_inv_step:
  assumes "pool_inv n s" "pool_step n l s = Some t"
  shows "pool_inv n t"
  using assms(2)
proof (cases rule: pool_step_cases)
  case (Main u)
  then show ?thesis using pool_inv_main [OF assms(1)] by simp
next
  case (Worker w u)
  then show ?thesis using pool_inv_worker [OF assms(1)] by simp
qed

interpretation pool: machine_inv "pool_step n" pool_init "pool_inv n" for n
  by unfold_locales (auto intro: pool_inv_init pool_inv_step)

section \<open>Stopping\<close>

text \<open>Worker \<open>w\<close> has been asked to stop.\<close>

fun stop_sent :: "nat \<Rightarrow> pm_pc \<Rightarrow> bool" where
  "stop_sent w (PmStop i) = (w < i)" | "stop_sent w (PmJoin i) = (w \<le> i)" | "stop_sent w PmReturned = True"
| "stop_sent w _ = False"

definition pool_stops :: "nat \<Rightarrow> pool \<Rightarrow> bool" where
  "pool_stops n s \<longleftrightarrow>
     (\<forall>w<n. (tp_stop s w \<longleftrightarrow> stop_sent w (tp_main s)) \<and> (tp_worker s w = PwExited \<longrightarrow> tp_stop s w)) \<and>
     (\<forall>i. tp_main s = PmJoin i \<longrightarrow> i < n) \<and> (\<forall>i. tp_main s = PmStop i \<longrightarrow> i \<le> n)"

lemma pool_stops_main:
  assumes "pool_stops n s" "pool_main_step n s = Some t"
  shows "pool_stops n t"
  using assms
  by (cases "tp_main s")
    (auto simp: pool_main_step_def pool_stops_def split: if_splits task_result.splits)

lemma call_task_simps [simp]:
  "tp_stop (call_task w p s) = tp_stop s" "tp_main (call_task w p s) = tp_main s"
  "tp_worker (call_task w p s) = tp_worker s" "tp_list (call_task w p s) = tp_list s"
  by (simp_all add: call_task_def split: prod.split pool_task.split)

lemma pool_worker_frame:
  assumes "pool_worker_step w s = Some t"
  shows "tp_main t = tp_main s" "tp_stop t = tp_stop s" "v \<noteq> w \<Longrightarrow> tp_worker t v = tp_worker s v"
    "tp_worker t w = PwExited \<Longrightarrow> tp_stop s w"
  using assms
  by (cases "tp_worker s w", auto simp: pool_worker_step_def split: if_splits list.splits option.splits)+

lemma pool_stops_worker:
  assumes "pool_stops n s" "pool_worker_step w s = Some t"
  shows "pool_stops n t"
  unfolding pool_stops_def
proof (intro conjI allI impI)
  note frame = pool_worker_frame [OF assms(2)]
  fix v assume v: "v < n"
  show "tp_stop t v \<longleftrightarrow> stop_sent v (tp_main t)" using assms(1) v frame(1,2) by (simp add: pool_stops_def)
  show "tp_stop t v" if "tp_worker t v = PwExited"
    using assms(1) v frame that by (cases "v = w") (auto simp: pool_stops_def)
next
  show "i < n" if "tp_main t = PmJoin i" for i using assms(1) that pool_worker_frame(1) [OF assms(2)] by (simp add: pool_stops_def)
  show "i \<le> n" if "tp_main t = PmStop i" for i using assms(1) that pool_worker_frame(1) [OF assms(2)] by (simp add: pool_stops_def)
qed

lemma pool_stops_flag [simp]: "pool_stops n (s\<lparr>tp_raced := b\<rparr>) = pool_stops n s"
  by (simp add: pool_stops_def)

lemma pool_stops_step:
  assumes "pool_stops n s" "pool_step n l s = Some t"
  shows "pool_stops n t"
  using assms(2)
proof (cases rule: pool_step_cases)
  case (Main u)
  then show ?thesis using pool_stops_main [OF assms(1)] by simp
next
  case (Worker w u)
  then show ?thesis using pool_stops_worker [OF assms(1)] by simp
qed

section \<open>The program can always be completed\<close>

text \<open>While \<^verbatim>\<open>main\<close> waits for a result the workers have to take tasks; otherwise they have to leave the
  list alone, or to stop. The two tables order the program points accordingly.\<close>

fun pw_weight :: "bool \<Rightarrow> pw_pc \<Rightarrow> nat" where
  "pw_weight getting (PwPop q) = (if getting then 9 else 6)"
| "pw_weight getting (PwGuard r) = (if getting then 8 else 5)"
| "pw_weight getting (PwRun q) = (if getting then 7 else 4)"
| "pw_weight getting PwSleep = (if getting then 6 else 3)"
| "pw_weight getting PwHead = (if getting then 5 else 2)"
| "pw_weight getting PwLock = (if getting then 4 else 9)"
| "pw_weight getting PwEmpty = (if getting then 3 else 8)"
| "pw_weight getting PwFront = (if getting then 2 else 7)"
| "pw_weight getting PwExited = 0"

fun getting :: "pm_pc \<Rightarrow> bool" where
  "getting (PmGet k) = True" | "getting _ = False"

fun pm_weight :: "nat \<Rightarrow> pm_pc \<Rightarrow> nat" where
  "pm_weight n (PmNext k) = 2 * n + 20 - 2 * k" | "pm_weight n (PmEmplacing k) = 2 * n + 19 - 2 * k"
| "pm_weight n (PmGet k) = 2 * n + 10 - k" | "pm_weight n (PmStop i) = 2 * (n - i) + 1" | "pm_weight n (PmJoin i) = 2 * (n - i)"
| "pm_weight n PmReturned = 0" | "pm_weight n PmTerminated = 0"

definition pool_rest :: "nat \<Rightarrow> pool \<Rightarrow> nat" where
  "pool_rest n s = 20 * length (tasks s) + (\<Sum>w<n. pw_weight (getting (tp_main s)) (tp_worker s w))"

definition pool_rank :: "nat \<Rightarrow> pool \<Rightarrow> nat" where
  "pool_rank n s = (9 * n + 21) * pm_weight n (tp_main s) + pool_rest n s"

lemma pw_weight_le: "(\<Sum>w<n. pw_weight g (f w)) \<le> 9 * n"
proof -
  have "pw_weight g (f w) \<le> 9" for w by (cases "f w") auto
  then have "(\<Sum>w<n. pw_weight g (f w)) \<le> of_nat (card {..<n}) * 9" by (intro sum_bounded_above) simp
  then show ?thesis by simp
qed

lemma pool_rank_main:
  assumes "pool_inv n s" "pool_stops n s" "pool_main_step n s = Some t"
  shows "pool_rank n t < pool_rank n s"
proof -
  have ok: "pm_ok (tp_main s)" using assms(1) by (simp add: pool_inv_def tp_output_def)
  have m: "Suc (pm_weight n (tp_main t)) \<le> pm_weight n (tp_main s)"
    using assms(2,3) ok
    by (cases "tp_main s") (auto simp: pool_main_step_def pool_stops_def split: if_splits task_result.splits)
  have l: "length (tasks t) \<le> length (tasks s) + 1"
    using assms(3) by (auto simp: pool_main_step_def tasks_def List.map_filter_def split: pm_pc.splits if_splits task_result.splits)
  have "pool_rest n t \<le> pool_rest n s + 20 + 9 * n"
    using l pw_weight_le [of "getting (tp_main t)" "tp_worker t" n] by (simp add: pool_rest_def)
  moreover have "(9 * n + 21) * Suc (pm_weight n (tp_main t)) \<le> (9 * n + 21) * pm_weight n (tp_main s)"
    using m by (rule mult_le_mono2)
  ultimately show ?thesis unfolding pool_rank_def mult_Suc_right by linarith
qed

text \<open>A step of a worker whose weight goes down, or who takes a task.\<close>

lemma pool_rank_worker:
  assumes w: "w < n" and st: "pool_worker_step w s = Some t"
    and d: "pw_weight (getting (tp_main s)) (tp_worker t w) < pw_weight (getting (tp_main s)) (tp_worker s w) \<and>
        length (tasks t) \<le> length (tasks s) \<or> length (tasks t) < length (tasks s)"
  shows "pool_rank n t < pool_rank n s"
proof -
  let ?g = "getting (tp_main s)"
  have f: "tp_main t = tp_main s" "\<And>v. v \<noteq> w \<Longrightarrow> tp_worker t v = tp_worker s v" using pool_worker_frame [OF st] by auto
  have "(\<Sum>v<n. pw_weight ?g (tp_worker t v)) = pw_weight ?g (tp_worker t w) + (\<Sum>v\<in>{..<n} - {w}. pw_weight ?g (tp_worker s v))"
    using w f(2) by (subst sum.remove [of _ w]) (auto intro!: sum.cong)
  moreover have "(\<Sum>v<n. pw_weight ?g (tp_worker s v)) = pw_weight ?g (tp_worker s w) + (\<Sum>v\<in>{..<n} - {w}. pw_weight ?g (tp_worker s v))"
    using w by (subst sum.remove [of _ w]) auto
  moreover have "pw_weight ?g (tp_worker t w) \<le> 9" by (cases "tp_worker t w") auto
  ultimately have "pool_rest n t < pool_rest n s" using d by (auto simp: pool_rest_def f(1))
  then show ?thesis by (simp add: pool_rank_def f(1))
qed

definition pool_progress :: "nat \<Rightarrow> pool \<Rightarrow> bool" where
  "pool_progress n s \<longleftrightarrow>
     (\<not> tp_raced s \<and> \<not> tp_crashed s \<longrightarrow> (\<exists>l t. pool_norace n l s = Some t \<and> pool_rank n t < pool_rank n s))"

lemma pool_rank_flag [simp]: "pool_rank n (s\<lparr>tp_raced := b\<rparr>) = pool_rank n s"
  by (simp add: pool_rank_def pool_rest_def tasks_def)

lemma pool_progress_main:
  assumes "pool_inv n s" "pool_stops n s" "pool_main_step n s = Some t" "\<not> pool_race n t"
  shows "pool_progress n s"
  unfolding pool_progress_def
proof
  assume "\<not> tp_raced s \<and> \<not> tp_crashed s"
  then have "pool_norace n None s = Some (t\<lparr>tp_raced := False\<rparr>)" using assms(3,4) by (simp add: pool_norace_def pool_step_def)
  moreover have "pool_rank n (t\<lparr>tp_raced := False\<rparr>) < pool_rank n s" using pool_rank_main [OF assms(1-3)] by simp
  ultimately show "\<exists>l t. pool_norace n l s = Some t \<and> pool_rank n t < pool_rank n s" by blast
qed

lemma pool_progress_worker:
  assumes w: "w < n" and st: "pool_worker_step w s = Some t" and e: "\<And>k. tp_main s \<noteq> PmEmplacing k"
    and d: "pw_weight (getting (tp_main s)) (tp_worker t w) < pw_weight (getting (tp_main s)) (tp_worker s w) \<and>
        length (tasks t) \<le> length (tasks s) \<or> length (tasks t) < length (tasks s)"
  shows "pool_progress n s"
  unfolding pool_progress_def
proof
  assume r: "\<not> tp_raced s \<and> \<not> tp_crashed s"
  have "\<not> pool_race n t" using e pool_worker_frame(1) [OF st] by (simp add: pool_race_def)
  then have "pool_norace n (Some w) s = Some (t\<lparr>tp_raced := False\<rparr>)"
    using r w st by (simp add: pool_norace_def pool_step_def)
  moreover have "pool_rank n (t\<lparr>tp_raced := False\<rparr>) < pool_rank n s" using pool_rank_worker [OF w st d] by simp
  ultimately show "\<exists>l t. pool_norace n l s = Some t \<and> pool_rank n t < pool_rank n s" by blast
qed

text \<open>A worker with a task in hand, one with the mutex, and one that is to stop always make progress.\<close>

lemma tasks_goto [simp]: "tasks (goto w pc s) = tasks s" "tasks (s\<lparr>tp_owner := ow\<rparr>) = tasks s"
  by (simp_all add: tasks_def)

lemma tasks_call [simp]: "tasks (call_task w p s) = tasks s"
  by (simp add: tasks_def)

lemma pool_progress_locked:
  assumes w: "w < n" "pw_locked (tp_worker s w)" and sh: "tp_shape n s" and e: "\<And>k. tp_main s \<noteq> PmEmplacing k"
    and g: "getting (tp_main s) \<Longrightarrow> tp_worker s w = PwEmpty \<Longrightarrow> tp_list s \<noteq> []"
  shows "pool_progress n s"
proof -
  have shw: "pw_shape (tp_list s) (tp_worker s w)" using sh w(1) by (simp add: tp_shape_def)
  note worker = pool_progress_worker [OF w(1), of s]
  show ?thesis
  proof (cases "tp_worker s w")
    case PwEmpty
    then show ?thesis using e g
      by (intro worker [of "goto w (if tp_list s = [] then PwGuard None else PwFront) s"]) (auto simp: pool_worker_step_def)
  next
    case PwFront
    then obtain p qs where l: "tp_list s = Some p # qs" using shw full_listD by fastforce
    have "length (tasks (goto w (PwPop (Some p)) (s\<lparr>tp_list := None # qs\<rparr>))) < length (tasks s)"
      using l by (simp add: tasks_def List.map_filter_def)
    then show ?thesis using PwFront e l
      by (intro worker [of "goto w (PwPop (Some p)) (s\<lparr>tp_list := None # qs\<rparr>)"]) (simp_all add: pool_worker_step_def)
  next
    case (PwPop q)
    then obtain qs where l: "tp_list s = None # qs" using shw by (cases "tp_list s") auto
    have "tasks (goto w (PwGuard (Some q)) (s\<lparr>tp_list := qs\<rparr>)) = tasks s"
      using l by (simp add: tasks_def List.map_filter_def)
    then show ?thesis using PwPop e l
      by (intro worker [of "goto w (PwGuard (Some q)) (s\<lparr>tp_list := qs\<rparr>)"]) (simp_all add: pool_worker_step_def)
  next
    case (PwGuard r)
    then show ?thesis using e
      by (intro worker) (auto simp: pool_worker_step_def split: option.splits)
  qed (use w in simp_all)
qed

lemma pool_progress_hand:
  assumes "w < n" "in_hand (tp_worker s w) \<noteq> None" "tp_shape n s" "\<And>k. tp_main s \<noteq> PmEmplacing k"
  shows "pool_progress n s"
proof (cases "tp_worker s w")
  case (PwRun q)
  then obtain p where "q = Some p" using assms(2) by auto
  then show ?thesis using assms PwRun
    by (intro pool_progress_worker [OF assms(1), of s]) (auto simp: pool_worker_step_def)
next
  case (PwPop q)
  then show ?thesis using assms by (intro pool_progress_locked [of w]) simp_all
next
  case (PwGuard r)
  then show ?thesis using assms by (intro pool_progress_locked [of w]) simp_all
qed (use assms(2) in simp_all)

lemma pool_progress_free:
  assumes w: "w < n" "tp_worker s w \<noteq> PwExited" "\<not> pw_locked (tp_worker s w)" and o: "tp_owner s = None"
    and sh: "tp_shape n s" and e: "\<And>k. tp_main s \<noteq> PmEmplacing k" and g: "getting (tp_main s) \<longleftrightarrow> \<not> tp_stop s w"
  shows "pool_progress n s"
proof (cases "tp_worker s w")
  case PwHead
  then show ?thesis using e g
    by (intro pool_progress_worker [OF w(1), of s "goto w (if tp_stop s w then PwExited else PwLock) s"])
      (simp_all add: pool_worker_step_def)
next
  case PwLock
  then show ?thesis using e o
    by (intro pool_progress_worker [OF w(1), of s "goto w PwEmpty (s\<lparr>tp_owner := Some w\<rparr>)"])
      (simp_all add: pool_worker_step_def)
next
  case (PwRun q)
  have "pw_shape (tp_list s) (PwRun q)" using sh w(1) PwRun unfolding tp_shape_def by metis
  then show ?thesis using e sh PwRun by (intro pool_progress_hand [of w]) (simp_all add: w)
next
  case PwSleep
  then show ?thesis using e
    by (intro pool_progress_worker [OF w(1), of s "goto w PwHead s"]) (simp_all add: pool_worker_step_def)
qed (use w in simp_all)

lemma pool_progress_join:
  assumes i: "i < n" "tp_worker s i \<noteq> PwExited" "tp_stop s i" and m: "tp_main s = PmJoin i" and mx: "tp_mutex n s" and sh: "tp_shape n s"
  shows "pool_progress n s"
proof (cases "pw_locked (tp_worker s i) \<or> (\<exists>v. tp_owner s = Some v)")
  case True
  then obtain v where "v < n" "pw_locked (tp_worker s v)" using i(1) mx by (auto simp: tp_mutex_def)
  then show ?thesis using m sh by (intro pool_progress_locked [of v]) simp_all
next
  case False
  then show ?thesis using i m sh by (intro pool_progress_free [of i]) simp_all
qed

lemma pool_progress_get:
  assumes inv: "tp_places n a s" and mx: "tp_mutex n s" and sh: "tp_shape n s" and m: "tp_main s = PmGet k" "k < 4" "tp_futs s k = TPending"
    and w: "0 < n" "tp_worker s 0 \<noteq> PwExited" "\<not> tp_stop s 0"
  shows "pool_progress n s"
proof (cases "k < a")
  case True
  then obtain v where "v < n" "in_hand (tp_worker s v) = Some (entry k)" using tp_heldD [OF inv _ m(3)] by blast
  then show ?thesis using m sh by (intro pool_progress_hand [of v]) simp_all
next
  case False
  then have l: "tp_list s \<noteq> []" using tp_listD(3) [OF inv] m by (auto simp: tasks_def)
  show ?thesis
  proof (cases "pw_locked (tp_worker s 0) \<or> (\<exists>v. tp_owner s = Some v)")
    case True
    then obtain v where "v < n" "pw_locked (tp_worker s v)" using w(1) mx by (auto simp: tp_mutex_def)
    then show ?thesis using m l sh by (intro pool_progress_locked [of v]) simp_all
  next
    case False
    then show ?thesis using w m sh by (intro pool_progress_free [of 0]) simp_all
  qed
qed

lemma pool_enabled:
  assumes inv: "pool_inv n s" and stops: "pool_stops n s" and n: "0 < n" and nf: "tp_main s \<noteq> PmReturned"
  shows "pool_progress n s"
proof -
  obtain a where a: "tp_places n a s" and mx: "tp_mutex n s" and ok: "pm_ok (tp_main s)" and sh: "tp_shape n s"
    using inv by (auto simp: pool_inv_def tp_output_def)
  have main: "pool_progress n s" if "pool_main_step n s = Some t" "\<And>k. tp_main t \<noteq> PmEmplacing k" for t
    using pool_progress_main [OF inv stops that(1)] that(2) by (simp add: pool_race_def)
  show ?thesis
  proof (cases "tp_main s")
    case (PmNext k)
    show ?thesis
    proof (cases "\<exists>w<n. at_list (tp_worker s w)")
      case True
      then obtain w where w: "w < n" "at_list (tp_worker s w)" by auto
      then have "pw_locked (tp_worker s w)" by (cases "tp_worker s w") simp_all
      then show ?thesis using PmNext sh w(1) by (intro pool_progress_locked [of w]) simp_all
    next
      case False
      then have "\<not> pool_race n (s\<lparr>tp_main := PmEmplacing k\<rparr>)" by (auto simp: pool_race_def list_ex_iff)
      then show ?thesis using PmNext by (intro pool_progress_main [OF inv stops]) (auto simp: pool_main_step_def)
    qed
  next
    case (PmEmplacing k)
    then show ?thesis by (intro main) (auto simp: pool_main_step_def split: if_splits)
  next
    case (PmGet k)
    show ?thesis
    proof (cases "tp_futs s k")
      case TPending
      then show ?thesis using stops n ok PmGet
        by (intro pool_progress_get [OF a mx sh PmGet]) (auto simp: pool_stops_def)
    next
      case TReady
      then show ?thesis using PmGet by (cases "k < 3") (auto simp: pool_main_step_def intro!: main)
    next
      case (TRaised e)
      then show ?thesis using PmGet by (cases "k = 2") (auto simp: pool_main_step_def intro!: main)
    qed
  next
    case (PmStop i)
    then show ?thesis by (cases "i < n") (auto simp: pool_main_step_def intro!: main)
  next
    case (PmJoin i)
    then have i: "i < n" "tp_stop s i" using stops by (auto simp: pool_stops_def)
    show ?thesis
    proof (cases "tp_worker s i = PwExited")
      case True
      then show ?thesis using PmJoin by (intro main) (auto simp: pool_main_step_def)
    next
      case False
      then show ?thesis using i PmJoin mx sh by (intro pool_progress_join) simp_all
    qed
  qed (use nf ok in simp_all)
qed

lemma pool_norace_step: "pool_norace n l s = Some t \<Longrightarrow> pool_step n l s = Some t \<and> \<not> tp_raced t"
  by (auto simp: pool_norace_def split: option.splits if_splits)

interpretation pool_live: machine_live "pool_norace (Suc k)" pool_init
  "\<lambda>s. pool_inv (Suc k) s \<and> pool_stops (Suc k) s \<and> \<not> tp_raced s" "pool_rank (Suc k)" "\<lambda>s. tp_main s = PmReturned" for k
proof unfold_locales
  show "pool_inv (Suc k) pool_init \<and> pool_stops (Suc k) pool_init \<and> \<not> tp_raced pool_init"
    using pool_inv_init by (simp add: pool_stops_def pool_init_def)
  show "pool_inv (Suc k) t \<and> pool_stops (Suc k) t \<and> \<not> tp_raced t"
    if "pool_inv (Suc k) s \<and> pool_stops (Suc k) s \<and> \<not> tp_raced s" "pool_norace (Suc k) l s = Some t" for s l t
    using that pool_norace_step pool_inv_step pool_stops_step by blast
  show "\<exists>l t. pool_norace (Suc k) l s = Some t \<and> pool_rank (Suc k) t < pool_rank (Suc k) s"
    if "pool_inv (Suc k) s \<and> pool_stops (Suc k) s \<and> \<not> tp_raced s" "tp_main s \<noteq> PmReturned" for s
  proof -
    have "pool_progress (Suc k) s" using pool_enabled [of "Suc k" s] that by simp
    moreover have "\<not> tp_crashed s" using that(1) by (simp add: pool_inv_def tp_shape_def)
    ultimately show ?thesis using that(1) by (simp add: pool_progress_def)
  qed
qed

interpretation pool_stop: machine_inv "pool_step n" pool_init "pool_stops n" for n
proof unfold_locales
  show "pool_stops n pool_init" by (simp add: pool_stops_def pool_init_def)
qed (rule pool_stops_step)

lemma norace_reach: "reach (pool_norace n) s t \<Longrightarrow> \<not> tp_raced s \<Longrightarrow> reach (pool_step n) s t \<and> \<not> tp_raced t"
  by (induction rule: reach.induct) (auto dest: pool_norace_step intro: reach_step)

lemma pool_can_return:
  assumes "0 < n" "reach (pool_step n) pool_init s" "\<not> tp_raced s"
  shows "\<exists>t. reach (pool_step n) s t \<and> \<not> tp_raced t \<and> tp_main t = PmReturned"
proof -
  obtain k where k: "n = Suc k" using assms(1) by (cases n) auto
  have "pool_inv n s \<and> pool_stops n s \<and> \<not> tp_raced s"
    using pool.reach_inv [OF assms(2)] pool_stop.reach_inv [OF assms(2)] assms(3) by simp
  then obtain t where "reach (pool_norace n) s t" "tp_main t = PmReturned"
    using pool_live.final_reachable_inv [of k s] unfolding k by blast
  then show ?thesis using norace_reach assms(3) by blast
qed

text \<open>What has been printed when \<^verbatim>\<open>main\<close> returns.\<close>

lemma pool_output_returned:
  assumes out: "tp_output n s" and r: "tp_main s = PmReturned"
  shows "\<exists>i j v w. {i, j} = {0, 1} \<and> v < n \<and> w < n \<and>
    tp_out s = [Printed i v, Printed j w, Caught ''Exception in task!'', ValueIs 42]"
proof -
  obtain ps where ps: "tp_out s = map printed_line ps @ [Caught ''Exception in task!'', ValueIs 42]"
    "distinct (map fst ps)" "set (map fst ps) = {k. k < 2 \<and> tp_futs s k \<noteq> TPending}" "\<forall>p \<in> set ps. snd p < n"
    using out r unfolding tp_output_def tp_lines_def by auto
  have "set (map fst ps) = {0, 1}" using ps(3) out r by (auto simp: tp_output_def)
  moreover have "length ps = 2" using distinct_card [OF ps(2)] calculation by simp
  then obtain p q where pq: "ps = [p, q]" by (auto simp: numeral_2_eq_2 length_Suc_conv)
  ultimately have "{fst p, fst q} = {0, 1}" by simp
  moreover have "tp_out s = [Printed (fst p) (snd p), Printed (fst q) (snd q), Caught ''Exception in task!'', ValueIs 42]"
    using ps(1) pq by (simp add: printed_line_def)
  ultimately show ?thesis using ps(4) pq by auto
qed

section \<open>Properties\<close>

text \<open>C27: the thread pool with any positive number of workers. In every reachable state at most one worker
  is inside \<^verbatim>\<open>GetTask\<close>'s critical section, and it is the owner of the mutex; no worker reads or pops an
  empty list, and none calls a task that another has moved out. Unless \<^verbatim>\<open>Submit\<close> has raced with a
  worker, \<^verbatim>\<open>main\<close> can still return without such a race, and whenever it returns the output is the
  lines of the two printing tasks, each once, in some order and by some workers, then the text of the
  exception of the third task, then "Value is: 42".\<close>

theorem pool_main_output:
  assumes "0 < n" "reach (pool_step n) pool_init s"
  shows "(\<forall>w<n. pw_locked (tp_worker s w) \<longleftrightarrow> tp_owner s = Some w) \<and> \<not> tp_crashed s \<and>
    (\<not> tp_raced s \<longrightarrow> (\<exists>t. reach (pool_step n) s t \<and> \<not> tp_raced t \<and> tp_main t = PmReturned)) \<and>
    (tp_main s = PmReturned \<longrightarrow>
      (\<exists>i j v w. {i, j} = {0, 1} \<and> v < n \<and> w < n \<and>
        tp_out s = [Printed i v, Printed j w, Caught ''Exception in task!'', ValueIs 42]))"
proof -
  have "pool_inv n s" using assms(2) by (rule pool.reach_inv)
  then have "tp_output n s" "tp_mutex n s" "tp_shape n s" by (simp_all add: pool_inv_def)
  then show ?thesis using pool_can_return [OF assms] pool_output_returned [of n s]
    by (simp add: tp_mutex_def tp_shape_def)
qed

theorem pool_main_output_witness:
  "\<exists>t. reach (pool_step 3) pool_init t \<and> tp_main t = PmReturned \<and> \<not> tp_crashed t \<and> last (tp_out t) = ValueIs 42"
proof -
  have "\<not> tp_raced pool_init" by (simp add: pool_init_def)
  then obtain t where t: "reach (pool_step 3) pool_init t" "tp_main t = PmReturned"
    using pool_main_output [of 3 pool_init] by auto
  have "\<not> tp_crashed t" "\<exists>i j v w. tp_out t = [Printed i v, Printed j w, Caught ''Exception in task!'', ValueIs 42]"
    using pool_main_output [of 3 t] t by fastforce+
  then show ?thesis using t by fastforce
qed

text \<open>C28: \<^verbatim>\<open>Submit\<close> races with the workers: the program of \<^verbatim>\<open>main\<close> with three workers can reach a state in which
  \<^verbatim>\<open>main\<close> is appending to the list while a worker, holding the mutex, reads it.\<close>

theorem pool_submit_races:
  "\<exists>s. reach (pool_step 3) pool_init s \<and> pool_race 3 s \<and> tp_owner s = Some 0"
proof -
  have "\<exists>s. run (pool_step 3) [Some 0, Some 0, None] pool_init = Some s \<and> pool_race 3 s \<and> tp_owner s = Some 0"
    by (simp add: pool_step_def pool_init_def pool_worker_step_def pool_main_step_def goto_def pool_race_def upt_rec)
  then show ?thesis using run_imp_reach by metis
qed

end
