(* ===== verification/Senders.thy ===== *)
theory Senders
  imports Prelude "HOL-Library.Signed_Division"
begin

text \<open>
  \<^verbatim>\<open>structured_concurrency/continuations.cpp\<close> and \<^verbatim>\<open>stdexec_intro.cpp\<close>: pipelines of continuations on a thread
  pool. The library stdexec is not part of the repository: its operations (\<^verbatim>\<open>just\<close>, \<^verbatim>\<open>then\<close>, \<^verbatim>\<open>starts_on\<close>,
  \<^verbatim>\<open>when_all\<close>, \<^verbatim>\<open>sync_wait\<close>) are arguments of the definitions, on an arbitrary type of senders, and what
  the programs rely on is \<open>sender_laws\<close> and \<open>when_all_law\<close>. The functions of the repository return what they write and
  a value or an error.
\<close>

section \<open>Results\<close>

text \<open>\<open>Undefined\<close> stands for the undefined behaviour of signed overflow.\<close>

datatype exn = Runtime string | Undefined

type_synonym 'a effect = "string list \<times> (exn + 'a)"

definition bind_effect :: "'a effect \<Rightarrow> ('a \<Rightarrow> 'b effect) \<Rightarrow> 'b effect" where
  "bind_effect m f = (case m of (out, Inl e) \<Rightarrow> (out, Inl e) | (out, Inr v) \<Rightarrow> (out @ fst (f v), snd (f v)))"

definition checked_int :: "int \<Rightarrow> exn + int" where
  "checked_int i = (if - (2 ^ 31) \<le> i \<and> i < 2 ^ 31 then Inr i else Inl Undefined)"

lemma bind_effect_simps [simp]:
  "bind_effect (out, Inl e) f = (out, Inl e)" "bind_effect (out, Inr v) f = (out @ fst (f v), snd (f v))"
  by (simp_all add: bind_effect_def)

section \<open>\<open>continuations.cpp\<close>\<close>

definition Adder :: "int \<Rightarrow> int effect" where
  "Adder i = ([''Adder: '' @ show_int i], checked_int (i + 10))"

definition Multiplier :: "int \<Rightarrow> int effect" where
  "Multiplier i = ([''Multiplier: '' @ show_int i], checked_int (i * 2))"

definition Divider :: "int \<Rightarrow> int effect" where
  "Divider i = ([''Divider: '' @ show_int i], checked_int (i sdiv 3))"

definition errorSpawner :: "int \<Rightarrow> int effect" where
  "errorSpawner i = ([], Inl (Runtime ''Some error''))"

definition HappyPath ::
  "(int \<Rightarrow> 's) \<Rightarrow> ('s \<Rightarrow> (int \<Rightarrow> int effect) \<Rightarrow> 's) \<Rightarrow> ('c \<Rightarrow> 's \<Rightarrow> 's) \<Rightarrow> ('s \<Rightarrow> int effect) \<Rightarrow> 'c \<Rightarrow> unit effect" where
  "HappyPath just andThen starts_on sync_wait scheduler =
     (let work = starts_on scheduler (andThen (andThen (andThen (just 20) Adder) Multiplier) Divider)
      in bind_effect (sync_wait work) (\<lambda>result. ([''Result: '' @ show_int result], Inr ())))"

text \<open>The handler catches exceptions of the pipeline.\<close>

definition ErrorPath ::
  "(int \<Rightarrow> 's) \<Rightarrow> ('s \<Rightarrow> (int \<Rightarrow> int effect) \<Rightarrow> 's) \<Rightarrow> ('c \<Rightarrow> 's \<Rightarrow> 's) \<Rightarrow> ('s \<Rightarrow> int effect) \<Rightarrow> 'c \<Rightarrow> unit effect" where
  "ErrorPath just andThen starts_on sync_wait scheduler =
     (let work = starts_on scheduler
            (andThen (andThen (andThen (andThen (just 20) Adder) Multiplier) errorSpawner) Divider)
      in case bind_effect (sync_wait work) (\<lambda>result. ([''Result: '' @ show_int result], Inr ())) of
           (out, Inl (Runtime what)) \<Rightarrow> (out @ [''Exception caught: '' @ what], Inr ())
         | r \<Rightarrow> r)"

definition continuations_main ::
  "(int \<Rightarrow> 's) \<Rightarrow> ('s \<Rightarrow> (int \<Rightarrow> int effect) \<Rightarrow> 's) \<Rightarrow> ('c \<Rightarrow> 's \<Rightarrow> 's) \<Rightarrow> ('s \<Rightarrow> int effect) \<Rightarrow> 'c \<Rightarrow> unit effect" where
  "continuations_main just andThen starts_on sync_wait sched =
     bind_effect (HappyPath just andThen starts_on sync_wait sched)
       (\<lambda>_. ErrorPath just andThen starts_on sync_wait sched)"

text \<open>The documented behaviour of the library: \<^verbatim>\<open>just\<close> completes with its value, \<^verbatim>\<open>then\<close> calls the function with
  the value of its predecessor and completes with the result, or passes an error on, \<^verbatim>\<open>starts_on\<close>
  moves the work to a scheduler, \<^verbatim>\<open>sync_wait\<close> runs a sender to completion.\<close>

definition sender_laws ::
  "(int \<Rightarrow> 's) \<Rightarrow> ('s \<Rightarrow> (int \<Rightarrow> int effect) \<Rightarrow> 's) \<Rightarrow> ('c \<Rightarrow> 's \<Rightarrow> 's) \<Rightarrow> ('s \<Rightarrow> int effect) \<Rightarrow> bool" where
  "sender_laws just andThen starts_on sync_wait \<longleftrightarrow>
     (\<forall>i. sync_wait (just i) = ([], Inr i)) \<and>
     (\<forall>s f. sync_wait (andThen s f) = bind_effect (sync_wait s) f) \<and>
     (\<forall>c s. sync_wait (starts_on c s) = sync_wait s)"

lemma sender_lawsD:
  assumes "sender_laws just andThen starts_on sync_wait"
  shows "sync_wait (just i) = ([], Inr i)" "sync_wait (andThen s f) = bind_effect (sync_wait s) f"
    "sync_wait (starts_on c s) = sync_wait s"
  using assms by (simp_all add: sender_laws_def)

text \<open>C29: the whole output of \<^verbatim>\<open>continuations.cpp\<close>, for any scheduler: each function is called once, in order,
  with the result of the one before; the happy path computes (20 + 10) * 2 / 3; on the error path
  \<^verbatim>\<open>Divider\<close> is not called, no result is printed, and the text of the exception is.\<close>

theorem continuations_output:
  assumes "sender_laws just andThen starts_on sync_wait"
  shows "continuations_main just andThen starts_on sync_wait sched =
    ([''Adder: 20'', ''Multiplier: 30'', ''Divider: 60'', ''Result: 20'',
      ''Adder: 20'', ''Multiplier: 30'', ''Exception caught: Some error''], Inr ())"
proof -
  have d: "show_int 20 = ''20''" "show_int 30 = ''30''" "show_int 60 = ''60''"
    by (simp_all add: show_int_def show_nat.simps digit_def)
  have c: "checked_int 30 = Inr 30" "checked_int 60 = Inr 60" "checked_int 20 = Inr 20" by (simp_all add: checked_int_def)
  have q: "(60 :: int) sdiv 3 = 20" by (simp add: signed_divide_int_def)
  note laws = sender_lawsD [OF assms]
  show ?thesis
    by (simp add: continuations_main_def HappyPath_def ErrorPath_def laws Adder_def Multiplier_def Divider_def
        errorSpawner_def d c q)
qed

theorem continuations_output_witness:
  "fst (continuations_main (\<lambda>i. ([], Inr i)) bind_effect (\<lambda>c s. s) (\<lambda>s. s) ()) ! 3 = ''Result: 20''"
proof -
  have "sender_laws (\<lambda>i. ([], Inr i)) bind_effect (\<lambda>(c :: unit) s. s) (\<lambda>s. s)" by (simp add: sender_laws_def)
  from continuations_output [OF this, of "()"] show ?thesis by simp
qed

section \<open>\<open>stdexec_intro.cpp\<close>\<close>

text \<open>The lambda writes three pieces and squares its argument.\<close>

definition square_fun :: "int \<Rightarrow> int effect" where
  "square_fun i = ([''Executing task for '', show_int i, [CHR 0x0A]], checked_int (i * i))"

text \<open>\<^verbatim>\<open>when_all\<close> of three senders; the result of waiting for it is a set of possible outputs and the
  values.\<close>

definition stdexec_intro_main ::
  "(int \<Rightarrow> 's) \<Rightarrow> ('s \<Rightarrow> (int \<Rightarrow> int effect) \<Rightarrow> 's) \<Rightarrow> ('c \<Rightarrow> 's \<Rightarrow> 's) \<Rightarrow> ('s \<Rightarrow> 's \<Rightarrow> 's \<Rightarrow> 'w) \<Rightarrow>
   ('w \<Rightarrow> string list set \<times> (exn + int \<times> int \<times> int)) \<Rightarrow> 'c \<Rightarrow> string list \<Rightarrow> bool" where
  "stdexec_intro_main just andThen starts_on when_all sync_wait3 sched out =
     (let task = (\<lambda>i. starts_on sched (andThen (just i) square_fun));
          work = when_all (task 0) (task 1) (task 2)
      in case sync_wait3 work of
           (outs, Inr (i, j, k)) \<Rightarrow>
             (\<exists>o' \<in> outs. out = [''Before sync_wait''] @ [[CHR 0x0A]] @ o' @
                [show_int i @ '' '' @ show_int j @ '' '' @ show_int k @ [CHR 0x0A]])
         | (outs, Inl e) \<Rightarrow> False)"

text \<open>The three run at the same time: what they write is interleaved.\<close>

definition when_all_law ::
  "('s \<Rightarrow> int effect) \<Rightarrow> ('s \<Rightarrow> 's \<Rightarrow> 's \<Rightarrow> 'w) \<Rightarrow> ('w \<Rightarrow> string list set \<times> (exn + int \<times> int \<times> int)) \<Rightarrow> bool" where
  "when_all_law sync_wait when_all sync_wait3 \<longleftrightarrow>
     (\<forall>a b c i j k. snd (sync_wait a) = Inr i \<and> snd (sync_wait b) = Inr j \<and> snd (sync_wait c) = Inr k \<longrightarrow>
       sync_wait3 (when_all a b c) =
         (\<Union>o1 \<in> shuffles (fst (sync_wait a)) (fst (sync_wait b)). shuffles o1 (fst (sync_wait c)), Inr (i, j, k)))"

text \<open>\<^verbatim>\<open>stdexec_intro.cpp\<close> prints the squares of 0, 1 and 2 in this order as its last line, whatever the
  scheduling; before that each task has written its pieces exactly once.\<close>

theorem stdexec_intro_output:
  assumes laws: "sender_laws just andThen starts_on sync_wait" and all: "when_all_law sync_wait when_all sync_wait3"
    and main: "stdexec_intro_main just andThen starts_on when_all sync_wait3 sched out"
  shows "last out = ''0 1 4'' @ [CHR 0x0A] \<and> take 2 out = [''Before sync_wait'', [CHR 0x0A]] \<and>
    mset (butlast (drop 2 out)) = mset (concat (map (\<lambda>i. [''Executing task for '', show_int i, [CHR 0x0A]]) [0, 1, 2]))"
proof -
  define task where "task = (\<lambda>i. starts_on sched (andThen (just i) square_fun))"
  define outs where "outs = (\<Union>o1 \<in> shuffles (fst (square_fun 0)) (fst (square_fun 1)). shuffles o1 (fst (square_fun 2)))"
  have "sync_wait (task i) = square_fun i" for i
    by (simp add: task_def sender_lawsD [OF laws] square_fun_def)
  moreover have "snd (square_fun 0) = Inr 0" "snd (square_fun 1) = Inr 1" "snd (square_fun 2) = Inr 4"
    by (simp_all add: square_fun_def checked_int_def)
  ultimately have w: "sync_wait3 (when_all (task 0) (task 1) (task 2)) = (outs, Inr (0, 1, 4))"
    using all by (simp add: when_all_law_def outs_def)
  obtain o' where o: "o' \<in> outs" "out = [''Before sync_wait''] @ [[CHR 0x0A]] @ o' @
      [show_int 0 @ '' '' @ show_int 1 @ '' '' @ show_int 4 @ [CHR 0x0A]]"
    using main w by (auto simp: stdexec_intro_main_def task_def Let_def)
  have "show_int 0 = ''0''" "show_int 1 = ''1''" "show_int 4 = ''4''"
    by (simp_all add: show_int_def show_nat.simps digit_def)
  moreover have "mset o' = mset (fst (square_fun 0)) + mset (fst (square_fun 1)) + mset (fst (square_fun 2))"
    using o(1) by (auto simp: outs_def mset_shuffles)
  ultimately show ?thesis using o(2) by (simp add: square_fun_def)
qed

end
