(* ===== verification/Fork.thy ===== *)
theory Fork
  imports Sys_Error
begin

text \<open>
  \<^verbatim>\<open>processes_and_threads/fork\<close>: \<^verbatim>\<open>fork_intro.cpp\<close> (the results of \<^verbatim>\<open>fork\<close> and \<^verbatim>\<open>wait\<close> and the exit status of the
  child), \<^verbatim>\<open>fork_cow.cpp\<close> (parent and child have separate memory) and \<^verbatim>\<open>fork_fd.cpp\<close> (they share the open
  file and its offset).
\<close>

section \<open>Exit status\<close>

text \<open>The status \<^verbatim>\<open>wait\<close> stores for a process that returned from \<^verbatim>\<open>main\<close> has the low eight bits of the
  returned value in bits 8 to 15; \<^verbatim>\<open>WEXITSTATUS\<close> reads them.\<close>

unbundle bit_operations_syntax

definition exit_status :: "int \<Rightarrow> 32 word" where
  "exit_status code = push_bit 8 (word_of_int code AND 0xFF)"

definition WEXITSTATUS :: "32 word \<Rightarrow> int" where
  "WEXITSTATUS status = uint (drop_bit 8 (status AND 0xFF00))"

lemma and_FF: "(w :: 32 word) AND 0xFF = take_bit 8 w"
  by (simp add: take_bit_eq_mask mask_eq_decr_exp)

lemma FF00: "(0xFF00 :: 32 word) = push_bit 8 (mask 8)"
  by (simp add: mask_eq_decr_exp push_bit_eq_mult)

lemma WEXITSTATUS_exit_status: "WEXITSTATUS (exit_status code) = code mod 256"
proof -
  have "drop_bit 8 (push_bit 8 (take_bit 8 (word_of_int code :: 32 word)) AND push_bit 8 (mask 8)) =
      take_bit 8 (word_of_int code)"
    by (rule bit_word_eqI) (auto simp: bit_simps)
  moreover have "uint (take_bit 8 (word_of_int code :: 32 word)) = take_bit 8 code"
    by (simp add: unsigned_take_bit_eq unsigned_of_int take_bit_take_bit)
  moreover have "take_bit 8 code = code mod 256" by (simp add: take_bit_eq_mod)
  ultimately show ?thesis by (simp only: WEXITSTATUS_def exit_status_def and_FF FF00)
qed

section \<open>\<open>fork_intro.cpp\<close>\<close>

datatype fi_parent = FiPrint | FiWait | FiReport int int | FiParentExited

datatype fi_child = FiChildPrint | FiChildExited int

record fork_intro =
  fi_parent :: fi_parent
  fi_child :: fi_child
  fi_out :: "string list"

definition fork_intro_init :: fork_intro where
  "fork_intro_init = \<lparr>fi_parent = FiPrint, fi_child = FiChildPrint, fi_out = []\<rparr>"

definition fork_line :: "int \<Rightarrow> string" where
  "fork_line pid = ''Fork return value is '' @ show_int pid"

definition child_line :: "int \<Rightarrow> string" where
  "child_line pid = ''Child pid is '' @ show_int pid"

definition wait_line :: "int \<Rightarrow> int \<Rightarrow> string" where
  "wait_line exited status = ''wait return value: '' @ show_int exited @ '', child's exit status: '' @ show_int status"

text \<open>\<^verbatim>\<open>fork\<close> returns the identifier \<open>pid\<close> of the child, which is what \<^verbatim>\<open>getpid\<close> returns there; \<^verbatim>\<open>wait\<close> blocks until the
  child has exited and returns its identifier and status.\<close>

definition fork_intro_step :: "int \<Rightarrow> (bool, fork_intro) machine" where
  "fork_intro_step pid who s =
     (if who
      then (case fi_parent s of
              FiPrint \<Rightarrow> Some (s\<lparr>fi_out := fi_out s @ [fork_line pid], fi_parent := FiWait\<rparr>)
            | FiWait \<Rightarrow>
                (case fi_child s of
                   FiChildExited code \<Rightarrow> Some (s\<lparr>fi_parent := FiReport pid (WEXITSTATUS (exit_status code))\<rparr>)
                 | FiChildPrint \<Rightarrow> None)
            | FiReport exited status \<Rightarrow>
                Some (s\<lparr>fi_out := fi_out s @ [wait_line exited status], fi_parent := FiParentExited\<rparr>)
            | FiParentExited \<Rightarrow> None)
      else (case fi_child s of
              FiChildPrint \<Rightarrow> Some (s\<lparr>fi_out := fi_out s @ [child_line pid], fi_child := FiChildExited 123\<rparr>)
            | FiChildExited code \<Rightarrow> None))"

definition fork_intro_main :: "int \<Rightarrow> failure + string list \<Rightarrow> bool" where
  "fork_intro_main pid r =
     (case CHECK_ERROR pid of
        Inl f \<Rightarrow> r = Inl f
      | Inr _ \<Rightarrow> (\<exists>s. r = Inr (fi_out s) \<and> reach (fork_intro_step pid) fork_intro_init s \<and> stuck (fork_intro_step pid) s))"

text \<open>The states of the program, by enumeration.\<close>

definition fi_early :: "int \<Rightarrow> fork_intro \<Rightarrow> bool" where
  "fi_early pid s \<longleftrightarrow>
     fi_parent s = FiPrint \<and> fi_child s = FiChildPrint \<and> fi_out s = [] \<or>
     fi_parent s = FiPrint \<and> fi_child s = FiChildExited 123 \<and> fi_out s = [child_line pid] \<or>
     fi_parent s = FiWait \<and> fi_child s = FiChildPrint \<and> fi_out s = [fork_line pid]"

definition fi_late :: "int \<Rightarrow> string list \<Rightarrow> fork_intro \<Rightarrow> bool" where
  "fi_late pid out s \<longleftrightarrow>
     fi_child s = FiChildExited 123 \<and>
     (fi_parent s = FiWait \<and> fi_out s = out \<or> fi_parent s = FiReport pid 123 \<and> fi_out s = out \<or>
      fi_parent s = FiParentExited \<and> fi_out s = out @ [wait_line pid 123])"

definition fi_inv :: "int \<Rightarrow> fork_intro \<Rightarrow> bool" where
  "fi_inv pid s \<longleftrightarrow>
     fi_early pid s \<or> fi_late pid [fork_line pid, child_line pid] s \<or> fi_late pid [child_line pid, fork_line pid] s"

lemma fi_early_step:
  assumes "fi_early pid s" and st: "fork_intro_step pid who s = Some t"
  shows "fi_inv pid t"
proof -
  from assms(1) consider (none) "fi_parent s = FiPrint" "fi_child s = FiChildPrint" "fi_out s = []"
    | (child) "fi_parent s = FiPrint" "fi_child s = FiChildExited 123" "fi_out s = [child_line pid]"
    | (parent) "fi_parent s = FiWait" "fi_child s = FiChildPrint" "fi_out s = [fork_line pid]"
    unfolding fi_early_def by blast
  then show ?thesis
  proof cases
    case none
    then have "t = (if who then s\<lparr>fi_out := [fork_line pid], fi_parent := FiWait\<rparr>
        else s\<lparr>fi_out := [child_line pid], fi_child := FiChildExited 123\<rparr>)"
      using st by (cases who) (auto simp: fork_intro_step_def)
    then show ?thesis using none by (cases who) (simp_all add: fi_inv_def fi_early_def)
  next
    case child
    then have "t = s\<lparr>fi_out := [child_line pid, fork_line pid], fi_parent := FiWait\<rparr>"
      using st by (cases who) (auto simp: fork_intro_step_def)
    then show ?thesis using child by (simp add: fi_inv_def fi_late_def)
  next
    case parent
    then have "t = s\<lparr>fi_out := [fork_line pid, child_line pid], fi_child := FiChildExited 123\<rparr>"
      using st by (cases who) (auto simp: fork_intro_step_def)
    then show ?thesis using parent by (simp add: fi_inv_def fi_late_def)
  qed
qed

lemma fi_late_step: "fi_late pid out s \<Longrightarrow> fork_intro_step pid who s = Some t \<Longrightarrow> fi_late pid out t"
  by (cases who) (auto simp: fi_late_def fork_intro_step_def WEXITSTATUS_exit_status)

lemma fi_inv_step:
  assumes "fi_inv pid s" and st: "fork_intro_step pid who s = Some t"
  shows "fi_inv pid t"
proof (cases "fi_early pid s")
  case True
  then show ?thesis using st by (rule fi_early_step)
next
  case False
  then show ?thesis using assms(1) fi_late_step [OF _ st] unfolding fi_inv_def by blast
qed

fun fi_weight :: "fi_parent \<Rightarrow> nat" where
  "fi_weight FiPrint = 3" | "fi_weight FiWait = 2" | "fi_weight (FiReport a b) = 1" | "fi_weight FiParentExited = 0"

definition fi_rank :: "fork_intro \<Rightarrow> nat" where
  "fi_rank s = fi_weight (fi_parent s) + (if fi_child s = FiChildPrint then 1 else 0)"

interpretation fork_intro: machine_term "fork_intro_step pid" fork_intro_init "fi_inv pid" fi_rank
  "\<lambda>s. fi_parent s = FiParentExited" for pid
proof unfold_locales
  show "fi_inv pid fork_intro_init" by (simp add: fi_inv_def fi_early_def fork_intro_init_def)
  show "fi_inv pid t" if "fi_inv pid s" "fork_intro_step pid who s = Some t" for s who t
    using that by (rule fi_inv_step)
  show "\<exists>who t. fork_intro_step pid who s = Some t" if "fi_inv pid s" "fi_parent s \<noteq> FiParentExited" for s
  proof -
    have "(\<exists>t. fork_intro_step pid True s = Some t) \<or> (\<exists>t. fork_intro_step pid False s = Some t)"
      using that by (cases "fi_parent s"; cases "fi_child s") (auto simp: fork_intro_step_def)
    then show ?thesis by blast
  qed
  show "fi_rank t < fi_rank s" if "fork_intro_step pid who s = Some t" for s who t
    using that by (auto simp: fork_intro_step_def fi_rank_def split: if_splits fi_parent.splits fi_child.splits)
qed

lemma fork_intro_output:
  assumes "pid \<noteq> -1" "fork_intro_main pid r"
  shows "\<exists>first \<in> {[fork_line pid, child_line pid], [child_line pid, fork_line pid]}. r = Inr (first @ [wait_line pid 123])"
proof -
  obtain s where r: "r = Inr (fi_out s)" and re: "reach (fork_intro_step pid) fork_intro_init s" and st: "stuck (fork_intro_step pid) s"
    using assms by (auto simp: fork_intro_main_def CHECK_ERROR_def)
  have "fi_parent s = FiParentExited" using fork_intro.live.stuck_final [OF re st] .
  moreover have "fi_inv pid s" using re by (rule fork_intro.reach_inv)
  ultimately show ?thesis using r by (auto simp: fi_inv_def fi_early_def fi_late_def)
qed

text \<open>Round trip of the exit status: what \<^verbatim>\<open>WEXITSTATUS\<close> reads from the status of a child that returned
  a value between 0 and 255 is that value, and only the low eight bits of any other value; so
  \<^verbatim>\<open>fork_intro.cpp\<close> reports the 123 its child returns.\<close>

theorem exit_status_roundtrip:
  assumes "0 \<le> code" "code < 256"
  shows "WEXITSTATUS (exit_status code) = code \<and> WEXITSTATUS (exit_status (code + 256 * k)) = code"
  using assms by (simp add: WEXITSTATUS_exit_status)

theorem exit_status_roundtrip_witness: "WEXITSTATUS (exit_status 123) = 123 \<and> WEXITSTATUS (exit_status (123 + 256 * -1)) = 123"
  using exit_status_roundtrip [of 123 "-1"] by simp

section \<open>\<open>fork_cow.cpp\<close>\<close>

record cow_memory =
  stackVar :: int
  heapVar :: int

definition cow_init :: cow_memory where
  "cow_init = \<lparr>stackVar = 42, heapVar = 1337\<rparr>"

text \<open>The addresses are the same in both processes: each has its own memory at them.\<close>

definition cow_addresses :: "string \<Rightarrow> string \<times> string \<Rightarrow> string" where
  "cow_addresses who a = who @ '': stackVar address: '' @ fst a @ '', heapVar address: '' @ snd a"

definition cow_values :: "string \<Rightarrow> cow_memory \<Rightarrow> string" where
  "cow_values who mem = who @ '': stackVar value: '' @ show_int (stackVar mem) @ '', heapVar value: '' @ show_int (heapVar mem)"

definition cow_parent :: "cow_memory \<Rightarrow> string list" where
  "cow_parent mem = [cow_values ''[PARENT]'' mem]"

definition cow_child :: "string \<times> string \<Rightarrow> cow_memory \<Rightarrow> string list" where
  "cow_child a mem =
     (let mem' = mem\<lparr>stackVar := stackVar mem + 1, heapVar := 322\<rparr>
      in [cow_addresses ''[CHILD]'' a, cow_values ''[CHILD]'' mem, cow_addresses ''[CHILD]'' a, cow_values ''[CHILD]'' mem'])"

text \<open>After \<^verbatim>\<open>fork\<close> the processes share nothing but the standard output.\<close>

definition fork_cow_main :: "int \<Rightarrow> string \<times> string \<Rightarrow> failure + string list \<Rightarrow> bool" where
  "fork_cow_main pid a r =
     (case CHECK_ERROR pid of
        Inl f \<Rightarrow> r = Inl f
      | Inr _ \<Rightarrow>
          (\<exists>out \<in> shuffles (cow_parent cow_init) (cow_child a cow_init). r = Inr (cow_addresses ''[PARENT]'' a # out)))"

text \<open>The parent prints the old values whatever the child has done to its own.\<close>

lemma fork_cow_parent_values:
  assumes "fork_cow_main pid a (Inr out)"
  shows "''[PARENT]: stackVar value: 42, heapVar value: 1337'' \<in> set out \<and>
    ''[CHILD]: stackVar value: 43, heapVar value: 322'' \<in> set out \<and> length out = 6"
proof -
  obtain o' where o: "o' \<in> shuffles (cow_parent cow_init) (cow_child a cow_init)" "out = cow_addresses ''[PARENT]'' a # o'"
    using assms by (auto simp: fork_cow_main_def split: sum.splits)
  have n: "show_int 42 = ''42''" "show_int 43 = ''43''" "show_int 1337 = ''1337''" "show_int 322 = ''322''"
    by (simp_all add: show_int_def show_nat.simps digit_def)
  have "set o' = set (cow_parent cow_init) \<union> set (cow_child a cow_init)" "length o' = 5"
    using set_shuffles [OF o(1)] length_shuffles [OF o(1)] by (simp_all add: cow_parent_def cow_child_def Let_def)
  then show ?thesis using o(2) by (simp add: cow_parent_def cow_child_def cow_values_def cow_init_def Let_def n)
qed

section \<open>\<open>fork_fd.cpp\<close>\<close>

text \<open>An open file description: the contents of the file and the offset, shared after \<^verbatim>\<open>fork\<close>.\<close>

record open_file =
  of_data :: string
  of_offset :: nat

definition file_write :: "string \<Rightarrow> open_file \<Rightarrow> open_file" where
  "file_write msg f =
     f\<lparr>of_data := take (of_offset f) (of_data f) @ msg @ drop (of_offset f + length msg) (of_data f),
       of_offset := of_offset f + length msg\<rparr>"

definition fd_message :: "bool \<Rightarrow> string" where
  "fd_message parent = (if parent then ''Hello from parent'' else ''Hello from child'') @ [CHR 0x0A]"

text \<open>Who has written.\<close>

record fork_fd =
  fd_file :: open_file
  fd_written :: "bool \<Rightarrow> bool"

definition fork_fd_init :: fork_fd where
  "fork_fd_init = \<lparr>fd_file = \<lparr>of_data = [], of_offset = 0\<rparr>, fd_written = (\<lambda>_. False)\<rparr>"

definition fork_fd_step :: "(bool, fork_fd) machine" where
  "fork_fd_step who s =
     (if fd_written s who then None
      else Some (s\<lparr>fd_file := file_write (fd_message who) (fd_file s), fd_written := (fd_written s)(who := True)\<rparr>))"

definition fork_fd_main :: "int \<Rightarrow> int \<Rightarrow> failure + string \<Rightarrow> bool" where
  "fork_fd_main fd pid r =
     (case in_order [CHECK_ERROR fd, CHECK_ERROR pid] of
        Inl f \<Rightarrow> r = Inl f
      | Inr _ \<Rightarrow> (\<exists>s. r = Inr (of_data (fd_file s)) \<and> reach fork_fd_step fork_fd_init s \<and> stuck fork_fd_step s))"

definition fd_inv :: "fork_fd \<Rightarrow> bool" where
  "fd_inv s \<longleftrightarrow>
     (\<exists>ws. distinct ws \<and> set ws = {w. fd_written s w} \<and> of_data (fd_file s) = concat (map fd_message ws) \<and>
       of_offset (fd_file s) = length (of_data (fd_file s)))"

lemma fd_inv_step:
  assumes "fd_inv s" "fork_fd_step who s = Some t"
  shows "fd_inv t"
proof -
  obtain ws where ws: "distinct ws" "set ws = {w. fd_written s w}" "of_data (fd_file s) = concat (map fd_message ws)"
    "of_offset (fd_file s) = length (of_data (fd_file s))" using assms(1) by (auto simp: fd_inv_def)
  have n: "\<not> fd_written s who" and t: "t = s\<lparr>fd_file := file_write (fd_message who) (fd_file s), fd_written := (fd_written s)(who := True)\<rparr>"
    using assms(2) by (auto simp: fork_fd_step_def split: if_splits)
  have d: "distinct (ws @ [who])" using ws(1,2) n by simp
  have "fd_written t = (\<lambda>w. w = who \<or> fd_written s w)" by (rule ext) (simp add: t)
  then have "{w. fd_written t w} = insert who {w. fd_written s w}" by (simp only: insert_compr mem_Collect_eq)
  then have e: "set (ws @ [who]) = {w. fd_written t w}" using ws(2) by simp
  have f: "of_data (fd_file t) = concat (map fd_message (ws @ [who]))" using ws(3,4) by (simp add: t file_write_def)
  have g: "of_offset (fd_file t) = length (of_data (fd_file t))" using ws(4) by (simp add: t file_write_def)
  show ?thesis unfolding fd_inv_def by (intro exI [of _ "ws @ [who]"] conjI d e f g)
qed

interpretation fork_fd: machine_inv fork_fd_step fork_fd_init fd_inv
proof unfold_locales
  show "fd_inv fork_fd_init" by (simp add: fd_inv_def fork_fd_init_def)
qed (rule fd_inv_step)

text \<open>Neither process overwrites what the other has written: the offset is shared.\<close>

lemma fork_fd_contents:
  assumes "fork_fd_main fd pid (Inr contents)"
  shows "contents = fd_message True @ fd_message False \<or> contents = fd_message False @ fd_message True"
proof -
  obtain s where s: "contents = of_data (fd_file s)" "reach fork_fd_step fork_fd_init s" "stuck fork_fd_step s"
    using assms by (auto simp: fork_fd_main_def split: sum.splits)
  obtain ws where ws: "distinct ws" "set ws = {w. fd_written s w}" "contents = concat (map fd_message ws)"
    using fork_fd.reach_inv [OF s(2)] s(1) by (auto simp: fd_inv_def)
  have "fd_written s who" for who using s(3) by (auto simp: stuck_def fork_fd_step_def split: if_splits)
  then have set: "set ws = {True, False}" using ws(2) by auto
  then have "length ws = 2" using distinct_card [OF ws(1)] by simp
  then obtain a b where "ws = [a, b]" by (auto simp: numeral_2_eq_2 length_Suc_conv)
  then show ?thesis using set ws(1,3) by (cases a; cases b) auto
qed

end
