(* ===== verification/Exec.thy ===== *)
theory Exec
  imports Sys_Error "HOL-Library.Sublist"
begin

text \<open>
  \<^verbatim>\<open>processes_and_threads/exec\<close>: \<^verbatim>\<open>exec_fd.cpp\<close> passes a file descriptor as a number in the arguments of
  \<^verbatim>\<open>writer.cpp\<close>; \<^verbatim>\<open>exec_intro.cpp\<close> runs \<^verbatim>\<open>dummy.cpp\<close> through the functions of the \<^verbatim>\<open>exec\<close> family. The parents wait
  for each child, so the programs are sequential. What \<^verbatim>\<open>open\<close> and \<^verbatim>\<open>fork\<close> return, and which programs exist, are arguments.
\<close>

section \<open>\<open>std::to_string\<close> and \<open>std::stoi\<close>\<close>

definition digit_val :: "char \<Rightarrow> nat option" where
  "digit_val c = (if 48 \<le> (of_char c :: nat) \<and> (of_char c :: nat) \<le> 57 then Some (of_char c - 48) else None)"

fun parse_digits :: "nat \<Rightarrow> string \<Rightarrow> nat" where
  "parse_digits acc [] = acc"
| "parse_digits acc (c # cs) = (case digit_val c of None \<Rightarrow> acc | Some d \<Rightarrow> parse_digits (10 * acc + d) cs)"

definition is_space :: "char \<Rightarrow> bool" where
  "is_space c \<longleftrightarrow> (of_char c :: nat) = 32 \<or> 9 \<le> (of_char c :: nat) \<and> (of_char c :: nat) \<le> 13"

text \<open>The library function: white space, an optional sign and digits; what follows them is ignored.\<close>

definition stoi :: "string \<Rightarrow> string + int" where
  "stoi text =
     (let text = dropWhile is_space text;
          negative = (text \<noteq> [] \<and> hd text = CHR ''-'');
          digits = (if text \<noteq> [] \<and> (hd text = CHR ''-'' \<or> hd text = CHR ''+'') then tl text else text);
          value = (if negative then - int (parse_digits 0 digits) else int (parse_digits 0 digits))
      in if digits = [] \<or> digit_val (hd digits) = None then Inl ''invalid_argument''
         else if - (2 ^ 31) \<le> value \<and> value < 2 ^ 31 then Inr value else Inl ''out_of_range'')"

lemma digit_val_digit [simp]: "d < 10 \<Longrightarrow> digit_val (digit d) = Some d"
  by (auto simp: digit_val_def digit_def numeral_eq_Suc less_Suc_eq)

lemma parse_digits_snoc:
  assumes "\<forall>c \<in> set xs. digit_val c \<noteq> None" "d < 10"
  shows "parse_digits acc (xs @ [digit d]) = 10 * parse_digits acc xs + d"
  using assms by (induction xs arbitrary: acc) auto

lemma show_nat_digits: "show_nat n \<noteq> [] \<and> (\<forall>c \<in> set (show_nat n). digit_val c \<noteq> None)"
proof (induction n rule: show_nat.induct)
  case (1 n)
  then show ?case by (subst (1 2) show_nat.simps) (simp split: if_splits)
qed

lemma parse_show_nat: "parse_digits 0 (show_nat n) = n"
proof (induction n rule: show_nat.induct)
  case (1 n)
  show ?case
  proof (cases "n < 10")
    case True
    then show ?thesis by (simp add: show_nat.simps)
  next
    case False
    then have "parse_digits 0 (show_nat n) = 10 * parse_digits 0 (show_nat (n div 10)) + n mod 10"
      using show_nat_digits [of "n div 10"] by (subst show_nat.simps) (simp add: parse_digits_snoc)
    also have "\<dots> = n" using 1 False by simp
    finally show ?thesis .
  qed
qed

lemma digit_val_not_special: "digit_val c \<noteq> None \<Longrightarrow> \<not> is_space c \<and> c \<noteq> CHR ''-'' \<and> c \<noteq> CHR ''+''"
  by (auto simp: digit_val_def is_space_def split: if_splits)

lemma stoi_show_nat: "n < 2 ^ 31 \<Longrightarrow> stoi (show_nat n) = Inr (int n)"
proof -
  assume n: "n < 2 ^ 31"
  obtain c cs where c: "show_nat n = c # cs" "digit_val c \<noteq> None"
    using show_nat_digits [of n] by (cases "show_nat n") auto
  have "int (parse_digits 0 (c # cs)) = int n" using parse_show_nat [of n] c(1) by simp
  moreover have "int n < 2 ^ 31" using n by (metis of_nat_less_iff of_nat_numeral of_nat_power)
  ultimately show ?thesis using digit_val_not_special [OF c(2)] c by (auto simp add: stoi_def Let_def simp del: parse_digits.simps)
qed

text \<open>Round trip: \<^verbatim>\<open>std::stoi\<close>, as \<^verbatim>\<open>writer.cpp\<close> uses it on its argument, reads back every \<^verbatim>\<open>int\<close> that
  \<^verbatim>\<open>std::to_string\<close>, as \<^verbatim>\<open>exec_fd.cpp\<close> uses it on the descriptor, has printed.\<close>

theorem stoi_to_string:
  assumes "- (2 ^ 31) \<le> i" "i < 2 ^ 31"
  shows "stoi (show_int i) = Inr i"
proof (cases "i < 0")
  case False
  then show ?thesis using assms stoi_show_nat [of "nat i"] by (simp add: show_int_def)
next
  case True
  obtain c cs where c: "show_nat (nat (- i)) = c # cs" "digit_val c \<noteq> None"
    using show_nat_digits [of "nat (- i)"] by (cases "show_nat (nat (- i))") auto
  have "int (parse_digits 0 (c # cs)) = - i" using parse_show_nat [of "nat (- i)"] c(1) True by simp
  moreover have "\<not> is_space CHR ''-''" by (simp add: is_space_def)
  ultimately show ?thesis using c True assms by (simp add: stoi_def show_int_def del: parse_digits.simps)
qed

theorem stoi_to_string_witness: "stoi (show_int (- 2147483648)) = Inr (- 2147483648) \<and> stoi (show_int 3) = Inr 3"
  using stoi_to_string [of "- 2147483648"] stoi_to_string [of 3] by simp

section \<open>\<open>writer.cpp\<close> and \<open>exec_fd.cpp\<close>\<close>








definition dashes :: string where
  "dashes = replicate 23 (CHR ''-'')"







section \<open>\<open>dummy.cpp\<close> and \<open>exec_intro.cpp\<close>\<close>

definition env_name :: string where
  "env_name = ''EXAMPLE_ENV''"

text \<open>An environment is a list of strings \<^verbatim>\<open>name=value\<close>.\<close>

fun getenv :: "string \<Rightarrow> string list \<Rightarrow> string option" where
  "getenv name [] = None"
| "getenv name (e # es) =
     (if prefix (name @ ''='') e then Some (drop (length name + 1) e) else getenv name es)"

fun argv_lines :: "nat \<Rightarrow> string list \<Rightarrow> string list" where
  "argv_lines i [] = []"
| "argv_lines i (a # as) = (''argv['' @ show_nat i @ '']='' @ a) # argv_lines (i + 1) as"

definition dummy_main :: "string list \<Rightarrow> string list \<Rightarrow> string list" where
  "dummy_main argv env =
     [''Dummy called with arguments: ''] @ argv_lines 0 argv @
     [case getenv env_name env of Some v \<Rightarrow> env_name @ ''='' @ v | None \<Rightarrow> env_name @ '' is not set'']"

text \<open>The functions of the \<^verbatim>\<open>exec\<close> family: with an explicit environment, or with that of the process; by
  path, or looked up in \<^verbatim>\<open>PATH\<close>.\<close>

datatype exec_call =
    Execl string "string list"
  | Execv string "string list"
  | Execvp string "string list"
  | Execve string "string list" "string list"

text \<open>\<open>None\<close> when the call fails and returns -1.\<close>

fun exec_dummy :: "(string \<Rightarrow> bool) \<Rightarrow> (string \<Rightarrow> bool) \<Rightarrow> string list \<Rightarrow> exec_call \<Rightarrow> string list option" where
  "exec_dummy at_path in_path env (Execl path argv) = (if at_path path then Some (dummy_main argv env) else None)"
| "exec_dummy at_path in_path env (Execv path argv) = (if at_path path then Some (dummy_main argv env) else None)"
| "exec_dummy at_path in_path env (Execvp name argv) = (if in_path name then Some (dummy_main argv env) else None)"
| "exec_dummy at_path in_path env (Execve path argv env') = (if at_path path then Some (dummy_main argv env') else None)"

text \<open>\<^verbatim>\<open>RunDummy\<close>: what the child writes, and the line of the parent. A child whose \<^verbatim>\<open>exec\<close> fails ends in
  \<^verbatim>\<open>CHECK_ERROR\<close>.\<close>

definition RunDummy ::
  "(string \<Rightarrow> bool) \<Rightarrow> (string \<Rightarrow> bool) \<Rightarrow> string list \<Rightarrow> int \<Rightarrow> string \<times> exec_call \<Rightarrow> failure + string list" where
  "RunDummy at_path in_path env pid spawner =
     (case CHECK_ERROR pid of
        Inl f \<Rightarrow> Inl f
      | Inr _ \<Rightarrow>
          Inr ([fst spawner] @ (case exec_dummy at_path in_path env (snd spawner) of Some ls \<Rightarrow> ls | None \<Rightarrow> []) @ [dashes]))"

definition spawners :: "(string \<times> exec_call) list" where
  "spawners =
     [(''execl: '', Execl ''./dummy'' [''dummy'', ''hello'', ''from'', ''execl'']),
      (''execv: '', Execv ''./dummy'' [''./dummy'', ''vector'', ''data'']),
      (''execvp: '', Execvp ''dummy'' [''dummy'', ''found'', ''in'', ''path'']),
      (''execve without env override: '', Execve ''./dummy'' [''dummy'', ''with'', ''env''] []),
      (''execve with env override: '', Execve ''./dummy'' [''dummy'', ''with'', ''env''] [''EXAMPLE_ENV=322''])]"

fun run_all :: "(string \<Rightarrow> bool) \<Rightarrow> (string \<Rightarrow> bool) \<Rightarrow> string list \<Rightarrow> (int \<times> string \<times> exec_call) list \<Rightarrow> failure + string list" where
  "run_all at_path in_path env [] = Inr []"
| "run_all at_path in_path env ((pid, sp) # rest) =
     (case RunDummy at_path in_path env pid sp of
        Inl f \<Rightarrow> Inl f
      | Inr out \<Rightarrow> map_sum id ((@) out) (run_all at_path in_path env rest))"

definition exec_intro_main :: "(string \<Rightarrow> bool) \<Rightarrow> (string \<Rightarrow> bool) \<Rightarrow> string list \<Rightarrow> int list \<Rightarrow> failure + string list" where
  "exec_intro_main at_path in_path env pids = run_all at_path in_path env (zip pids spawners)"

text \<open>With \<^verbatim>\<open>./dummy\<close> in place and five children: the environment of the process reaches the program through
  \<^verbatim>\<open>execl\<close>, \<^verbatim>\<open>execv\<close> and \<^verbatim>\<open>execvp\<close>, and \<^verbatim>\<open>execve\<close> replaces it.\<close>

lemma exec_intro_env:
  assumes "at_path ''./dummy''" "in_path ''dummy''" "length pids = 5" "-1 \<notin> set pids"
  shows "exec_intro_main at_path in_path env pids =
    Inr ([''execl: ''] @ dummy_main [''dummy'', ''hello'', ''from'', ''execl''] env @ [dashes] @
      [''execv: ''] @ dummy_main [''./dummy'', ''vector'', ''data''] env @ [dashes] @
      [''execvp: ''] @ dummy_main [''dummy'', ''found'', ''in'', ''path''] env @ [dashes] @
      [''execve without env override: '', ''Dummy called with arguments: '', ''argv[0]=dummy'', ''argv[1]=with'',
       ''argv[2]=env'', ''EXAMPLE_ENV is not set'', dashes,
       ''execve with env override: '', ''Dummy called with arguments: '', ''argv[0]=dummy'', ''argv[1]=with'',
       ''argv[2]=env'', ''EXAMPLE_ENV=322'', dashes])"
proof -
  obtain a b c d e where p: "pids = [a, b, c, d, e]" using assms(3) by (auto simp: numeral_eq_Suc length_Suc_conv)
  have n: "show_nat 0 = ''0''" "show_nat 1 = ''1''" "show_nat (Suc 0) = ''1''" "show_nat (Suc (Suc 0)) = ''2''"
    by (simp_all add: show_nat.simps digit_def)
  have m: "dummy_main [''dummy'', ''with'', ''env''] [] = [''Dummy called with arguments: '', ''argv[0]=dummy'', ''argv[1]=with'',
       ''argv[2]=env'', ''EXAMPLE_ENV is not set'']"
    "dummy_main [''dummy'', ''with'', ''env''] [''EXAMPLE_ENV=322''] = [''Dummy called with arguments: '', ''argv[0]=dummy'', ''argv[1]=with'',
       ''argv[2]=env'', ''EXAMPLE_ENV=322'']"
    by (simp_all add: dummy_main_def env_name_def n)
  show ?thesis using assms(1,2,4)
    by (simp add: exec_intro_main_def spawners_def p RunDummy_def CHECK_ERROR_def m)
qed

end
