(* ===== verification/Threads_Intro.thy ===== *)
theory Threads_Intro
  imports Sys_Error
begin

text \<open>
  \<^verbatim>\<open>processes_and_threads/pthread/pthread_intro.cpp\<close>, \<^verbatim>\<open>stl/stl_intro.cpp\<close> and \<^verbatim>\<open>stl/jthread.cpp\<close>: starting a
  thread, passing it a reference, joining it, stopping it.
\<close>

section \<open>\<open>pthread_intro.cpp\<close>\<close>

record pt_context =
  pt_a :: int
  pt_b :: int

text \<open>The thread works on the context of \<^verbatim>\<open>main\<close> itself, so the addresses it prints are the same.\<close>

definition pt_addresses :: "string \<Rightarrow> string \<times> string \<Rightarrow> string" where
  "pt_addresses who a = who @ '': context->a address: '' @ fst a @ '', context->b address: '' @ snd a"

definition pt_values :: "string \<Rightarrow> pt_context \<Rightarrow> string" where
  "pt_values who ctx = who @ '': context->a value: '' @ show_int (pt_a ctx) @ '', context->b value: '' @ show_int (pt_b ctx)"

definition ThreadFunction_pt :: "string \<times> string \<Rightarrow> pt_context \<Rightarrow> pt_context \<times> string list" where
  "ThreadFunction_pt a ctx =
     (let ctx' = ctx\<lparr>pt_a := pt_a ctx + 10\<rparr> in (ctx', [pt_addresses ''[CHILD]'' a, pt_values ''[CHILD]'' ctx']))"

text \<open>The outcome: an exit with a failure, the output, or the undefined behaviour of joining a thread that was
  never started. \<^verbatim>\<open>pthread_create\<close> and \<^verbatim>\<open>pthread_join\<close> return 0 or a positive error number.\<close>

datatype pt_outcome = PtFailed | PtOutput "string list" | PtUndefined

definition pthread_intro_main :: "string \<times> string \<Rightarrow> int \<Rightarrow> int \<Rightarrow> pt_outcome" where
  "pthread_intro_main a create_res join_res =
     (let ctx = \<lparr>pt_a = 228, pt_b = 322\<rparr>
      in case CHECK_ERROR create_res of
           Inl _ \<Rightarrow> PtFailed
         | Inr _ \<Rightarrow>
             if create_res \<noteq> 0 then PtUndefined
             else (case ThreadFunction_pt a ctx of
                     (ctx, out) \<Rightarrow>
                       (case CHECK_ERROR join_res of
                          Inl _ \<Rightarrow> PtFailed
                        | Inr _ \<Rightarrow>
                            if join_res \<noteq> 0 then PtUndefined
                            else PtOutput ([pt_addresses ''[PARENT]'' a] @ out @ [pt_values ''[PARENT]'' ctx]))))"

lemma pthread_intro_output:
  "pthread_intro_main a 0 0 =
     PtOutput [pt_addresses ''[PARENT]'' a, pt_addresses ''[CHILD]'' a,
       ''[CHILD]: context->a value: 238, context->b value: 322'', ''[PARENT]: context->a value: 238, context->b value: 322'']"
proof -
  have "show_int 238 = ''238''" "show_int 322 = ''322''" by (simp_all add: show_int_def show_nat.simps digit_def)
  then show ?thesis
    by (simp add: pthread_intro_main_def ThreadFunction_pt_def CHECK_ERROR_def pt_values_def Let_def)
qed

text \<open>\<^verbatim>\<open>CHECK_ERROR\<close> never notices a failure of \<^verbatim>\<open>pthread_create\<close> or \<^verbatim>\<open>pthread_join\<close>: they report errors by a positive
  number and the macro looks for -1. \<^verbatim>\<open>pthread_intro.cpp\<close> therefore never exits with a failure, and when the
  thread cannot be created it goes on to join a thread that does not exist.\<close>

theorem pthread_errors_unnoticed:
  assumes "0 \<le> create_res" "0 \<le> join_res"
  shows "CHECK_ERROR create_res = Inr () \<and> pthread_intro_main a create_res join_res \<noteq> PtFailed \<and>
    (0 < create_res \<longrightarrow> pthread_intro_main a create_res join_res = PtUndefined)"
  using assms by (auto simp: pthread_intro_main_def CHECK_ERROR_def Let_def split: prod.splits)

theorem pthread_errors_unnoticed_witness: "pthread_intro_main ([], []) 11 0 = PtUndefined"
  using pthread_errors_unnoticed [of 11 0] by simp

section \<open>\<open>stl_intro.cpp\<close>\<close>

text \<open>Each thread is joined before the next line of \<^verbatim>\<open>main\<close>: the program is sequential. A thread function
  returns the new value of its reference argument and its output.\<close>

definition arg_line :: "string \<Rightarrow> int \<Rightarrow> string" where
  "arg_line what v = ''[CHILD]: argument value'' @ what @ '': '' @ show_int v"

definition ThreadFunction_stl :: "int \<Rightarrow> int \<times> string list" where
  "ThreadFunction_stl argument = (322, [arg_line [] argument])"

definition lambda_stl :: "int \<Rightarrow> int \<times> string list" where
  "lambda_stl argument = (1337, [arg_line [] argument])"

definition stl_intro_main :: "string list" where
  "stl_intro_main =
     (let value = 42;
          (value, out1) = ThreadFunction_stl value;
          line1 = arg_line '' after thread1'' value;
          (value, out2) = lambda_stl value;
          line2 = arg_line '' after thread2'' value
      in out1 @ [line1] @ out2 @ [line2])"

lemma stl_intro_output:
  "stl_intro_main =
     [''[CHILD]: argument value: 42'', ''[CHILD]: argument value after thread1: 322'',
      ''[CHILD]: argument value: 322'', ''[CHILD]: argument value after thread2: 1337'']"
proof -
  have "show_int 42 = ''42''" "show_int 322 = ''322''" "show_int 1337 = ''1337''"
    by (simp_all add: show_int_def show_nat.simps digit_def)
  then show ?thesis by (simp add: stl_intro_main_def ThreadFunction_stl_def lambda_stl_def arg_line_def)
qed

section \<open>\<open>jthread.cpp\<close>\<close>

text \<open>The first thread is joined at the end of its block, before the second is started. The second prints until
  \<^verbatim>\<open>main\<close> has requested a stop.\<close>

definition hello_line :: string where
  "hello_line = ''Hello from child thread''"

definition not_requested_line :: string where
  "not_requested_line = ''Stop is not requested''"

definition requested_line :: string where
  "requested_line = ''Stop requested''"

datatype jt_main = JmJoinFirst | JmRequest | JmJoin | JmReturned

datatype jt_thread = JtNotStarted | JtLoop | JtPrint | JtDone

record jthread_prog =
  jt_main :: jt_main
  jt_first :: bool
  jt_thread :: jt_thread
  jt_stop :: bool
  jt_out :: "string list"

definition jthread_init :: jthread_prog where
  "jthread_init = \<lparr>jt_main = JmJoinFirst, jt_first = False, jt_thread = JtNotStarted, jt_stop = False, jt_out = []\<rparr>"

datatype jt_who = JtMain | JtFirst | JtSecond

fun jthread_step :: "(jt_who, jthread_prog) machine" where
  "jthread_step JtMain s =
     (case jt_main s of
        JmJoinFirst \<Rightarrow> if jt_first s then Some (s\<lparr>jt_thread := JtLoop, jt_main := JmRequest\<rparr>) else None
      | JmRequest \<Rightarrow> Some (s\<lparr>jt_stop := True, jt_main := JmJoin\<rparr>)
      | JmJoin \<Rightarrow> if jt_thread s = JtDone then Some (s\<lparr>jt_main := JmReturned\<rparr>) else None
      | JmReturned \<Rightarrow> None)"
| "jthread_step JtFirst s =
     (if jt_first s then None
      else Some (s\<lparr>jt_first := True, jt_out := jt_out s @ [hello_line]\<rparr>))"
| "jthread_step JtSecond s =
     (case jt_thread s of
        JtNotStarted \<Rightarrow> None
      | JtLoop \<Rightarrow>
          if jt_stop s then Some (s\<lparr>jt_thread := JtDone, jt_out := jt_out s @ [requested_line]\<rparr>)
          else Some (s\<lparr>jt_thread := JtPrint\<rparr>)
      | JtPrint \<Rightarrow> Some (s\<lparr>jt_thread := JtLoop, jt_out := jt_out s @ [not_requested_line]\<rparr>)
      | JtDone \<Rightarrow> None)"

text \<open>The output as a function of where the program is and of the number of rounds of the loop.\<close>

definition jt_expected :: "nat \<Rightarrow> jthread_prog \<Rightarrow> string list" where
  "jt_expected k s =
     (if jt_first s then [hello_line] else []) @
     (if jt_thread s = JtNotStarted then [] else replicate k not_requested_line) @
     (if jt_thread s = JtDone then [requested_line] else [])"

definition jt_sync :: "jthread_prog \<Rightarrow> bool" where
  "jt_sync s \<longleftrightarrow>
     (jt_main s = JmJoinFirst \<longleftrightarrow> jt_thread s = JtNotStarted) \<and> (jt_stop s \<longleftrightarrow> jt_main s = JmJoin \<or> jt_main s = JmReturned) \<and>
     (jt_main s = JmReturned \<longrightarrow> jt_thread s = JtDone) \<and> (jt_thread s \<noteq> JtNotStarted \<longrightarrow> jt_first s)"

definition jthread_inv :: "jthread_prog \<Rightarrow> bool" where
  "jthread_inv s \<longleftrightarrow> jt_sync s \<and> (\<exists>k. jt_out s = jt_expected k s)"

lemma jt_sync_step: "jt_sync s \<Longrightarrow> jthread_step who s = Some t \<Longrightarrow> jt_sync t"
  by (cases who; cases "jt_main s"; cases "jt_thread s") (auto simp: jt_sync_def split: if_splits)

lemma jt_expected_step:
  assumes "jt_sync s" "jthread_step who s = Some t" "jt_out s = jt_expected k s"
  shows "\<exists>k. jt_out t = jt_expected k t"
proof (cases who)
  case JtMain
  show ?thesis
  proof (cases "jt_main s")
    case JmJoinFirst
    then have "jt_out t = jt_expected 0 t" using assms JtMain by (auto simp: jt_sync_def jt_expected_def split: if_splits)
    then show ?thesis ..
  qed (use assms JtMain in \<open>auto simp: jt_expected_def split: if_splits\<close>)
next
  case JtFirst
  then have "jt_out t = jt_expected k t" using assms by (auto simp: jt_sync_def jt_expected_def split: if_splits)
  then show ?thesis ..
next
  case JtSecond
  show ?thesis
  proof (cases "jt_thread s")
    case JtLoop
    then have "jt_out t = jt_expected k t" using assms JtSecond by (auto simp: jt_expected_def split: if_splits)
    then show ?thesis ..
  next
    case JtPrint
    then have "jt_out t = jt_expected (Suc k) t" using assms JtSecond
      by (auto simp: jt_sync_def jt_expected_def replicate_append_same)
    then show ?thesis ..
  qed (use assms JtSecond in auto)
qed

fun jm_weight :: "jt_main \<Rightarrow> nat" where
  "jm_weight JmJoinFirst = 6" | "jm_weight JmRequest = 4" | "jm_weight JmJoin = 2" | "jm_weight JmReturned = 0"

fun jt_weight :: "jt_thread \<Rightarrow> nat" where
  "jt_weight JtPrint = 2" | "jt_weight JtLoop = 1" | "jt_weight _ = 0"

definition jthread_rank :: "jthread_prog \<Rightarrow> nat" where
  "jthread_rank s = jm_weight (jt_main s) + jt_weight (jt_thread s) + (if jt_first s then 0 else 1)"

lemma jthread_progress:
  assumes "jt_sync s" "jt_main s \<noteq> JmReturned"
  shows "\<exists>who t. jthread_step who s = Some t \<and> jthread_rank t < jthread_rank s"
proof -
  define p where "p = (\<lambda>who. \<exists>t. jthread_step who s = Some t \<and> jthread_rank t < jthread_rank s)"
  have "p JtMain \<or> p JtFirst \<or> p JtSecond"
    using assms by (cases "jt_main s"; cases "jt_thread s") (auto simp: p_def jt_sync_def jthread_rank_def)
  then show ?thesis unfolding p_def by blast
qed

interpretation jthread: machine_live jthread_step jthread_init jthread_inv jthread_rank "\<lambda>s. jt_main s = JmReturned"
proof unfold_locales
  show "jthread_inv jthread_init" by (simp add: jthread_inv_def jt_sync_def jthread_init_def jt_expected_def)
  show "jthread_inv t" if "jthread_inv s" "jthread_step who s = Some t" for s who t
    using that jt_sync_step jt_expected_step unfolding jthread_inv_def by blast
  show "\<exists>who t. jthread_step who s = Some t \<and> jthread_rank t < jthread_rank s"
    if "jthread_inv s" "jt_main s \<noteq> JmReturned" for s
    using that jthread_progress unfolding jthread_inv_def by blast
qed

text \<open>From every state the program can return, and when it has, the output is the line of the first thread,
  some rounds of the second, and its last line.\<close>

lemma jthread_output:
  assumes "reach jthread_step jthread_init s"
  shows "(\<exists>t. reach jthread_step s t \<and> jt_main t = JmReturned) \<and>
    (jt_main s = JmReturned \<longrightarrow>
      (\<exists>k. jt_out s = [hello_line] @ replicate k not_requested_line @ [requested_line]))"
proof -
  have "jthread_inv s" using assms by (rule jthread.reach_inv)
  then show ?thesis using jthread.final_reachable [OF assms]
    by (auto simp: jthread_inv_def jt_sync_def jt_expected_def)
qed

end
