(* ===== verification/Signals.thy ===== *)
theory Signals
  imports Sys_Error
begin

text \<open>
  \<^verbatim>\<open>ipc/signals.cpp\<close> and \<^verbatim>\<open>ipc/sema.cpp\<close>: a parent that signals its child, by signals and by a named
  semaphore. The sleeps of the parents are not modelled: they make it likely, not certain, that
  the child is ready.
\<close>

section \<open>\<open>signals.cpp\<close>\<close>

text \<open>Program points of the child: before \<^verbatim>\<open>signal\<close>, at the test of the flag, before its print in the first
  loop and in the second, killed by one of the two signals, ended by the exception for a failed \<^verbatim>\<open>signal\<close>. Of the parent: before the two
  \<^verbatim>\<open>kill\<close>, the prints after them, \<^verbatim>\<open>wait\<close>, the last print; exited; exited because \<^verbatim>\<open>kill\<close> failed. The last \<^verbatim>\<open>print\<close> of \<^verbatim>\<open>main\<close> is not reachable in the child.\<close>

datatype sg_signal = SIGUSR1 | SIGTERM

datatype sg_child = ScInstall | ScTest | ScWaitUsr | ScWaitTerm | ScKilled sg_signal | ScTerminated

datatype sg_parent = SpKill sg_signal | SpSent sg_signal | SpWait | SpExit | SpExited | SpFailed sg_signal

datatype sg_line = WaitingUsr | WaitingTerm | Sent sg_signal | ParentExited

record signals =
  sg_handler :: bool
  sg_flag :: bool
  sg_pending :: "sg_signal \<Rightarrow> bool"
  sg_child :: sg_child
  sg_parent :: sg_parent
  sg_out :: "sg_line list"

definition signals_init :: signals where
  "signals_init =
     \<lparr>sg_handler = False, sg_flag = False, sg_pending = (\<lambda>_. False), sg_child = ScInstall, sg_parent = SpKill SIGUSR1, sg_out = []\<rparr>"

definition SigUsrHandler :: "signals \<Rightarrow> signals" where
  "SigUsrHandler s = s\<lparr>sg_flag := True\<rparr>"

definition signals_child :: "signals \<Rightarrow> signals option" where
  "signals_child s =
     (case sg_child s of
        ScInstall \<Rightarrow> Some (s\<lparr>sg_handler := True, sg_child := ScTest\<rparr>)
      | ScTest \<Rightarrow> Some (s\<lparr>sg_child := if sg_flag s then ScWaitTerm else ScWaitUsr\<rparr>)
      | ScWaitUsr \<Rightarrow> Some (s\<lparr>sg_out := sg_out s @ [WaitingUsr], sg_child := ScTest\<rparr>)
      | ScWaitTerm \<Rightarrow> Some (s\<lparr>sg_out := sg_out s @ [WaitingTerm]\<rparr>)
      | ScKilled sig \<Rightarrow> None
      | ScTerminated \<Rightarrow> None)"

text \<open>Delivery of a pending signal, at any point: the handler runs, or the default action kills.\<close>

definition sg_alive :: "signals \<Rightarrow> bool" where
  "sg_alive s \<longleftrightarrow> sg_child s \<noteq> ScKilled SIGUSR1 \<and> sg_child s \<noteq> ScKilled SIGTERM \<and> sg_child s \<noteq> ScTerminated"

definition sg_deliver :: "sg_signal \<Rightarrow> signals \<Rightarrow> signals option" where
  "sg_deliver sig s =
     (if sg_pending s sig \<and> sg_alive s
      then (let s = s\<lparr>sg_pending := (sg_pending s)(sig := False)\<rparr>
            in if sig = SIGUSR1 \<and> sg_handler s then Some (SigUsrHandler s)
               else Some (s\<lparr>sg_child := ScKilled sig\<rparr>))
      else None)"

text \<open>\<^verbatim>\<open>kill\<close> succeeds for a child that has not been waited for, dead or alive.\<close>

definition signals_parent :: "signals \<Rightarrow> signals option" where
  "signals_parent s =
     (case sg_parent s of
        SpKill sig \<Rightarrow> Some (s\<lparr>sg_pending := (sg_pending s)(sig := True), sg_parent := SpSent sig\<rparr>)
      | SpSent SIGUSR1 \<Rightarrow> Some (s\<lparr>sg_out := sg_out s @ [Sent SIGUSR1], sg_parent := SpKill SIGTERM\<rparr>)
      | SpSent SIGTERM \<Rightarrow> Some (s\<lparr>sg_out := sg_out s @ [Sent SIGTERM], sg_parent := SpWait\<rparr>)
      | SpWait \<Rightarrow> if sg_alive s then None else Some (s\<lparr>sg_parent := SpExit\<rparr>)
      | SpExit \<Rightarrow> Some (s\<lparr>sg_out := sg_out s @ [ParentExited], sg_parent := SpExited\<rparr>)
      | SpExited \<Rightarrow> None
      | SpFailed sig \<Rightarrow> None)"

text \<open>Failing calls: \<^verbatim>\<open>signal\<close> makes the child throw, \<^verbatim>\<open>kill\<close> makes the parent exit; the result of \<^verbatim>\<open>wait\<close> is not looked at.\<close>

definition signal_fails :: "signals \<Rightarrow> signals option" where
  "signal_fails s = (if sg_child s = ScInstall then Some (s\<lparr>sg_child := ScTerminated\<rparr>) else None)"

definition kill_fails :: "signals \<Rightarrow> signals option" where
  "kill_fails s = (case sg_parent s of SpKill sig \<Rightarrow> Some (s\<lparr>sg_parent := SpFailed sig\<rparr>) | _ \<Rightarrow> None)"

datatype sg_who = SgParent | SgChild | SgDeliver sg_signal | SgSignalFails | SgKillFails

fun signals_step :: "(sg_who, signals) machine" where
  "signals_step SgParent s = signals_parent s"
| "signals_step SgChild s = signals_child s"
| "signals_step (SgDeliver sig) s = sg_deliver sig s"
| "signals_step SgSignalFails s = signal_fails s"
| "signals_step SgKillFails s = kill_fails s"

text \<open>\<^verbatim>\<open>main\<close>: a failed \<^verbatim>\<open>fork\<close>, or any reachable state; the parent has no bound on how long the child takes.\<close>

definition signals_main :: "int \<Rightarrow> failure + signals \<Rightarrow> bool" where
  "signals_main pid r =
     (case CHECK_ERROR pid of
        Inl f \<Rightarrow> r = Inl f
      | Inr _ \<Rightarrow> (\<exists>s. r = Inr s \<and> reach signals_step signals_init s))"

text \<open>The signals already sent.\<close>

fun term_sent :: "sg_parent \<Rightarrow> bool" where
  "term_sent (SpKill sig) = False" | "term_sent (SpSent SIGUSR1) = False" | "term_sent (SpFailed sig) = False"
| "term_sent _ = True"

fun usr_sent :: "sg_parent \<Rightarrow> bool" where
  "usr_sent (SpKill SIGUSR1) = False" | "usr_sent (SpFailed SIGUSR1) = False" | "usr_sent _ = True"

text \<open>The handler is installed by the first step of the child; a child killed by \<^verbatim>\<open>SIGUSR1\<close> had not taken it.\<close>

definition sg_handler_inv :: "signals \<Rightarrow> bool" where
  "sg_handler_inv s \<longleftrightarrow>
     (sg_child s = ScInstall \<or> sg_child s = ScKilled SIGUSR1 \<or> sg_child s = ScTerminated \<longrightarrow> \<not> sg_handler s) \<and>
     (sg_child s = ScTest \<or> sg_child s = ScWaitUsr \<or> sg_child s = ScWaitTerm \<longrightarrow> sg_handler s) \<and>
     (sg_child s = ScWaitTerm \<longrightarrow> sg_flag s)"

text \<open>\<^verbatim>\<open>SIGTERM\<close> stays pending until it kills; the flag is set only after \<^verbatim>\<open>SIGUSR1\<close> was sent.\<close>

definition sg_sent_inv :: "signals \<Rightarrow> bool" where
  "sg_sent_inv s \<longleftrightarrow>
     (sg_pending s SIGTERM \<or> sg_child s = ScKilled SIGTERM \<longrightarrow> term_sent (sg_parent s)) \<and>
     (sg_alive s \<and> term_sent (sg_parent s) \<longrightarrow> sg_pending s SIGTERM) \<and>
     (sg_pending s SIGUSR1 \<or> sg_flag s \<or> sg_child s = ScKilled SIGUSR1 \<longrightarrow> usr_sent (sg_parent s)) \<and>
     (sg_parent s = SpExit \<or> sg_parent s = SpExited \<longrightarrow> \<not> sg_alive s)"

definition signals_inv :: "signals \<Rightarrow> bool" where
  "signals_inv s \<longleftrightarrow> sg_handler_inv s \<and> sg_sent_inv s"

lemma sg_deliver_cases:
  assumes "sg_deliver sig s = Some t"
  obtains (handled) "sig = SIGUSR1" "sg_handler s" "sg_pending s sig" "sg_alive s"
      "t = s\<lparr>sg_pending := (sg_pending s)(sig := False), sg_flag := True\<rparr>"
    | (killed) "sig = SIGUSR1 \<longrightarrow> \<not> sg_handler s" "sg_pending s sig" "sg_alive s"
      "t = s\<lparr>sg_pending := (sg_pending s)(sig := False), sg_child := ScKilled sig\<rparr>"
  using assms by (auto simp: sg_deliver_def SigUsrHandler_def Let_def split: if_splits)

lemma signals_parent_frame:
  assumes "signals_parent s = Some t"
  shows "sg_handler t = sg_handler s" "sg_child t = sg_child s" "sg_flag t = sg_flag s"
  using assms by (auto simp: signals_parent_def split: sg_parent.splits sg_signal.splits if_splits)

lemma sg_handler_step: "sg_handler_inv s \<Longrightarrow> signals_step who s = Some t \<Longrightarrow> sg_handler_inv t"
proof (cases who)
  case (SgDeliver sig)
  assume inv: "sg_handler_inv s" and "signals_step who s = Some t"
  then have "sg_deliver sig s = Some t" using SgDeliver by simp
  then show ?thesis
    by (cases rule: sg_deliver_cases) (use inv in \<open>auto simp: sg_handler_inv_def\<close>)
next
  case SgChild
  assume "sg_handler_inv s" "signals_step who s = Some t"
  then show ?thesis using SgChild by (cases "sg_child s") (auto simp: signals_child_def sg_handler_inv_def split: if_splits)
next
  case SgParent
  assume "sg_handler_inv s" "signals_step who s = Some t"
  then show ?thesis using SgParent signals_parent_frame [of s t] by (simp add: sg_handler_inv_def)
next
  case SgSignalFails
  assume "sg_handler_inv s" "signals_step who s = Some t"
  then show ?thesis using SgSignalFails by (auto simp: sg_handler_inv_def signal_fails_def split: if_splits)
next
  case SgKillFails
  assume "sg_handler_inv s" "signals_step who s = Some t"
  then show ?thesis using SgKillFails by (auto simp: sg_handler_inv_def kill_fails_def split: sg_parent.splits)
qed

lemma sg_sent_parent:
  assumes "sg_sent_inv s" "signals_parent s = Some t"
  shows "sg_sent_inv t"
proof (cases "sg_parent s")
  case (SpKill sig)
  then show ?thesis using assms by (cases sig) (auto simp: signals_parent_def sg_sent_inv_def sg_alive_def)
next
  case (SpSent sig)
  then show ?thesis using assms by (cases sig) (auto simp: signals_parent_def sg_sent_inv_def sg_alive_def)
qed (use assms in \<open>auto simp: signals_parent_def sg_sent_inv_def sg_alive_def split: if_splits\<close>)

lemma signals_child_frame:
  assumes "signals_child s = Some t"
  shows "sg_pending t = sg_pending s" "sg_flag t = sg_flag s" "sg_parent t = sg_parent s" "sg_alive s" "sg_alive t"
  using assms by (cases "sg_child s", auto simp: signals_child_def sg_alive_def split: if_splits)+

lemma sg_sent_step:
  assumes inv: "sg_sent_inv s" and st: "signals_step who s = Some t"
  shows "sg_sent_inv t"
proof (cases who)
  case (SgDeliver sig)
  then have "sg_deliver sig s = Some t" using st by simp
  then show ?thesis
  proof (cases rule: sg_deliver_cases)
    case handled
    then show ?thesis using inv by (auto simp: sg_sent_inv_def sg_alive_def)
  next
    case killed
    then show ?thesis using inv by (cases sig) (auto simp: sg_sent_inv_def sg_alive_def)
  qed
next
  case SgChild
  then have c: "signals_child s = Some t" using st by simp
  have "sg_child t \<noteq> ScKilled sig" for sig using signals_child_frame(5) [OF c] by (cases sig) (simp_all add: sg_alive_def)
  then show ?thesis using inv signals_child_frame [OF c] by (simp add: sg_sent_inv_def)
next
  case SgParent
  then show ?thesis using inv st sg_sent_parent by simp
next
  case SgSignalFails
  then show ?thesis using inv st by (auto simp: sg_sent_inv_def signal_fails_def sg_alive_def split: if_splits)
next
  case SgKillFails
  then obtain sig where k: "sg_parent s = SpKill sig" "t = s\<lparr>sg_parent := SpFailed sig\<rparr>"
    using st by (auto simp: kill_fails_def split: sg_parent.splits)
  then show ?thesis using inv by (cases sig) (auto simp: sg_sent_inv_def sg_alive_def)
qed

fun sp_weight :: "sg_parent \<Rightarrow> nat" where
  "sp_weight (SpKill SIGUSR1) = 6" | "sp_weight (SpSent SIGUSR1) = 5" | "sp_weight (SpKill SIGTERM) = 4"
| "sp_weight (SpSent SIGTERM) = 3" | "sp_weight SpWait = 2" | "sp_weight SpExit = 1" | "sp_weight SpExited = 0"
| "sp_weight (SpFailed sig) = 0"

fun parent_over :: "sg_parent \<Rightarrow> bool" where
  "parent_over SpExited = True" | "parent_over (SpFailed sig) = True" | "parent_over _ = False"

definition signals_rank :: "signals \<Rightarrow> nat" where
  "signals_rank s = sp_weight (sg_parent s) + (if sg_alive s then 1 else 0)"

lemma signals_progress:
  assumes inv: "sg_sent_inv s" and nf: "\<not> parent_over (sg_parent s)"
  shows "\<exists>who t. signals_step who s = Some t \<and> signals_rank t < signals_rank s"
proof (cases "sg_parent s = SpWait \<and> sg_alive s")
  case True
  then have "sg_pending s SIGTERM" using inv by (simp add: sg_sent_inv_def)
  then have "\<exists>t. signals_step (SgDeliver SIGTERM) s = Some t \<and> signals_rank t < signals_rank s"
    using True by (simp add: sg_deliver_def signals_rank_def Let_def) (simp add: sg_alive_def)
  then show ?thesis by blast
next
  case False
  have "\<exists>t. signals_parent s = Some t \<and> signals_rank t < signals_rank s"
  proof (cases "sg_parent s")
    case (SpKill sig)
    then show ?thesis by (cases sig) (simp_all add: signals_parent_def signals_rank_def sg_alive_def)
  next
    case (SpSent sig)
    then show ?thesis by (cases sig) (simp_all add: signals_parent_def signals_rank_def sg_alive_def)
  next
    case SpWait
    then show ?thesis using False by (simp add: signals_parent_def signals_rank_def) (simp add: sg_alive_def)
  next
    case SpExit
    then show ?thesis by (simp add: signals_parent_def signals_rank_def sg_alive_def)
  qed (use nf in simp_all)
  then have "\<exists>t. signals_step SgParent s = Some t \<and> signals_rank t < signals_rank s" by simp
  then show ?thesis by blast
qed

interpretation signals: machine_live signals_step signals_init signals_inv signals_rank "\<lambda>s. parent_over (sg_parent s)"
proof unfold_locales
  show "signals_inv signals_init" by (simp add: signals_inv_def sg_handler_inv_def sg_sent_inv_def signals_init_def sg_alive_def)
  show "signals_inv t" if "signals_inv s" "signals_step who s = Some t" for s who t
    using that sg_handler_step sg_sent_step unfolding signals_inv_def by blast
  show "\<exists>who t. signals_step who s = Some t \<and> signals_rank t < signals_rank s"
    if "signals_inv s" "\<not> parent_over (sg_parent s)" for s
    using that signals_progress unfolding signals_inv_def by blast
qed

text \<open>If \<^verbatim>\<open>SIGTERM\<close> could not be sent, nothing ends a child that has its handler.\<close>

definition sg_orphaned :: "signals \<Rightarrow> bool" where
  "sg_orphaned s \<longleftrightarrow>
     (\<exists>sig. sg_parent s = SpFailed sig) \<and> \<not> sg_pending s SIGTERM \<and> sg_handler s \<and>
     (sg_child s = ScTest \<or> sg_child s = ScWaitUsr \<or> sg_child s = ScWaitTerm)"

lemma not_SIGUSR1: "sig \<noteq> SIGUSR1 \<longleftrightarrow> sig = SIGTERM"
  by (cases sig) simp_all

lemma sg_orphaned_step: "sg_orphaned s \<Longrightarrow> signals_step who s = Some t \<Longrightarrow> sg_orphaned t"
  by (cases who) (auto simp: sg_orphaned_def signals_parent_def signals_child_def sg_deliver_def SigUsrHandler_def Let_def signal_fails_def
      kill_fails_def not_SIGUSR1 split: if_splits)

lemma sg_orphaned_reach: "reach signals_step s t \<Longrightarrow> sg_orphaned s \<Longrightarrow> sg_orphaned t"
  by (induction rule: reach.induct) (auto intro: sg_orphaned_step)

text \<open>C31: \<^verbatim>\<open>signals.cpp\<close>: from every reachable state the parent can finish, and if no \<^verbatim>\<open>kill\<close> fails the child is dead when it
  has. A child that has installed its handler is killed by \<^verbatim>\<open>SIGTERM\<close> only, and waits for it only after
  \<^verbatim>\<open>SIGUSR1\<close> was sent. But the parent does not wait for the handler to be installed: on some schedule
  \<^verbatim>\<open>SIGUSR1\<close> kills the child before its first line. And if a \<^verbatim>\<open>kill\<close> fails the parent exits, and a child with its handler
  runs on for ever.\<close>

theorem signals_outcome:
  "(\<forall>s. reach signals_step signals_init s \<longrightarrow>
      (\<exists>t. reach signals_step s t \<and> parent_over (sg_parent t)) \<and>
      (sg_parent s = SpExited \<longrightarrow> \<not> sg_alive s) \<and>
      (sg_handler s \<longrightarrow> sg_child s \<noteq> ScKilled SIGUSR1) \<and>
      (sg_child s = ScWaitTerm \<longrightarrow> usr_sent (sg_parent s)) \<and>
      (\<forall>sig t. sg_parent s = SpFailed sig \<and> sg_handler s \<and> reach signals_step s t \<longrightarrow> sg_alive t)) \<and>
   (\<exists>s. reach signals_step signals_init s \<and> sg_child s = ScKilled SIGUSR1 \<and> sg_parent s = SpExited \<and>
      sg_out s = [Sent SIGUSR1, Sent SIGTERM, ParentExited])"
proof (intro conjI allI impI)
  fix s assume r: "reach signals_step signals_init s"
  have inv: "sg_handler_inv s" "sg_sent_inv s" using signals.reach_inv [OF r] by (simp_all add: signals_inv_def)
  show "\<exists>t. reach signals_step s t \<and> parent_over (sg_parent t)" using signals.final_reachable [OF r] .
  show "\<not> sg_alive s" if "sg_parent s = SpExited" using inv(2) that by (simp add: sg_sent_inv_def)
  show "sg_child s \<noteq> ScKilled SIGUSR1" if "sg_handler s" using inv(1) that by (auto simp: sg_handler_inv_def)
  show "usr_sent (sg_parent s)" if "sg_child s = ScWaitTerm"
    using inv that by (simp add: sg_handler_inv_def sg_sent_inv_def)
  show "sg_alive t" if f: "sg_parent s = SpFailed sig \<and> sg_handler s \<and> reach signals_step s t" for sig t
  proof -
    have ns: "\<not> sg_pending s SIGTERM \<and> sg_child s \<noteq> ScKilled SIGTERM" using inv(2) f by (simp add: sg_sent_inv_def)
    have "sg_child s = ScTest \<or> sg_child s = ScWaitUsr \<or> sg_child s = ScWaitTerm"
    proof (cases "sg_child s")
      case (ScKilled sig')
      then show ?thesis using inv(1) f ns by (cases sig') (auto simp: sg_handler_inv_def)
    qed (use inv(1) f in \<open>auto simp: sg_handler_inv_def\<close>)
    then have "sg_orphaned s" using f ns by (simp add: sg_orphaned_def)
    then have "sg_orphaned t" using sg_orphaned_reach f by blast
    then show ?thesis by (auto simp: sg_orphaned_def sg_alive_def)
  qed
next
  have "\<exists>s. run signals_step [SgParent, SgDeliver SIGUSR1, SgParent, SgParent, SgParent, SgParent, SgParent] signals_init = Some s \<and>
      sg_child s = ScKilled SIGUSR1 \<and> sg_parent s = SpExited \<and> sg_out s = [Sent SIGUSR1, Sent SIGTERM, ParentExited]"
    by (simp add: signals_init_def signals_parent_def sg_deliver_def sg_alive_def Let_def)
  then show "\<exists>s. reach signals_step signals_init s \<and> sg_child s = ScKilled SIGUSR1 \<and> sg_parent s = SpExited \<and>
      sg_out s = [Sent SIGUSR1, Sent SIGTERM, ParentExited]"
    using run_imp_reach by metis
qed

theorem signals_outcome_witness:
  "\<exists>t. reach signals_step signals_init t \<and> sg_parent t = SpExited \<and> \<not> sg_alive t \<and> sg_out t = [Sent SIGUSR1, Sent SIGTERM, ParentExited]"
  using signals_outcome by blast

section \<open>\<open>sema.cpp\<close>\<close>

datatype sm_child = SmcPrint | SmcWait | SmcGot | SmcClose | SmcExited

datatype sm_parent = SmpPrint | SmpPost | SmpWait | SmpUnlink | SmpExited

datatype sm_line = ChildWaiting | ChildGot | ParentSignaling

record sema =
  sm_value :: nat
  sm_exists :: bool
  sm_child :: sm_child
  sm_parent :: sm_parent
  sm_failed :: "process \<Rightarrow> bool"
  sm_out :: "sm_line list"

definition sema_init :: "nat \<Rightarrow> sema" where
  "sema_init v = \<lparr>sm_value = v, sm_exists = True, sm_child = SmcPrint, sm_parent = SmpPrint, sm_failed = (\<lambda>_. False), sm_out = []\<rparr>"

fun smp_calls :: "sm_parent \<Rightarrow> bool" where
  "smp_calls SmpPost = True" | "smp_calls SmpWait = True" | "smp_calls SmpUnlink = True" | "smp_calls _ = False"

fun smc_calls :: "sm_child \<Rightarrow> bool" where
  "smc_calls SmcWait = True" | "smc_calls SmcClose = True" | "smc_calls _ = False"

definition sema_parent :: "sema \<Rightarrow> sema option" where
  "sema_parent s =
     (case sm_parent s of
        SmpPrint \<Rightarrow> Some (s\<lparr>sm_out := sm_out s @ [ParentSignaling], sm_parent := SmpPost\<rparr>)
      | SmpPost \<Rightarrow> Some (s\<lparr>sm_value := sm_value s + 1, sm_parent := SmpWait\<rparr>)
      | SmpWait \<Rightarrow> if sm_child s = SmcExited \<or> sm_failed s Child then Some (s\<lparr>sm_parent := SmpUnlink\<rparr>) else None
      | SmpUnlink \<Rightarrow> Some (s\<lparr>sm_exists := False, sm_parent := SmpExited\<rparr>)
      | SmpExited \<Rightarrow> None)"

definition sema_child :: "sema \<Rightarrow> sema option" where
  "sema_child s =
     (case sm_child s of
        SmcPrint \<Rightarrow> Some (s\<lparr>sm_out := sm_out s @ [ChildWaiting], sm_child := SmcWait\<rparr>)
      | SmcWait \<Rightarrow> if 0 < sm_value s then Some (s\<lparr>sm_value := sm_value s - 1, sm_child := SmcGot\<rparr>) else None
      | SmcGot \<Rightarrow> Some (s\<lparr>sm_out := sm_out s @ [ChildGot], sm_child := SmcClose\<rparr>)
      | SmcClose \<Rightarrow> Some (s\<lparr>sm_child := SmcExited\<rparr>)
      | SmcExited \<Rightarrow> None)"

definition sema_step :: "(process \<times> outcome, sema) machine" where
  "sema_step l s =
     (let (p, r) = l in
      if sm_failed s p then None
      else if r = Fails
      then (if (case p of Parent \<Rightarrow> smp_calls (sm_parent s) | Child \<Rightarrow> smc_calls (sm_child s))
            then Some (s\<lparr>sm_failed := (sm_failed s)(p := True)\<rparr>) else None)
      else (case p of Parent \<Rightarrow> sema_parent s | Child \<Rightarrow> sema_child s))"

definition sema_main :: "bool \<Rightarrow> string \<Rightarrow> int \<Rightarrow> nat option \<Rightarrow> failure + sema \<Rightarrow> bool" where
  "sema_main opened strerror pid existing r =
     (case in_order [check_pointer ''Opening semaphore failed'' strerror opened, CHECK_ERROR pid] of
        Inl f \<Rightarrow> r = Inl f
      | Inr _ \<Rightarrow> (\<exists>s. r = Inr s \<and> reach sema_step (sema_init (sem_open existing)) s \<and> halted sema_step s))"

definition sm_posted :: "sema \<Rightarrow> bool" where
  "sm_posted s \<longleftrightarrow> sm_parent s \<noteq> SmpPrint \<and> sm_parent s \<noteq> SmpPost"

definition sm_taken :: "sema \<Rightarrow> bool" where
  "sm_taken s \<longleftrightarrow> sm_child s \<noteq> SmcPrint \<and> sm_child s \<noteq> SmcWait"

definition sm_count_inv :: "nat \<Rightarrow> sema \<Rightarrow> bool" where
  "sm_count_inv v s \<longleftrightarrow>
     sm_value s + (if sm_taken s then 1 else 0) = v + (if sm_posted s then 1 else 0) \<and>
     (sm_parent s = SmpUnlink \<or> sm_parent s = SmpExited \<longrightarrow> sm_child s = SmcExited \<or> sm_failed s Child) \<and>
     (sm_exists s \<longleftrightarrow> sm_parent s \<noteq> SmpExited)"

text \<open>For a new semaphore: the lines before the signal has been taken, in one of two orders, and then the last one.\<close>

definition sm_out_inv :: "sema \<Rightarrow> bool" where
  "sm_out_inv s \<longleftrightarrow>
     (\<exists>ls. sm_out s = ls @ (if sm_child s = SmcClose \<or> sm_child s = SmcExited then [ChildGot] else []) \<and> distinct ls \<and>
       set ls = (if sm_child s = SmcPrint then {} else {ChildWaiting}) \<union> (if sm_parent s = SmpPrint then {} else {ParentSignaling}))"

fun smc_weight :: "sm_child \<Rightarrow> nat" where
  "smc_weight SmcPrint = 4" | "smc_weight SmcWait = 3" | "smc_weight SmcGot = 2" | "smc_weight SmcClose = 1" | "smc_weight SmcExited = 0"

fun smp_weight :: "sm_parent \<Rightarrow> nat" where
  "smp_weight SmpPrint = 4" | "smp_weight SmpPost = 3" | "smp_weight SmpWait = 2" | "smp_weight SmpUnlink = 1" | "smp_weight SmpExited = 0"

lemma sema_cases:
  assumes "sema_step l s = Some t"
  obtains (announce) "sm_parent s = SmpPrint" "t = s\<lparr>sm_out := sm_out s @ [ParentSignaling], sm_parent := SmpPost\<rparr>"
    | (post) "sm_parent s = SmpPost" "t = s\<lparr>sm_value := sm_value s + 1, sm_parent := SmpWait\<rparr>"
    | (joined) "sm_parent s = SmpWait" "sm_child s = SmcExited \<or> sm_failed s Child" "t = s\<lparr>sm_parent := SmpUnlink\<rparr>"
    | (unlink) "sm_parent s = SmpUnlink" "t = s\<lparr>sm_exists := False, sm_parent := SmpExited\<rparr>"
    | (waiting) "sm_child s = SmcPrint" "t = s\<lparr>sm_out := sm_out s @ [ChildWaiting], sm_child := SmcWait\<rparr>"
    | (take) "sm_child s = SmcWait" "0 < sm_value s" "\<not> sm_failed s Child" "t = s\<lparr>sm_value := sm_value s - 1, sm_child := SmcGot\<rparr>"
    | (got) "sm_child s = SmcGot" "t = s\<lparr>sm_out := sm_out s @ [ChildGot], sm_child := SmcClose\<rparr>"
    | (close) "sm_child s = SmcClose" "t = s\<lparr>sm_child := SmcExited\<rparr>"
    | (fails) p where "\<not> sm_failed s p" "t = s\<lparr>sm_failed := (sm_failed s)(p := True)\<rparr>"
proof (cases l)
  case (Pair p r)
  show ?thesis
  proof (cases r)
    case Fails
    then show ?thesis using assms Pair fails by (auto simp: sema_step_def split: if_splits)
  next
    case Succeeds
    show ?thesis
    proof (cases p)
      case Parent
      then show ?thesis using assms Pair Succeeds announce post joined unlink
        by (cases "sm_parent s") (simp_all add: sema_step_def sema_parent_def split: if_splits)
    next
      case Child
      then show ?thesis using assms Pair Succeeds waiting take got close
        by (cases "sm_child s") (simp_all add: sema_step_def sema_child_def split: if_splits)
    qed
  qed
qed

lemma sm_count_step:
  assumes inv: "sm_count_inv v s" and st: "sema_step who s = Some t"
  shows "sm_count_inv v t"
  using st by (cases rule: sema_cases)
    (use inv in \<open>simp_all add: sm_count_inv_def sm_posted_def sm_taken_def split: if_splits\<close>)

definition sema_ended :: "sema \<Rightarrow> bool" where
  "sema_ended s \<longleftrightarrow> sm_parent s = SmpExited \<and> sm_child s = SmcExited \<or> (\<exists>p. sm_failed s p)"

definition sema_rank :: "sema \<Rightarrow> nat" where
  "sema_rank s = smc_weight (sm_child s) + smp_weight (sm_parent s) + (if sm_failed s Parent then 0 else 1) +
     (if sm_failed s Child then 0 else 1)"

lemma sema_enabled:
  assumes "sm_count_inv v s" "\<not> sema_ended s"
  shows "\<exists>p t. sema_step (p, Succeeds) s = Some t"
proof -
  have "(\<exists>t. sema_parent s = Some t) \<or> (\<exists>t. sema_child s = Some t)"
    using assms by (cases "sm_parent s"; cases "sm_child s")
      (auto simp: sema_parent_def sema_child_def sema_ended_def sm_count_inv_def sm_posted_def sm_taken_def)
  then show ?thesis using assms(2) by (auto simp: ex_process sema_step_def sema_ended_def)
qed

lemma sema_keeps_failed: "sema_step (p, Succeeds) s = Some t \<Longrightarrow> sm_failed t = sm_failed s"
  by (cases p) (auto simp: sema_step_def sema_parent_def sema_child_def split: if_splits sm_parent.splits sm_child.splits)

interpretation sema: failing_calls sema_step "sema_init v" "sm_count_inv v" sema_rank sema_ended sm_failed for v
proof unfold_locales
  show "sm_count_inv v (sema_init v)" by (simp add: sm_count_inv_def sema_init_def sm_posted_def sm_taken_def)
  show "sm_count_inv v t" if "sm_count_inv v s" "sema_step l s = Some t" for s l t using that by (rule sm_count_step)
  show "\<exists>p t. sema_step (p, Succeeds) s = Some t" if "sm_count_inv v s" "\<not> sema_ended s" for s using that by (rule sema_enabled)
  show "\<exists>l t. sema_step l s = Some t" if "sm_count_inv v s" "\<not> sema_ended s" for s using sema_enabled [OF that] by blast
  show "sema_rank t < sema_rank s" if "sema_step l s = Some t" for s l t
    using that
  proof (cases rule: sema_cases)
    case (fails p)
    then show ?thesis by (cases p) (simp_all add: sema_rank_def)
  qed (simp_all add: sema_rank_def)
  show "\<not> sm_failed (sema_init v) p" for p by (simp add: sema_init_def)
qed (rule sema_keeps_failed)

lemma sm_outI:
  assumes "sm_out s = ls @ (if sm_child s = SmcClose \<or> sm_child s = SmcExited then [ChildGot] else [])" "distinct ls"
    "set ls = (if sm_child s = SmcPrint then {} else {ChildWaiting}) \<union> (if sm_parent s = SmpPrint then {} else {ParentSignaling})"
  shows "sm_out_inv s"
  unfolding sm_out_inv_def by (intro exI [of _ ls] conjI assms)

lemma sm_out_step:
  assumes c: "sm_count_inv 0 s" and inv: "sm_out_inv s" and st: "sema_step who s = Some t"
  shows "sm_out_inv t"
proof -
  obtain ls where ls: "sm_out s = ls @ (if sm_child s = SmcClose \<or> sm_child s = SmcExited then [ChildGot] else [])" "distinct ls"
    "set ls = (if sm_child s = SmcPrint then {} else {ChildWaiting}) \<union> (if sm_parent s = SmpPrint then {} else {ParentSignaling})"
    using inv unfolding sm_out_inv_def by blast
  have early: "sm_child s = SmcPrint \<or> sm_child s = SmcWait" if "sm_parent s = SmpPrint"
    using c that by (auto simp: sm_count_inv_def sm_taken_def sm_posted_def split: if_splits)
  show ?thesis using st
  proof (cases rule: sema_cases)
    case announce
    then show ?thesis using ls early by (intro sm_outI [of _ "ls @ [ParentSignaling]"]) auto
  next
    case waiting
    then show ?thesis using ls by (intro sm_outI [of _ "ls @ [ChildWaiting]"]) auto
  qed (rule sm_outI [of _ ls]; use ls in simp)+
qed

interpretation sema_new: machine_inv sema_step "sema_init 0" "\<lambda>s. sm_count_inv 0 s \<and> sm_out_inv s"
proof unfold_locales
  show "sm_count_inv 0 (sema_init 0) \<and> sm_out_inv (sema_init 0)"
    by (simp add: sm_count_inv_def sm_out_inv_def sema_init_def sm_posted_def sm_taken_def)
  show "sm_count_inv 0 t \<and> sm_out_inv t" if "sm_count_inv 0 s \<and> sm_out_inv s" "sema_step who s = Some t" for s who t
    using that sm_count_step sm_out_step by blast
qed

text \<open>C32: \<^verbatim>\<open>sema.cpp\<close>. Every schedule has at most ten steps. If the semaphore is new, the child gets the signal only after the parent
  has announced it, also when calls fail; and if none fails the program ends with both processes exited and the name
  removed. If a semaphore of that name is left from an earlier run with a positive
  value, \<^verbatim>\<open>O_CREAT\<close> opens it as it is, and the child may go on before the parent signals. If the parent cannot post, it exits and the
  child waits for ever.\<close>

theorem sema_signals:
  assumes "pid \<noteq> -1"
  shows "(\<forall>sched s. run sema_step sched (sema_init v) = Some s \<longrightarrow> length sched \<le> 10) \<and>
    (\<exists>s. sema_main True e pid None (Inr s) \<and> (\<forall>p. \<not> sm_failed s p)) \<and>
    (\<forall>r. sema_main True e pid None r \<longrightarrow>
      (\<exists>s. r = Inr s \<and> (ChildGot \<in> set (sm_out s) \<longrightarrow> last (sm_out s) = ChildGot \<and> ParentSignaling \<in> set (sm_out s)) \<and>
        ((\<forall>p. \<not> sm_failed s p) \<longrightarrow> sm_parent s = SmpExited \<and> sm_child s = SmcExited \<and> \<not> sm_exists s \<and>
          sm_out s \<in> {[ChildWaiting, ParentSignaling, ChildGot], [ParentSignaling, ChildWaiting, ChildGot]}))) \<and>
    (\<exists>s. sema_main True e pid (Some 1) (Inr s) \<and> sm_out s = [ChildWaiting, ChildGot, ParentSignaling]) \<and>
    (\<exists>s. sema_main True e pid None (Inr s) \<and> sm_failed s Parent \<and> sm_child s = SmcWait \<and> sm_exists s)"
proof (intro conjI allI impI)
  show "length sched \<le> 10" if "run sema_step sched (sema_init v) = Some s" for sched s
    using sema.run_length [OF that] by (simp add: sema_rank_def sema_init_def)
  show "\<exists>s. sema_main True e pid None (Inr s) \<and> (\<forall>p. \<not> sm_failed s p)"
    using sema.halts_ok [of 0] assms by (simp add: sema_main_def CHECK_ERROR_def check_pointer_def sem_open_def)
next
  fix r assume "sema_main True e pid None r"
  then obtain s where r: "r = Inr s" and re: "reach sema_step (sema_init 0) s" and st: "halted sema_step s"
    using assms by (auto simp: sema_main_def CHECK_ERROR_def check_pointer_def sem_open_def)
  have c: "sm_count_inv 0 s" and o: "sm_out_inv s" using sema_new.reach_inv [OF re] by auto
  then obtain ls where ls: "sm_out s = ls @ (if sm_child s = SmcClose \<or> sm_child s = SmcExited then [ChildGot] else [])" "distinct ls"
    "set ls = (if sm_child s = SmcPrint then {} else {ChildWaiting}) \<union> (if sm_parent s = SmpPrint then {} else {ParentSignaling})"
    unfolding sm_out_inv_def by blast
  have "sm_posted s" if "sm_taken s" using c that by (auto simp: sm_count_inv_def split: if_splits)
  then have "ChildGot \<in> set (sm_out s) \<longrightarrow> last (sm_out s) = ChildGot \<and> ParentSignaling \<in> set (sm_out s)"
    using ls by (auto simp: sm_taken_def sm_posted_def split: if_splits)
  moreover have "sm_parent s = SmpExited \<and> sm_child s = SmcExited \<and> \<not> sm_exists s \<and>
      sm_out s \<in> {[ChildWaiting, ParentSignaling, ChildGot], [ParentSignaling, ChildWaiting, ChildGot]}" if nf: "\<forall>p. \<not> sm_failed s p"
  proof -
    have f: "sm_parent s = SmpExited" "sm_child s = SmcExited" using sema.halted_final [OF re st] nf by (auto simp: sema_ended_def)
    then have s: "set ls = {ChildWaiting, ParentSignaling}" and e: "\<not> sm_exists s" using ls(3) c by (auto simp: sm_count_inv_def)
    have "length ls = 2" using distinct_card [OF ls(2)] s by simp
    then obtain a b where "ls = [a, b]" by (auto simp: numeral_2_eq_2 length_Suc_conv)
    then show ?thesis using ls(1,2) s f e by (cases a; cases b) auto
  qed
  ultimately show "\<exists>s. r = Inr s \<and> (ChildGot \<in> set (sm_out s) \<longrightarrow> last (sm_out s) = ChildGot \<and> ParentSignaling \<in> set (sm_out s)) \<and>
        ((\<forall>p. \<not> sm_failed s p) \<longrightarrow> sm_parent s = SmpExited \<and> sm_child s = SmcExited \<and> \<not> sm_exists s \<and>
          sm_out s \<in> {[ChildWaiting, ParentSignaling, ChildGot], [ParentSignaling, ChildWaiting, ChildGot]})"
    using r by blast
next
  let ?ws = "replicate 4 (Child, Succeeds) @ replicate 4 (Parent, Succeeds)"
  have "\<exists>s. run sema_step ?ws (sema_init 1) = Some s \<and> halted sema_step s \<and> sm_out s = [ChildWaiting, ChildGot, ParentSignaling]"
    by (simp add: eval_nat_numeral sema_step_def sema_parent_def sema_child_def sema_init_def halted_def)
  then show "\<exists>s. sema_main True e pid (Some 1) (Inr s) \<and> sm_out s = [ChildWaiting, ChildGot, ParentSignaling]"
    using run_imp_reach assms unfolding sema_main_def by (fastforce simp: CHECK_ERROR_def check_pointer_def sem_open_def)
next
  let ?ws = "[(Child, Succeeds), (Parent, Succeeds), (Parent, Fails)]"
  have "\<exists>s. run sema_step ?ws (sema_init 0) = Some s \<and> halted sema_step s \<and> sm_failed s Parent \<and> sm_child s = SmcWait \<and> sm_exists s"
    by (simp add: sema_step_def sema_parent_def sema_child_def sema_init_def halted_def)
  then show "\<exists>s. sema_main True e pid None (Inr s) \<and> sm_failed s Parent \<and> sm_child s = SmcWait \<and> sm_exists s"
    using run_imp_reach assms unfolding sema_main_def by (fastforce simp: CHECK_ERROR_def check_pointer_def sem_open_def)
qed

theorem sema_signals_witness: "\<exists>s. sema_main True [] 5 (Some 1) (Inr s) \<and> hd (tl (sm_out s)) = ChildGot"
proof -
  have "\<exists>s. sema_main True [] 5 (Some 1) (Inr s) \<and> sm_out s = [ChildWaiting, ChildGot, ParentSignaling]"
    using sema_signals [of 5 _ "[]"] by simp
  then show ?thesis by auto
qed

end
