(* ===== verification/Channel_Spec.thy ===== *)
theory Channel_Spec
  imports Prelude
begin

text \<open>
  \<^verbatim>\<open>tasks/synchronization_primitives\<close>: the exercise of writing a buffered and an unbuffered channel. The header files
  hold the exercise as it is handed out, channels whose operations do nothing; \<^verbatim>\<open>task.md\<close> says what the operations shall
  do; \<^verbatim>\<open>test.cpp\<close> and \<^verbatim>\<open>benchmark.cpp\<close> (theories \<open>Channel_Test\<close>, \<open>Block_Test\<close> and \<open>Channel_Bench\<close>) use a channel through its operations.

  This theory has the operations of a channel, the channels as handed out, and the contract that the two descriptions ask
  of a channel, as the locales \<open>channel\<close> and \<open>bounded_channel\<close>. The repository has no channel that keeps it, so the contract is a
  hypothesis of the properties of the clients. Two reference channels translate no code of the repository; they are
  instances that show that the contract can be met.
\<close>

section \<open>Operations\<close>

text \<open>The operations as a thread sees them. \<^verbatim>\<open>Send\<close> may wait, so a call and its return are two actions; a return is \<open>None\<close>
  while the call has to wait, otherwise it says whether the call ends normally (\<open>True\<close>) or with \<^verbatim>\<open>std::runtime_error\<close> (\<open>False\<close>).
  \<^verbatim>\<open>Recv\<close> is \<open>None\<close> while it has to wait; which of several waiting senders it serves is left open by the description, so
  it is given the number of a sender.\<close>

record 'c channel_ops =
  op_call :: "tid \<Rightarrow> int \<Rightarrow> 'c \<Rightarrow> 'c"
  op_return :: "tid \<Rightarrow> 'c \<Rightarrow> ('c \<times> bool) option"
  op_recv :: "tid \<Rightarrow> 'c \<Rightarrow> (int option \<times> 'c) option"
  op_close :: "'c \<Rightarrow> 'c"

section \<open>The channels as handed out\<close>

datatype stub_channel = StubChannel

definition BufferedChannel :: "int \<Rightarrow> stub_channel" where
  "BufferedChannel buff_size = StubChannel"

definition UnbufferedChannel :: stub_channel where
  "UnbufferedChannel = StubChannel"

definition Buffered_Send :: "int \<Rightarrow> stub_channel \<Rightarrow> stub_channel" where
  "Buffered_Send value c = c"

definition Buffered_Recv :: "stub_channel \<Rightarrow> int option \<times> stub_channel" where
  "Buffered_Recv c = (None, c)"

definition Buffered_Close :: "stub_channel \<Rightarrow> stub_channel" where
  "Buffered_Close c = c"

definition Unbuffered_Send :: "int \<Rightarrow> stub_channel \<Rightarrow> stub_channel" where
  "Unbuffered_Send value c = c"

definition Unbuffered_Recv :: "stub_channel \<Rightarrow> int option \<times> stub_channel" where
  "Unbuffered_Recv c = (None, c)"

definition Unbuffered_Close :: "stub_channel \<Rightarrow> stub_channel" where
  "Unbuffered_Close c = c"

definition buffered_stub :: "stub_channel channel_ops" where
  "buffered_stub =
     \<lparr>op_call = (\<lambda>i v c. Buffered_Send v c), op_return = (\<lambda>i c. Some (c, True)),
      op_recv = (\<lambda>k c. Some (Buffered_Recv c)), op_close = Buffered_Close\<rparr>"

definition unbuffered_stub :: "stub_channel channel_ops" where
  "unbuffered_stub =
     \<lparr>op_call = (\<lambda>i v c. Unbuffered_Send v c), op_return = (\<lambda>i c. Some (c, True)),
      op_recv = (\<lambda>k c. Some (Unbuffered_Recv c)), op_close = Unbuffered_Close\<rparr>"

lemmas stub_defs = Buffered_Send_def Buffered_Recv_def Buffered_Close_def Unbuffered_Send_def Unbuffered_Recv_def
  Unbuffered_Close_def

text \<open>A channel that accepts every value and never has one.\<close>

definition hollow :: "'c channel_ops \<Rightarrow> bool" where
  "hollow ops \<longleftrightarrow> (\<forall>i c. op_return ops i c = Some (c, True)) \<and> (\<forall>k c. op_recv ops k c = Some (None, c))"

lemma hollow_stubs: "hollow buffered_stub" "hollow unbuffered_stub"
  by (simp_all add: hollow_def buffered_stub_def unbuffered_stub_def stub_defs)

section \<open>Reference channels\<close>

text \<open>The descriptions as data structures. They translate no code; the contract below is interpreted on them.\<close>

text \<open>Where the call of a sender is: none, waiting with its value, or its value has been handed to a receiver.\<close>

datatype send_call = NoCall | InCall int | Delivered int

text \<open>The buffered channel of the description: a FIFO queue of at most \<open>bc_size\<close> elements. \<^verbatim>\<open>send\<close> waits while the queue is
  full and fails on a closed channel, \<^verbatim>\<open>recv\<close> waits while the queue is empty and the channel open, and empties the queue of a closed
  channel before it reports the end.\<close>

record buffered =
  bc_size :: nat
  bc_queue :: "int list"
  bc_closed :: bool
  bc_calls :: "tid \<Rightarrow> send_call"

definition buffered_new :: "int \<Rightarrow> buffered" where
  "buffered_new buff_size = \<lparr>bc_size = nat buff_size, bc_queue = [], bc_closed = False, bc_calls = (\<lambda>_. NoCall)\<rparr>"

definition buffered_call :: "tid \<Rightarrow> int \<Rightarrow> buffered \<Rightarrow> buffered" where
  "buffered_call i v c = c\<lparr>bc_calls := (bc_calls c)(i := InCall v)\<rparr>"

definition buffered_return :: "tid \<Rightarrow> buffered \<Rightarrow> (buffered \<times> bool) option" where
  "buffered_return i c =
     (case bc_calls c i of
        InCall v \<Rightarrow>
          if bc_closed c then Some (c\<lparr>bc_calls := (bc_calls c)(i := NoCall)\<rparr>, False)
          else if length (bc_queue c) < bc_size c
          then Some (c\<lparr>bc_calls := (bc_calls c)(i := NoCall), bc_queue := bc_queue c @ [v]\<rparr>, True)
          else None
      | _ \<Rightarrow> None)"

definition buffered_recv :: "tid \<Rightarrow> buffered \<Rightarrow> (int option \<times> buffered) option" where
  "buffered_recv k c =
     (case bc_queue c of
        v # q \<Rightarrow> Some (Some v, c\<lparr>bc_queue := q\<rparr>)
      | [] \<Rightarrow> if bc_closed c then Some (None, c) else None)"

definition buffered_close :: "buffered \<Rightarrow> buffered" where
  "buffered_close c = c\<lparr>bc_closed := True\<rparr>"

definition buffered_ops :: "buffered channel_ops" where
  "buffered_ops =
     \<lparr>op_call = buffered_call, op_return = buffered_return, op_recv = buffered_recv, op_close = buffered_close\<rparr>"

text \<open>The unbuffered channel: \<^verbatim>\<open>send\<close> waits until a receiver has got its value, \<^verbatim>\<open>recv\<close> waits for a \<^verbatim>\<open>send\<close> it can serve; closing
  the channel makes the waiting and all later \<^verbatim>\<open>send\<close> fail and the waiting and all later \<^verbatim>\<open>recv\<close> report the end.\<close>

record unbuffered =
  uc_calls :: "tid \<Rightarrow> send_call"
  uc_closed :: bool

definition unbuffered_new :: unbuffered where
  "unbuffered_new = \<lparr>uc_calls = (\<lambda>_. NoCall), uc_closed = False\<rparr>"

definition unbuffered_call :: "tid \<Rightarrow> int \<Rightarrow> unbuffered \<Rightarrow> unbuffered" where
  "unbuffered_call i v c = c\<lparr>uc_calls := (uc_calls c)(i := InCall v)\<rparr>"

definition unbuffered_return :: "tid \<Rightarrow> unbuffered \<Rightarrow> (unbuffered \<times> bool) option" where
  "unbuffered_return i c =
     (case uc_calls c i of
        NoCall \<Rightarrow> None
      | InCall v \<Rightarrow> if uc_closed c then Some (c\<lparr>uc_calls := (uc_calls c)(i := NoCall)\<rparr>, False) else None
      | Delivered v \<Rightarrow> Some (c\<lparr>uc_calls := (uc_calls c)(i := NoCall)\<rparr>, True))"

definition unbuffered_recv :: "tid \<Rightarrow> unbuffered \<Rightarrow> (int option \<times> unbuffered) option" where
  "unbuffered_recv k c =
     (if uc_closed c then Some (None, c)
      else (case uc_calls c k of
              InCall v \<Rightarrow> Some (Some v, c\<lparr>uc_calls := (uc_calls c)(k := Delivered v)\<rparr>)
            | _ \<Rightarrow> None))"

definition unbuffered_close :: "unbuffered \<Rightarrow> unbuffered" where
  "unbuffered_close c = c\<lparr>uc_closed := True\<rparr>"

definition unbuffered_ops :: "unbuffered channel_ops" where
  "unbuffered_ops =
     \<lparr>op_call = unbuffered_call, op_return = unbuffered_return, op_recv = unbuffered_recv, op_close = unbuffered_close\<rparr>"

section \<open>The contract of a channel\<close>

text \<open>What a client sees of a channel: the calls of the senders, the values accepted and not yet received, whether it is
  closed. A value is accepted when \<^verbatim>\<open>Send\<close> returns, or handed over directly while the call is waiting.\<close>

locale channel =
  fixes ops :: "'c channel_ops"
    and new :: 'c
    and calls :: "'c \<Rightarrow> tid \<Rightarrow> send_call"
    and stored :: "'c \<Rightarrow> int list"
    and closed :: "'c \<Rightarrow> bool"
    and wf :: "'c \<Rightarrow> bool"
  assumes new: "wf new" "calls new = (\<lambda>_. NoCall)" "stored new = []" "\<not> closed new"
    and call: "wf c \<Longrightarrow> calls c i = NoCall \<Longrightarrow>
      wf (op_call ops i v c) \<and> calls (op_call ops i v c) = (calls c)(i := InCall v) \<and>
      stored (op_call ops i v c) = stored c \<and> closed (op_call ops i v c) = closed c"
    and return_ok: "wf c \<Longrightarrow> op_return ops i c = Some (c', True) \<Longrightarrow>
      wf c' \<and> calls c' = (calls c)(i := NoCall) \<and> closed c' = closed c \<and>
      (\<exists>v. calls c i = InCall v \<and> \<not> closed c \<and> stored c' = stored c @ [v] \<or> calls c i = Delivered v \<and> stored c' = stored c)"
    and return_throws: "wf c \<Longrightarrow> op_return ops i c = Some (c', False) \<Longrightarrow>
      wf c' \<and> calls c' = (calls c)(i := NoCall) \<and> closed c' = closed c \<and> stored c' = stored c \<and>
      closed c \<and> (\<exists>v. calls c i = InCall v)"
    and recv_value: "wf c \<Longrightarrow> op_recv ops k c = Some (Some v, c') \<Longrightarrow>
      wf c' \<and> closed c' = closed c \<and>
      (stored c = v # stored c' \<and> calls c' = calls c \<or>
       calls c k = InCall v \<and> \<not> closed c \<and> stored c = [] \<and> stored c' = [] \<and> calls c' = (calls c)(k := Delivered v))"
    and recv_end: "wf c \<Longrightarrow> op_recv ops k c = Some (None, c') \<Longrightarrow> c' = c \<and> closed c \<and> stored c = []"
    and close: "wf c \<Longrightarrow> wf (op_close ops c) \<and> calls (op_close ops c) = calls c \<and> stored (op_close ops c) = stored c \<and>
      closed (op_close ops c)"
    and return_ready: "wf c \<Longrightarrow> calls c i = Delivered v \<or> calls c i = InCall v \<and> closed c \<Longrightarrow> op_return ops i c \<noteq> None"
    and recv_ready: "wf c \<Longrightarrow> closed c \<or> stored c \<noteq> [] \<Longrightarrow> op_recv ops k c \<noteq> None"
    and no_deadlock: "wf c \<Longrightarrow> calls c i = InCall v \<Longrightarrow> op_return ops i c = None \<Longrightarrow> op_recv ops i c \<noteq> None"

text \<open>A channel that keeps at most \<open>cap\<close> accepted values.\<close>

locale bounded_channel = channel ops new calls stored closed wf
  for ops :: "'c channel_ops" and new :: 'c and calls :: "'c \<Rightarrow> tid \<Rightarrow> send_call"
    and stored :: "'c \<Rightarrow> int list" and closed :: "'c \<Rightarrow> bool" and wf :: "'c \<Rightarrow> bool" +
  fixes cap :: nat
  assumes stored_le: "wf c \<Longrightarrow> length (stored c) \<le> cap"

text \<open>The reference channels fulfil it.\<close>

definition buffered_wf :: "nat \<Rightarrow> buffered \<Rightarrow> bool" where
  "buffered_wf n c \<longleftrightarrow> bc_size c = Suc n \<and> length (bc_queue c) \<le> Suc n \<and> (\<forall>i v. bc_calls c i \<noteq> Delivered v)"

lemmas buffered_defs = buffered_ops_def buffered_new_def buffered_call_def buffered_return_def buffered_recv_def
  buffered_close_def buffered_wf_def

interpretation buffered: bounded_channel buffered_ops "buffered_new (1 + int n)" bc_calls bc_queue bc_closed "buffered_wf n" "Suc n"
  for n
  by unfold_locales (auto simp: buffered_defs split: send_call.splits if_splits list.splits)

lemmas unbuffered_defs = unbuffered_ops_def unbuffered_new_def unbuffered_call_def unbuffered_return_def unbuffered_recv_def
  unbuffered_close_def

interpretation unbuffered: bounded_channel unbuffered_ops unbuffered_new uc_calls "\<lambda>_. []" uc_closed "\<lambda>_. True" 0
  by unfold_locales (auto simp: unbuffered_defs split: send_call.splits if_splits)

end
