(* ===== verification/Channel_Bench.thy ===== *)
theory Channel_Bench
  imports Channel_Spec
begin

text \<open>
  \<^verbatim>\<open>benchmark.cpp\<close> of the two channel exercises: several threads send the numbers below \<^verbatim>\<open>kCount\<close> through a channel, several readers
  add up what they receive, and the sum is compared with the expected one. The channel is a parameter.

  The expected sum is right: the senders together send every number below \<^verbatim>\<open>kCount\<close> exactly once. With a channel that
  fulfils the contract of \<open>Channel_Spec\<close> every run ends with that sum; with the channels as handed out every round
  reports a wrong sum.
\<close>

section \<open>What the senders send\<close>

text \<open>Which of the two a benchmark uses.\<close>

datatype bench = BufferedBench | UnbufferedBench

fun kCount :: "bench \<Rightarrow> nat" where
  "kCount BufferedBench = 500000" | "kCount UnbufferedBench = 100000"

text \<open>The loop of a sender: \<^verbatim>\<open>for (int i = start; i < kCount; i += threads_count)\<close>. With no threads there is no loop; the
  first argument is positive.\<close>

function strided :: "nat \<Rightarrow> nat \<Rightarrow> nat \<Rightarrow> nat list" where
  "strided step i bound = (if i < bound \<and> 0 < step then i # strided step (i + step) bound else [])"
  by auto
termination
  by (relation "measure (\<lambda>(step, i, bound). bound - i)") auto

declare strided.simps [simp del]

definition sent_by :: "bench \<Rightarrow> nat \<Rightarrow> nat \<Rightarrow> nat list" where
  "sent_by b threads_count start = strided threads_count start (kCount b)"

definition ok_ans :: "bench \<Rightarrow> int" where
  "ok_ans b = int (kCount b) * (int (kCount b) - 1) div 2"

lemma set_strided:
  assumes "0 < step"
  shows "x \<in> set (strided step i bound) \<longleftrightarrow> i \<le> x \<and> x < bound \<and> step dvd (x - i)"
  using assms
proof (induction step i bound rule: strided.induct)
  case (1 step i bound)
  show ?case
  proof (cases "i < bound")
    case True
    have "x \<in> set (strided step i bound) \<longleftrightarrow> x = i \<or> x \<in> set (strided step (i + step) bound)"
      using True "1.prems" by (subst strided.simps) simp
    also have "\<dots> \<longleftrightarrow> x = i \<or> i + step \<le> x \<and> x < bound \<and> step dvd (x - (i + step))" using 1 True by simp
    also have "\<dots> \<longleftrightarrow> i \<le> x \<and> x < bound \<and> step dvd (x - i)"
    proof -
      have "step dvd (x - (i + step)) \<longleftrightarrow> step dvd (x - i)" if "i + step \<le> x"
        using dvd_minus_self [of step "x - i"] that by auto
      moreover have "i + step \<le> x" if "i \<le> x" "x \<noteq> i" "step dvd (x - i)"
        using dvd_imp_le [OF that(3)] that(1,2) by simp
      ultimately show ?thesis using True by fastforce
    qed
    finally show ?thesis .
  next
    case False
    then show ?thesis by (subst strided.simps) auto
  qed
qed

lemma distinct_strided: "0 < step \<Longrightarrow> distinct (strided step i bound)"
proof (induction step i bound rule: strided.induct)
  case (1 step i bound)
  then show ?case by (subst strided.simps) (simp add: set_strided)
qed

lemma count_concat_map: "count (mset (concat (map f xs))) x = (\<Sum>i\<leftarrow>xs. count (mset (f i)) x)"
  by (induction xs) auto

lemma strided_mod:
  assumes "i < m"
  shows "x \<in> set (strided m i bound) \<longleftrightarrow> x < bound \<and> x mod m = i"
proof -
  have "i \<le> x \<and> m dvd (x - i) \<longleftrightarrow> x mod m = i"
  proof
    assume "i \<le> x \<and> m dvd (x - i)"
    then have "x mod m = i mod m" using mod_eq_dvd_iff_nat [of i x m] by simp
    then show "x mod m = i" using assms by simp
  next
    assume "x mod m = i"
    then show "i \<le> x \<and> m dvd (x - i)" using dvd_minus_mod [of m x] mod_less_eq_dividend [of x m] by auto
  qed
  then show ?thesis using set_strided [of m x i bound] assms by auto
qed

text \<open>The senders share the numbers out without loss and without repetition.\<close>

lemma strided_partition:
  assumes "0 < m"
  shows "mset (concat (map (\<lambda>i. strided m i bound) [0..<m])) = mset [0..<bound]"
proof (rule multiset_eqI)
  fix x
  have one: "count (mset (strided m i bound)) x = (if x mod m = i then (if x < bound then 1 else 0) else 0)" if "i < m" for i
    using strided_mod [OF that, of x bound] distinct_strided [OF assms] by (simp add: distinct_count_atmost_1)
  have "count (mset (concat (map (\<lambda>i. strided m i bound) [0..<m]))) x = (\<Sum>i<m. count (mset (strided m i bound)) x)"
    by (simp only: count_concat_map interv_sum_list_conv_sum_set_nat atLeast0LessThan set_upt)
  also have "\<dots> = (\<Sum>i<m. if x mod m = i then (if x < bound then 1 else 0) else 0)"
    by (rule sum.cong) (use one in auto)
  also have "\<dots> = (if x < bound then 1 else 0)" using assms by simp
  also have "\<dots> = count (mset [0..<bound]) x"
    using distinct_count_atmost_1 [of "[0..<bound]"] by simp
  finally show "count (mset (concat (map (\<lambda>i. strided m i bound) [0..<m]))) x = count (mset [0..<bound]) x" .
qed

lemma sum_below: "int (\<Sum>i\<leftarrow>[0..<n]. i) = int n * (int n - 1) div 2"
proof -
  have "2 * int (\<Sum>i\<leftarrow>[0..<n]. i) = int n * (int n - 1)" by (induction n) (simp_all add: algebra_simps)
  then show ?thesis by simp
qed

text \<open>The expected sum of the benchmarks is right: for any positive number of sender threads, they send
  together every number below \<^verbatim>\<open>kCount\<close> exactly once, these add up to \<^verbatim>\<open>ok_ans\<close>, and \<^verbatim>\<open>ok_ans\<close> fits
  \<^verbatim>\<open>int64_t\<close>.\<close>

theorem bench_expected_sum:
  assumes "0 < m"
  shows "mset (concat (map (sent_by b m) [0..<m])) = mset [0..<kCount b] \<and>
    int (sum_list (concat (map (sent_by b m) [0..<m]))) = ok_ans b \<and> ok_ans b < 2 ^ 63"
proof -
  have p: "mset (concat (map (sent_by b m) [0..<m])) = mset [0..<kCount b]"
    using strided_partition [OF assms, of "kCount b"] by (simp add: sent_by_def [abs_def])
  then have "sum_list (concat (map (sent_by b m) [0..<m])) = sum_list [0..<kCount b]" by (metis sum_mset_sum_list)
  moreover have "int (sum_list [0..<kCount b]) = ok_ans b" using sum_below [of "kCount b"] by (simp add: ok_ans_def)
  moreover have "ok_ans b < 2 ^ 63" by (cases b) (simp_all add: ok_ans_def)
  ultimately show ?thesis using p by simp
qed

lemma sent_total:
  assumes "0 < m"
  shows "(\<Sum>i<m. int (sum_list (sent_by b m i))) = ok_ans b"
proof -
  have "int (sum_list (concat (map f [0..<m]))) = (\<Sum>i<m. int (sum_list (f i)))" for f :: "nat \<Rightarrow> nat list"
    by (induction m) simp_all
  then show ?thesis using bench_expected_sum [OF assms] by metis
qed

lemma sent_count:
  assumes "0 < m"
  shows "(\<Sum>i<m. length (sent_by b m i)) = kCount b"
proof -
  have "length (concat (map f [0..<m])) = (\<Sum>i<m. length (f i))" for f :: "nat \<Rightarrow> nat list"
    by (induction m) simp_all
  moreover have "length (concat (map (sent_by b m) [0..<m])) = kCount b"
    using bench_expected_sum [OF assms] by (metis diff_zero length_upt size_mset)
  ultimately show ?thesis by simp
qed

section \<open>\<open>CalcSum\<close> and \<open>Run\<close>\<close>

text \<open>A reader is before \<^verbatim>\<open>Recv\<close>, before \<^verbatim>\<open>sum += value.value()\<close>, or has left its loop.\<close>

datatype reader = RdRecv | RdAdd int | RdDone

text \<open>The numbers each sender has still to send and which senders are inside \<^verbatim>\<open>Send\<close>, whether the thread that runs the
  function \<^verbatim>\<open>Send\<close> has joined them and closed the channel, the readers and the atomic sum. An exception
  that leaves a thread function ends the program (\<open>cs_terminated\<close>).\<close>

record 'c calc =
  cs_chan :: 'c
  cs_left :: "tid \<Rightarrow> nat list"
  cs_sending :: "tid \<Rightarrow> bool"
  cs_closed :: bool
  cs_readers :: "tid \<Rightarrow> reader"
  cs_sum :: "64 word"
  cs_terminated :: bool

text \<open>\<open>CsRead j k\<close>: reader \<open>j\<close> moves; a \<^verbatim>\<open>Recv\<close> that serves a waiting sender serves sender \<open>k\<close>.\<close>

datatype calc_who = CsSend tid | CsClose | CsRead tid tid

definition calc_init :: "bench \<Rightarrow> 'c \<Rightarrow> nat \<Rightarrow> 'c calc" where
  "calc_init b new m =
     \<lparr>cs_chan = new, cs_left = sent_by b m, cs_sending = (\<lambda>_. False), cs_closed = False, cs_readers = (\<lambda>_. RdRecv),
      cs_sum = 0, cs_terminated = False\<rparr>"

definition calc_send :: "'c channel_ops \<Rightarrow> tid \<Rightarrow> 'c calc \<Rightarrow> 'c calc option" where
  "calc_send ops i s =
     (if cs_sending s i
      then (case op_return ops i (cs_chan s) of
              None \<Rightarrow> None
            | Some (c, True) \<Rightarrow> Some (s\<lparr>cs_chan := c, cs_sending := (cs_sending s)(i := False)\<rparr>)
            | Some (c, False) \<Rightarrow> Some (s\<lparr>cs_chan := c, cs_terminated := True\<rparr>))
      else (case cs_left s i of
              [] \<Rightarrow> None
            | v # vs \<Rightarrow>
                Some (s\<lparr>cs_chan := op_call ops i (int v) (cs_chan s), cs_left := (cs_left s)(i := vs),
                  cs_sending := (cs_sending s)(i := True)\<rparr>)))"

definition calc_close :: "'c channel_ops \<Rightarrow> nat \<Rightarrow> 'c calc \<Rightarrow> 'c calc option" where
  "calc_close ops m s =
     (if \<not> cs_closed s \<and> list_all (\<lambda>i. cs_left s i = [] \<and> \<not> cs_sending s i) [0..<m]
      then Some (s\<lparr>cs_chan := op_close ops (cs_chan s), cs_closed := True\<rparr>) else None)"

definition calc_read :: "'c channel_ops \<Rightarrow> tid \<Rightarrow> tid \<Rightarrow> 'c calc \<Rightarrow> 'c calc option" where
  "calc_read ops j k s =
     (case cs_readers s j of
        RdRecv \<Rightarrow>
          (case op_recv ops k (cs_chan s) of
             None \<Rightarrow> None
           | Some (None, c) \<Rightarrow> Some (s\<lparr>cs_chan := c, cs_readers := (cs_readers s)(j := RdDone)\<rparr>)
           | Some (Some v, c) \<Rightarrow> Some (s\<lparr>cs_chan := c, cs_readers := (cs_readers s)(j := RdAdd v)\<rparr>))
      | RdAdd v \<Rightarrow> Some (s\<lparr>cs_sum := cs_sum s + word_of_int v, cs_readers := (cs_readers s)(j := RdRecv)\<rparr>)
      | RdDone \<Rightarrow> None)"

definition calc_step :: "'c channel_ops \<Rightarrow> nat \<Rightarrow> nat \<Rightarrow> (calc_who, 'c calc) machine" where
  "calc_step ops m r who s =
     (if cs_terminated s then None
      else (case who of
              CsSend i \<Rightarrow> if i < m then calc_send ops i s else None
            | CsClose \<Rightarrow> calc_close ops m s
            | CsRead j k \<Rightarrow> if j < r then calc_read ops j k s else None))"

text \<open>\<^verbatim>\<open>CalcSum\<close> returns when it has joined the readers and the thread that closes the channel.\<close>

definition calc_returned :: "nat \<Rightarrow> 'c calc \<Rightarrow> bool" where
  "calc_returned r s \<longleftrightarrow> \<not> cs_terminated s \<and> cs_closed s \<and> list_all (\<lambda>j. cs_readers s j = RdDone) [0..<r]"

definition CalcSum :: "'c channel_ops \<Rightarrow> 'c \<Rightarrow> bench \<Rightarrow> nat \<Rightarrow> nat \<Rightarrow> int \<Rightarrow> bool" where
  "CalcSum ops new b m r result \<longleftrightarrow>
     (\<exists>s. reach (calc_step ops m r) (calc_init b new m) s \<and> calc_returned r s \<and> result = sint (cs_sum s))"

text \<open>One round of \<^verbatim>\<open>Run\<close> passes, or throws \<^verbatim>\<open>std::logic_error\<close>, which ends \<^verbatim>\<open>Run\<close>. How many rounds \<^verbatim>\<open>KeepRunning\<close>
  asks for is up to the benchmark library.\<close>

definition bench_round :: "'c channel_ops \<Rightarrow> 'c \<Rightarrow> bench \<Rightarrow> nat \<Rightarrow> nat \<Rightarrow> string + unit \<Rightarrow> bool" where
  "bench_round ops new b m r outcome \<longleftrightarrow>
     (\<exists>result. CalcSum ops new b m r result \<and> outcome = (if ok_ans b \<noteq> result then Inl ''Wrong sum'' else Inr ()))"

inductive bench_Run :: "'c channel_ops \<Rightarrow> 'c \<Rightarrow> bench \<Rightarrow> nat \<Rightarrow> nat \<Rightarrow> nat \<Rightarrow> string + unit \<Rightarrow> bool"
  for ops :: "'c channel_ops" and new :: 'c and b :: bench and m r :: nat where
  run_end: "bench_Run ops new b m r 0 (Inr ())"
| run_throws: "bench_round ops new b m r (Inl e) \<Longrightarrow> bench_Run ops new b m r (Suc n) (Inl e)"
| run_next: "bench_round ops new b m r (Inr ()) \<Longrightarrow> bench_Run ops new b m r n outcome \<Longrightarrow> bench_Run ops new b m r (Suc n) outcome"

inductive_cases bench_Run_0E: "bench_Run ops new b m r 0 outcome"

inductive_cases bench_Run_SucE: "bench_Run ops new b m r (Suc n) outcome"

text \<open>The arguments the benchmarks are registered with, given \<^verbatim>\<open>std::thread::hardware_concurrency()\<close>: buffer size, senders and
  readers; senders and readers.\<close>

definition kHalf :: "int \<Rightarrow> int" where
  "kHalf kThreads = max 1 (kThreads div 2)"

definition kAnotherHalf :: "int \<Rightarrow> int" where
  "kAnotherHalf kThreads = max 1 (kThreads - kHalf kThreads)"

definition buffered_args :: "int \<Rightarrow> (int \<times> int \<times> int) list" where
  "buffered_args kThreads =
     [(2, 2, max 1 (kThreads - 2)), (10, kHalf kThreads, kAnotherHalf kThreads),
      (100000, kHalf kThreads, kAnotherHalf kThreads)]"

definition unbuffered_args :: "int \<Rightarrow> (int \<times> int) list" where
  "unbuffered_args kThreads =
     [(2, max 1 (kThreads - 2)), (kHalf kThreads, kAnotherHalf kThreads), (max 1 (kThreads - 2), 2)]"

lemmas calc_defs = calc_step_def calc_send_def calc_close_def calc_read_def

section \<open>The benchmark on a channel that fulfils its contract\<close>

text \<open>The part of the sum that is still inside the waiting calls and the readers.\<close>

fun call_value :: "send_call \<Rightarrow> int" where
  "call_value (InCall v) = v" | "call_value _ = 0"

fun reader_value :: "reader \<Rightarrow> int" where
  "reader_value (RdAdd v) = v" | "reader_value _ = 0"

text \<open>A number has four steps before it: the call, its return, its receipt and its addition.\<close>

fun call_weight :: "send_call \<Rightarrow> nat" where
  "call_weight NoCall = 0" | "call_weight (InCall v) = 3" | "call_weight (Delivered v) = 1"

fun reader_weight :: "reader \<Rightarrow> nat" where
  "reader_weight RdRecv = 1" | "reader_weight (RdAdd v) = 2" | "reader_weight RdDone = 0"

context channel
begin

definition calc_inv :: "bench \<Rightarrow> nat \<Rightarrow> nat \<Rightarrow> 'c calc \<Rightarrow> bool" where
  "calc_inv b m r s \<longleftrightarrow>
     wf (cs_chan s) \<and> \<not> cs_terminated s \<and> closed (cs_chan s) = cs_closed s \<and>
     (\<forall>i. calls (cs_chan s) i \<noteq> NoCall \<longleftrightarrow> cs_sending s i) \<and> (\<forall>i\<ge>m. \<not> cs_sending s i) \<and>
     (cs_closed s \<longrightarrow> (\<forall>i<m. cs_left s i = [] \<and> \<not> cs_sending s i)) \<and>
     ((\<exists>j<r. cs_readers s j = RdDone) \<longrightarrow> cs_closed s \<and> stored (cs_chan s) = []) \<and>
     (\<exists>acc. cs_sum s = word_of_int acc \<and>
        ok_ans b = (\<Sum>i<m. int (sum_list (cs_left s i)) + call_value (calls (cs_chan s) i)) +
          sum_list (stored (cs_chan s)) + (\<Sum>j<r. reader_value (cs_readers s j)) + acc)"

definition calc_rank :: "nat \<Rightarrow> nat \<Rightarrow> 'c calc \<Rightarrow> nat" where
  "calc_rank m r s =
     (\<Sum>i<m. 4 * length (cs_left s i) + call_weight (calls (cs_chan s) i)) + 2 * length (stored (cs_chan s)) +
     (\<Sum>j<r. reader_weight (cs_readers s j)) + (if cs_closed s then 0 else 1)"

lemma calc_inv_send:
  assumes inv: "calc_inv b m r s" and i: "i < m" and st: "calc_send ops i s = Some t"
  shows "calc_inv b m r t \<and> calc_rank m r t < calc_rank m r s"
proof (cases "cs_sending s i")
  case True
  let ?c = "cs_chan s"
  have w: "wf ?c" and cl: "\<not> closed ?c" and ncl: "\<not> cs_closed s"
    using inv i True by (auto simp: calc_inv_def)
  obtain c where c: "op_return ops i ?c = Some (c, True)" and t: "t = s\<lparr>cs_chan := c, cs_sending := (cs_sending s)(i := False)\<rparr>"
    using st True return_throws [OF w] cl by (auto simp: calc_send_def split: option.splits bool.splits prod.splits)
  note R = return_ok [OF w c]
  have F: "(\<Sum>u<m. int (sum_list (cs_left t u)) + call_value (calls c u)) + call_value (calls ?c i) =
      (\<Sum>u<m. int (sum_list (cs_left s u)) + call_value (calls ?c u)) + call_value (calls c i)"
    using sum_change [OF i, of "\<lambda>u. int (sum_list (cs_left t u)) + call_value (calls c u)"
        "\<lambda>u. int (sum_list (cs_left s u)) + call_value (calls ?c u)"] R t by auto
  have G: "(\<Sum>u<m. 4 * length (cs_left t u) + call_weight (calls c u)) + call_weight (calls ?c i) =
      (\<Sum>u<m. 4 * length (cs_left s u) + call_weight (calls ?c u)) + call_weight (calls c i)"
    using sum_change [OF i, of "\<lambda>u. 4 * length (cs_left t u) + call_weight (calls c u)"
        "\<lambda>u. 4 * length (cs_left s u) + call_weight (calls ?c u)"] R t by auto
  obtain acc where acc: "cs_sum s = word_of_int acc"
    "ok_ans b = (\<Sum>i<m. int (sum_list (cs_left s i)) + call_value (calls ?c i)) +
          sum_list (stored ?c) + (\<Sum>j<r. reader_value (cs_readers s j)) + acc"
    using inv by (auto simp: calc_inv_def)
  have "ok_ans b = (\<Sum>i<m. int (sum_list (cs_left t i)) + call_value (calls c i)) +
          sum_list (stored c) + (\<Sum>j<r. reader_value (cs_readers t j)) + acc"
    using acc(2) F R t by auto
  then have "calc_inv b m r t"
    using inv R t cl ncl acc(1) unfolding calc_inv_def by auto
  moreover have "calc_rank m r t < calc_rank m r s"
    using G R t unfolding calc_rank_def by auto
  ultimately show ?thesis ..
next
  case False
  let ?c = "cs_chan s"
  obtain v vs where v: "cs_left s i = v # vs"
    and t: "t = s\<lparr>cs_chan := op_call ops i (int v) ?c, cs_left := (cs_left s)(i := vs), cs_sending := (cs_sending s)(i := True)\<rparr>"
    using st False by (auto simp: calc_send_def split: list.splits)
  have w: "wf ?c" and nc: "calls ?c i = NoCall" and ncl: "\<not> cs_closed s"
    using inv i False v by (auto simp: calc_inv_def)
  note R = call [OF w nc, of "int v"]
  have F: "(\<Sum>u<m. int (sum_list (cs_left t u)) + call_value (calls (cs_chan t) u)) =
      (\<Sum>u<m. int (sum_list (cs_left s u)) + call_value (calls ?c u))"
    using sum_change [OF i, of "\<lambda>u. int (sum_list (cs_left t u)) + call_value (calls (cs_chan t) u)"
        "\<lambda>u. int (sum_list (cs_left s u)) + call_value (calls ?c u)"] R t v nc by auto
  have G: "(\<Sum>u<m. 4 * length (cs_left t u) + call_weight (calls (cs_chan t) u)) + 1 =
      (\<Sum>u<m. 4 * length (cs_left s u) + call_weight (calls ?c u))"
    using sum_change [OF i, of "\<lambda>u. 4 * length (cs_left t u) + call_weight (calls (cs_chan t) u)"
        "\<lambda>u. 4 * length (cs_left s u) + call_weight (calls ?c u)"] R t v nc by auto
  have "calc_inv b m r t" using inv R t F ncl i unfolding calc_inv_def by auto
  moreover have "calc_rank m r t < calc_rank m r s" using G R t unfolding calc_rank_def by auto
  ultimately show ?thesis ..
qed

lemma calc_inv_recv:
  assumes inv: "calc_inv b m r s" and j: "j < r" and rd: "cs_readers s j = RdRecv"
    and c: "op_recv ops k (cs_chan s) = Some (Some v, c)"
    and t: "t = s\<lparr>cs_chan := c, cs_readers := (cs_readers s)(j := RdAdd v)\<rparr>"
  shows "calc_inv b m r t \<and> calc_rank m r t < calc_rank m r s"
proof -
  let ?c = "cs_chan s"
  have w: "wf ?c" using inv by (simp add: calc_inv_def)
  have k: "k < m" if "calls ?c k = InCall v"
    using that inv by (metis calc_inv_def not_less send_call.distinct(1))
  note R = recv_value [OF w c]
  have H: "(\<Sum>u<r. reader_value (cs_readers t u)) = (\<Sum>u<r. reader_value (cs_readers s u)) + v"
    using sum_change [OF j, of "\<lambda>u. reader_value (cs_readers t u)" "\<lambda>u. reader_value (cs_readers s u)"] t rd by auto
  have W: "(\<Sum>u<r. reader_weight (cs_readers t u)) = (\<Sum>u<r. reader_weight (cs_readers s u)) + 1"
    using sum_change [OF j, of "\<lambda>u. reader_weight (cs_readers t u)" "\<lambda>u. reader_weight (cs_readers s u)"] t rd by auto
  obtain acc where acc: "cs_sum s = word_of_int acc"
    "ok_ans b = (\<Sum>i<m. int (sum_list (cs_left s i)) + call_value (calls ?c i)) +
          sum_list (stored ?c) + (\<Sum>j<r. reader_value (cs_readers s j)) + acc"
    using inv by (auto simp: calc_inv_def)
  from R consider (q) "stored ?c = v # stored c" "calls c = calls ?c"
    | (d) "calls ?c k = InCall v" "\<not> closed ?c" "stored ?c = []" "stored c = []" "calls c = (calls ?c)(k := Delivered v)"
    by blast
  then show ?thesis
  proof cases
    case q
    have "ok_ans b = (\<Sum>i<m. int (sum_list (cs_left t i)) + call_value (calls c i)) +
          sum_list (stored c) + (\<Sum>j<r. reader_value (cs_readers t j)) + acc"
      using acc(2) H q t by simp
    then have "calc_inv b m r t" using inv R t q acc(1) j unfolding calc_inv_def by auto
    moreover have "calc_rank m r t < calc_rank m r s" using W t q unfolding calc_rank_def by simp
    ultimately show ?thesis ..
  next
    case d
    have F: "(\<Sum>u<m. int (sum_list (cs_left t u)) + call_value (calls c u)) + v =
        (\<Sum>u<m. int (sum_list (cs_left s u)) + call_value (calls ?c u))"
      using sum_change [OF k [OF d(1)], of "\<lambda>u. int (sum_list (cs_left t u)) + call_value (calls c u)"
          "\<lambda>u. int (sum_list (cs_left s u)) + call_value (calls ?c u)"] d t by auto
    have G: "(\<Sum>u<m. 4 * length (cs_left t u) + call_weight (calls c u)) + 2 =
        (\<Sum>u<m. 4 * length (cs_left s u) + call_weight (calls ?c u))"
      using sum_change [OF k [OF d(1)], of "\<lambda>u. 4 * length (cs_left t u) + call_weight (calls c u)"
          "\<lambda>u. 4 * length (cs_left s u) + call_weight (calls ?c u)"] d t by auto
    have "ok_ans b = (\<Sum>i<m. int (sum_list (cs_left t i)) + call_value (calls c i)) +
          sum_list (stored c) + (\<Sum>j<r. reader_value (cs_readers t j)) + acc"
      using acc(2) H F d t by simp
    moreover have "calls c u \<noteq> NoCall \<longleftrightarrow> cs_sending s u" for u
      using inv d(1,5) by (metis calc_inv_def fun_upd_other fun_upd_same send_call.distinct(1) send_call.distinct(3))
    ultimately have "calc_inv b m r t" using inv R t d acc(1) j unfolding calc_inv_def by auto
    moreover have "calc_rank m r t < calc_rank m r s" using W G t d unfolding calc_rank_def by simp
    ultimately show ?thesis ..
  qed
qed

lemma calc_inv_read:
  assumes inv: "calc_inv b m r s" and j: "j < r" and st: "calc_read ops j k s = Some t"
  shows "calc_inv b m r t \<and> calc_rank m r t < calc_rank m r s"
proof (cases "cs_readers s j")
  case (RdAdd v)
  then have t: "t = s\<lparr>cs_sum := cs_sum s + word_of_int v, cs_readers := (cs_readers s)(j := RdRecv)\<rparr>"
    using st by (simp add: calc_read_def)
  have H: "(\<Sum>u<r. reader_value (cs_readers t u)) + v = (\<Sum>u<r. reader_value (cs_readers s u))"
    using sum_change [OF j, of "\<lambda>u. reader_value (cs_readers t u)" "\<lambda>u. reader_value (cs_readers s u)"] t RdAdd by auto
  have W: "(\<Sum>u<r. reader_weight (cs_readers t u)) + 1 = (\<Sum>u<r. reader_weight (cs_readers s u))"
    using sum_change [OF j, of "\<lambda>u. reader_weight (cs_readers t u)" "\<lambda>u. reader_weight (cs_readers s u)"] t RdAdd by auto
  obtain acc where acc: "cs_sum s = word_of_int acc"
    "ok_ans b = (\<Sum>i<m. int (sum_list (cs_left s i)) + call_value (calls (cs_chan s) i)) +
          sum_list (stored (cs_chan s)) + (\<Sum>j<r. reader_value (cs_readers s j)) + acc"
    using inv by (auto simp: calc_inv_def)
  have "cs_sum t = word_of_int (acc + v) \<and>
    ok_ans b = (\<Sum>i<m. int (sum_list (cs_left t i)) + call_value (calls (cs_chan t) i)) +
          sum_list (stored (cs_chan t)) + (\<Sum>j<r. reader_value (cs_readers t j)) + (acc + v)"
    using acc H t by simp
  then have "calc_inv b m r t" using inv t j unfolding calc_inv_def by auto
  moreover have "calc_rank m r t < calc_rank m r s" using W t unfolding calc_rank_def by simp
  ultimately show ?thesis ..
next
  case RdRecv
  then obtain res c where c: "op_recv ops k (cs_chan s) = Some (res, c)"
    using st by (auto simp: calc_read_def split: option.splits)
  show ?thesis
  proof (cases res)
    case None
    have w: "wf (cs_chan s)" using inv by (simp add: calc_inv_def)
    have R: "c = cs_chan s" "closed (cs_chan s)" "stored (cs_chan s) = []" using recv_end [OF w] c None by auto
    have t: "t = s\<lparr>cs_readers := (cs_readers s)(j := RdDone)\<rparr>" using st RdRecv c None R(1) by (simp add: calc_read_def)
    have H: "(\<Sum>u<r. reader_value (cs_readers t u)) = (\<Sum>u<r. reader_value (cs_readers s u))"
      using sum_change [OF j, of "\<lambda>u. reader_value (cs_readers t u)" "\<lambda>u. reader_value (cs_readers s u)"] t RdRecv by auto
    have W: "(\<Sum>u<r. reader_weight (cs_readers t u)) + 1 = (\<Sum>u<r. reader_weight (cs_readers s u))"
      using sum_change [OF j, of "\<lambda>u. reader_weight (cs_readers t u)" "\<lambda>u. reader_weight (cs_readers s u)"] t RdRecv by auto
    have "calc_inv b m r t" using inv t H R unfolding calc_inv_def by auto
    moreover have "calc_rank m r t < calc_rank m r s" using W t unfolding calc_rank_def by simp
    ultimately show ?thesis ..
  next
    case (Some v)
    show ?thesis by (rule calc_inv_recv [OF inv j RdRecv]) (use c Some st RdRecv in \<open>auto simp: calc_read_def\<close>)
  qed
qed (use st in \<open>simp add: calc_read_def\<close>)

lemma calc_inv_close:
  assumes inv: "calc_inv b m r s" and st: "calc_close ops m s = Some t"
  shows "calc_inv b m r t \<and> calc_rank m r t < calc_rank m r s"
proof -
  have w: "wf (cs_chan s)" using inv by (simp add: calc_inv_def)
  have t: "t = s\<lparr>cs_chan := op_close ops (cs_chan s), cs_closed := True\<rparr>" "\<not> cs_closed s"
    and e: "\<forall>i<m. cs_left s i = [] \<and> \<not> cs_sending s i"
    using st by (auto simp: calc_close_def list_all_iff split: if_splits)
  show ?thesis using inv t e close [OF w] unfolding calc_inv_def calc_rank_def by auto
qed

lemma calc_enabled:
  assumes inv: "calc_inv b m r s" and nf: "\<not> calc_returned r s" and r: "0 < r"
  shows "\<exists>l t. calc_step ops m r l s = Some t"
proof -
  let ?c = "cs_chan s"
  have w: "wf ?c" and nt: "\<not> cs_terminated s" and cl: "closed ?c = cs_closed s"
    and sn: "\<And>i. calls ?c i \<noteq> NoCall \<longleftrightarrow> cs_sending s i" using inv by (auto simp: calc_inv_def)
  have add: "\<exists>t. calc_read ops j k s = Some t" if "cs_readers s j = RdAdd v" for j k v
    using that by (simp add: calc_read_def)
  have recv: "\<exists>t. calc_read ops j k s = Some t" if "cs_readers s j = RdRecv" "op_recv ops k ?c \<noteq> None" for j k
    using that by (auto simp: calc_read_def split: option.splits)
  have ret: "\<exists>t. calc_send ops i s = Some t" if "cs_sending s i" "op_return ops i ?c \<noteq> None" for i
    using that by (auto simp: calc_send_def split: bool.splits)
  consider (in_send) i where "i < m" "cs_sending s i" | (left) i where "i < m" "\<not> cs_sending s i" "cs_left s i \<noteq> []"
    | (sent) "\<forall>i<m. \<not> cs_sending s i \<and> cs_left s i = []" by blast
  then have "(\<exists>i<m. \<exists>t. calc_send ops i s = Some t) \<or> (\<exists>t. calc_close ops m s = Some t) \<or> (\<exists>j<r. \<exists>k t. calc_read ops j k s = Some t)"
  proof cases
    case (in_send i)
    then have nd: "cs_readers s 0 \<noteq> RdDone" using inv r unfolding calc_inv_def by blast
    show ?thesis
    proof (cases "calls ?c i")
      case NoCall
      then show ?thesis using sn in_send by blast
    next
      case (InCall v)
      show ?thesis
      proof (cases "op_return ops i ?c")
        case None
        then have "op_recv ops i ?c \<noteq> None" using no_deadlock [OF w InCall] by blast
        then show ?thesis using nd r recv [of 0 i] add [of 0] by (cases "cs_readers s 0") blast+
      qed (use ret in_send in blast)
    next
      case (Delivered v)
      then show ?thesis using return_ready [OF w] ret in_send by blast
    qed
  next
    case (left i)
    then have "\<exists>t. calc_send ops i s = Some t" by (auto simp: calc_send_def neq_Nil_conv)
    then show ?thesis using left(1) by blast
  next
    case sent
    show ?thesis
    proof (cases "cs_closed s")
      case True
      then obtain j where j: "j < r" "cs_readers s j \<noteq> RdDone" using nf nt by (auto simp: calc_returned_def list_all_iff)
      have "op_recv ops 0 ?c \<noteq> None" using recv_ready [OF w] cl True by blast
      then show ?thesis using j recv [of j 0] add [of j] by (cases "cs_readers s j") blast+
    qed (use sent in \<open>simp add: calc_close_def list_all_iff\<close>)
  qed
  moreover have "calc_step ops m r (CsSend i) s = calc_send ops i s" if "i < m" for i
    using that nt by (simp add: calc_step_def)
  moreover have "calc_step ops m r CsClose s = calc_close ops m s" using nt by (simp add: calc_step_def)
  moreover have "calc_step ops m r (CsRead j k) s = calc_read ops j k s" if "j < r" for j k
    using that nt by (simp add: calc_step_def)
  ultimately show ?thesis by metis
qed

lemma calc_inv_init:
  assumes "0 < m"
  shows "calc_inv b m r (calc_init b new m)"
proof -
  have "(\<Sum>i<m. int (sum_list (sent_by b m i))) = ok_ans b" using sent_total [OF assms] .
  then show ?thesis using new by (simp add: calc_inv_def calc_init_def)
qed

lemma calc_term:
  assumes "0 < m" "0 < r"
  shows "machine_term (calc_step ops m r) (calc_init b new m) (calc_inv b m r) (calc_rank m r) (calc_returned r)"
proof unfold_locales
  show "calc_inv b m r (calc_init b new m)" using assms(1) by (rule calc_inv_init)
  have st: "calc_inv b m r t \<and> calc_rank m r t < calc_rank m r s" if "calc_inv b m r s" "calc_step ops m r l s = Some t" for s l t
    using that calc_inv_send [OF that(1)] calc_inv_close [OF that(1)] calc_inv_read [OF that(1)]
    by (simp add: calc_step_def split: if_splits calc_who.splits)
  show "calc_inv b m r t" if "calc_inv b m r s" "calc_step ops m r l s = Some t" for s l t
    using st [OF that] ..
  show "calc_rank m r t < calc_rank m r s" if "calc_inv b m r s" "calc_step ops m r l s = Some t" for s l t
    using st [OF that] ..
  show "\<exists>l t. calc_step ops m r l s = Some t" if "calc_inv b m r s" "\<not> calc_returned r s" for s
    using that assms(2) by (rule calc_enabled)
qed

lemma calc_returned_sum:
  assumes inv: "calc_inv b m r s" and ret: "calc_returned r s" and r: "0 < r"
  shows "sint (cs_sum s) = ok_ans b"
proof -
  have cl: "cs_closed s" and rd: "\<forall>j<r. cs_readers s j = RdDone" using ret by (auto simp: calc_returned_def list_all_iff)
  then have st: "stored (cs_chan s) = []" and sd: "\<forall>i<m. cs_left s i = [] \<and> calls (cs_chan s) i = NoCall"
    using inv r unfolding calc_inv_def by blast+
  obtain acc where acc: "cs_sum s = word_of_int acc"
    "ok_ans b = (\<Sum>i<m. int (sum_list (cs_left s i)) + call_value (calls (cs_chan s) i)) +
          sum_list (stored (cs_chan s)) + (\<Sum>j<r. reader_value (cs_readers s j)) + acc"
    using inv by (auto simp: calc_inv_def)
  have "acc = ok_ans b" using acc(2) st sd rd by simp
  moreover have "sint (word_of_int (ok_ans b) :: 64 word) = ok_ans b"
    by (cases b) (simp_all add: sint_sbintrunc' signed_take_bit_int_eq_self ok_ans_def)
  ultimately show ?thesis using acc(1) by simp
qed

lemma CalcSum_correct:
  assumes "0 < m" "0 < r"
  shows "CalcSum ops new b m r result \<longleftrightarrow> result = ok_ans b"
proof -
  note mt = calc_term [OF assms, of b]
  have one: "sint (cs_sum s) = ok_ans b" if "reach (calc_step ops m r) (calc_init b new m) s" "calc_returned r s" for s
    using machine_inv.reach_inv [OF machine_term.axioms(1) [OF mt] that(1)] that(2) assms(2) by (rule calc_returned_sum)
  moreover obtain s where "reach (calc_step ops m r) (calc_init b new m) s" "calc_returned r s"
    using machine_term.term_final_reachable [OF mt reach_init] by blast
  ultimately show ?thesis unfolding CalcSum_def by metis
qed

lemma bench_Run_passes:
  assumes "0 < m" "0 < r"
  shows "bench_Run ops new b m r n outcome \<longleftrightarrow> outcome = Inr ()"
proof -
  have rd: "bench_round ops new b m r res \<longleftrightarrow> res = Inr ()" for res
    using CalcSum_correct [OF assms] by (simp add: bench_round_def)
  show ?thesis
  proof (induction n)
    case 0
    show ?case by (auto elim: bench_Run_0E intro: run_end)
  next
    case (Suc n)
    then show ?case using rd by (auto elim!: bench_Run_SucE intro: run_next)
  qed
qed

lemma calc_run_length:
  assumes "0 < m" "0 < r" "run (calc_step ops m r) sched (calc_init b new m) = Some s"
  shows "length sched \<le> 4 * kCount b + r + 1"
proof -
  have "length sched \<le> calc_rank m r (calc_init b new m)"
    using machine_term.run_length [OF calc_term [OF assms(1,2)] assms(3)] .
  also have "\<dots> = (\<Sum>i<m. 4 * length (sent_by b m i)) + r + 1"
    using new by (simp add: calc_rank_def calc_init_def)
  also have "\<dots> = 4 * kCount b + r + 1"
    using sent_count [OF assms(1)] by (simp add: sum_distrib_left [symmetric])
  finally show ?thesis .
qed

end

section \<open>The benchmark on the channels as handed out\<close>

definition stub_calc_inv :: "nat \<Rightarrow> nat \<Rightarrow> 'c calc \<Rightarrow> bool" where
  "stub_calc_inv m r s \<longleftrightarrow>
     \<not> cs_terminated s \<and> cs_sum s = 0 \<and> (\<forall>j v. cs_readers s j \<noteq> RdAdd v)"

definition stub_calc_rank :: "nat \<Rightarrow> nat \<Rightarrow> 'c calc \<Rightarrow> nat" where
  "stub_calc_rank m r s =
     (\<Sum>i<m. 2 * length (cs_left s i) + (if cs_sending s i then 1 else 0)) + (\<Sum>j<r. reader_weight (cs_readers s j)) +
     (if cs_closed s then 0 else 1)"

lemma stub_calc_step:
  assumes h: "hollow ops" and st: "calc_step ops m r l s = Some t" and inv: "stub_calc_inv m r s"
  shows "stub_calc_inv m r t \<and> stub_calc_rank m r t < stub_calc_rank m r s"
proof (cases l)
  case (CsSend i)
  then have i: "i < m" and c: "calc_send ops i s = Some t" using st by (auto simp: calc_step_def split: if_splits)
  have "(\<Sum>u<m. 2 * length (cs_left t u) + (if cs_sending t u then 1 else 0)) <
      (\<Sum>u<m. 2 * length (cs_left s u) + (if cs_sending s u then 1 else 0))"
    using c h by (intro sum_weight_decrease [OF i]) (auto simp: calc_send_def hollow_def split: if_splits list.splits)
  then show ?thesis using c h inv
    by (auto simp: calc_send_def hollow_def stub_calc_inv_def stub_calc_rank_def split: if_splits list.splits)
next
  case CsClose
  then show ?thesis using st inv
    by (auto simp: calc_step_def calc_close_def stub_calc_inv_def stub_calc_rank_def split: if_splits)
next
  case (CsRead j k)
  then have j: "j < r" and c: "calc_read ops j k s = Some t" using st by (auto simp: calc_step_def split: if_splits)
  have t: "cs_readers s j = RdRecv" "t = s\<lparr>cs_readers := (cs_readers s)(j := RdDone)\<rparr>"
    using c h inv by (auto simp: calc_read_def hollow_def stub_calc_inv_def split: reader.splits)
  have "(\<Sum>u<r. reader_weight (cs_readers t u)) < (\<Sum>u<r. reader_weight (cs_readers s u))"
    using t by (intro sum_weight_decrease [OF j]) simp_all
  then show ?thesis using t inv by (auto simp: stub_calc_inv_def stub_calc_rank_def)
qed

lemma stub_calc_term:
  assumes h: "hollow ops"
  shows "machine_term (calc_step ops m r) (calc_init b new m) (stub_calc_inv m r) (stub_calc_rank m r) (calc_returned r)"
proof unfold_locales
  show "stub_calc_inv m r (calc_init b new m)" by (simp add: stub_calc_inv_def calc_init_def)
  show "stub_calc_inv m r t" if "stub_calc_inv m r s" "calc_step ops m r l s = Some t" for s l t
    using stub_calc_step [OF h that(2,1)] ..
  show "stub_calc_rank m r t < stub_calc_rank m r s" if "stub_calc_inv m r s" "calc_step ops m r l s = Some t" for s l t
    using stub_calc_step [OF h that(2,1)] ..
  show "\<exists>l t. calc_step ops m r l s = Some t" if inv: "stub_calc_inv m r s" and nf: "\<not> calc_returned r s" for s
  proof (cases "\<forall>i<m. cs_left s i = [] \<and> \<not> cs_sending s i")
    case False
    then obtain i where i: "i < m" "cs_left s i \<noteq> [] \<or> cs_sending s i" by blast
    then have "\<exists>t. calc_step ops m r (CsSend i) s = Some t" using h inv
      by (auto simp: calc_step_def calc_send_def hollow_def stub_calc_inv_def split: list.splits)
    then show ?thesis by blast
  next
    case True
    show ?thesis
    proof (cases "cs_closed s")
      case False
      then have "\<exists>t. calc_step ops m r CsClose s = Some t" using True inv
        by (simp add: calc_step_def calc_close_def list_all_iff stub_calc_inv_def)
      then show ?thesis by blast
    next
      case c: True
      then obtain j where "j < r" "cs_readers s j \<noteq> RdDone"
        using nf inv by (auto simp: calc_returned_def list_all_iff stub_calc_inv_def)
      then have "\<exists>t. calc_step ops m r (CsRead j 0) s = Some t" using h inv
        by (auto simp: calc_step_def calc_read_def hollow_def stub_calc_inv_def split: reader.splits)
      then show ?thesis by blast
    qed
  qed
qed

text \<open>With the channels as handed out \<^verbatim>\<open>CalcSum\<close> always returns, and returns 0, for any numbers of senders
  and readers; every run of either benchmark that has a round ends with the error "Wrong sum".\<close>

theorem stub_bench_fails:
  assumes "hollow ops"
  shows "(CalcSum ops new b m r result \<longleftrightarrow> result = 0) \<and>
    (bench_Run ops new b m r (Suc n) outcome \<longleftrightarrow> outcome = Inl ''Wrong sum'')"
proof -
  note mt = stub_calc_term [OF assms, of m r b new]
  obtain s where s: "reach (calc_step ops m r) (calc_init b new m) s" "calc_returned r s"
    using machine_term.term_final_reachable [OF mt reach_init] by blast
  have "cs_sum s = 0" if "reach (calc_step ops m r) (calc_init b new m) s" for s
    using machine_inv.reach_inv [OF machine_term.axioms(1) [OF mt] that] by (simp add: stub_calc_inv_def)
  then have cs: "CalcSum ops new b m r result \<longleftrightarrow> result = 0" for result
    using s unfolding CalcSum_def by (metis signed_0)
  have "ok_ans b \<noteq> 0" by (cases b) (simp_all add: ok_ans_def)
  then have "bench_round ops new b m r res \<longleftrightarrow> res = Inl ''Wrong sum''" for res
    using cs by (simp add: bench_round_def)
  then have "bench_Run ops new b m r (Suc n) outcome \<longleftrightarrow> outcome = Inl ''Wrong sum''"
    by (auto elim: bench_Run_SucE intro: run_throws)
  with cs show ?thesis by blast
qed

section \<open>Properties\<close>

lemma buffered_pos: "0 < q \<Longrightarrow> buffered_new q = buffered_new (1 + int (nat (q - 1)))"
  by simp

lemma args_positive:
  "(q, m, r) \<in> set (buffered_args kThreads) \<Longrightarrow> 0 < q \<and> 0 < m \<and> 0 < r"
  "(m, r) \<in> set (unbuffered_args kThreads) \<Longrightarrow> 0 < m \<and> 0 < r"
  by (auto simp: buffered_args_def unbuffered_args_def kHalf_def kAnotherHalf_def)

text \<open>All arguments the benchmarks are registered with, on any number of hardware threads.\<close>

theorem registered_benchmarks_pass:
  "(\<forall>(q, m, r) \<in> set (buffered_args kThreads).
      bench_Run buffered_ops (buffered_new q) BufferedBench (nat m) (nat r) n outcome \<longleftrightarrow> outcome = Inr ()) \<and>
   (\<forall>(m, r) \<in> set (unbuffered_args kThreads).
      bench_Run unbuffered_ops unbuffered_new UnbufferedBench (nat m) (nat r) n outcome \<longleftrightarrow> outcome = Inr ())"
proof (intro conjI ballI; clarify)
  fix q m r
  assume "(q, m, r) \<in> set (buffered_args kThreads)"
  then have p: "0 < q" "0 < nat m" "0 < nat r" using args_positive(1) by auto
  show "bench_Run buffered_ops (buffered_new q) BufferedBench (nat m) (nat r) n outcome \<longleftrightarrow> outcome = Inr ()"
    unfolding buffered_pos [OF p(1)] using p(2,3) by (rule buffered.bench_Run_passes)
next
  fix m r
  assume "(m, r) \<in> set (unbuffered_args kThreads)"
  then have p: "0 < nat m" "0 < nat r" using args_positive(2) by auto
  show "bench_Run unbuffered_ops unbuffered_new UnbufferedBench (nat m) (nat r) n outcome \<longleftrightarrow> outcome = Inr ()"
    using p by (rule unbuffered.bench_Run_passes)
qed

text \<open>C18: both benchmarks pass on every channel that keeps the contract of \<open>Channel_Spec\<close>, and fail on the channels as they are
  in the header files. For any channel of which the contract is assumed and any positive numbers of senders and readers, every
  schedule of \<^verbatim>\<open>CalcSum\<close> has at most \<open>4 kCount + r + 1\<close> steps, one that cannot go on has returned, and \<^verbatim>\<open>Run\<close> ends without an error after
  any number of rounds: no value is lost or counted twice, and nobody waits for ever. With the header files, \<^verbatim>\<open>CalcSum\<close> always
  returns 0 and \<^verbatim>\<open>Run\<close> reports a wrong sum in its first round.\<close>

theorem bench_passes:
  assumes "channel ops new calls stored closed ok" "0 < m" "0 < r"
  shows "(\<forall>sched s. run (calc_step ops m r) sched (calc_init b new m) = Some s \<longrightarrow>
      length sched \<le> 4 * kCount b + r + 1 \<and> (stuck (calc_step ops m r) s \<longrightarrow> calc_returned r s)) \<and>
    (bench_Run ops new b m r n outcome \<longleftrightarrow> outcome = Inr ()) \<and>
    (bench_Run buffered_stub (BufferedChannel q) b m r (Suc n) outcome \<longleftrightarrow> outcome = Inl ''Wrong sum'') \<and>
    (bench_Run unbuffered_stub UnbufferedChannel b m r (Suc n) outcome \<longleftrightarrow> outcome = Inl ''Wrong sum'')"
proof (intro conjI allI impI)
  fix sched s
  assume r: "run (calc_step ops m r) sched (calc_init b new m) = Some s"
  show "length sched \<le> 4 * kCount b + r + 1" using channel.calc_run_length [OF assms r] .
  show "calc_returned r s" if "stuck (calc_step ops m r) s"
    using machine_term.term_stuck_final [OF channel.calc_term [OF assms] run_imp_reach [OF r] that] .
next
  show "bench_Run ops new b m r n outcome \<longleftrightarrow> outcome = Inr ()" using assms by (rule channel.bench_Run_passes)
  show "bench_Run buffered_stub (BufferedChannel q) b m r (Suc n) outcome \<longleftrightarrow> outcome = Inl ''Wrong sum''"
    using stub_bench_fails [OF hollow_stubs(1), where new = "BufferedChannel q" and b = b and m = m and r = r] by (rule conjunct2)
  show "bench_Run unbuffered_stub UnbufferedChannel b m r (Suc n) outcome \<longleftrightarrow> outcome = Inl ''Wrong sum''"
    using stub_bench_fails [OF hollow_stubs(2), where new = UnbufferedChannel and b = b and m = m and r = r] by (rule conjunct2)
qed

text \<open>The reference channels keep the contract, so the property applies to them.\<close>

theorem bench_passes_witness:
  "bench_Run buffered_ops (buffered_new 2) BufferedBench 2 1 3 (Inr ()) \<and>
   \<not> bench_Run unbuffered_ops unbuffered_new UnbufferedBench 2 1 3 (Inl ''Wrong sum'') \<and>
   bench_Run unbuffered_stub UnbufferedChannel UnbufferedBench 2 1 4 (Inl ''Wrong sum'')"
  using bench_passes [OF buffered.channel_axioms [of 1], of 2 1 BufferedBench 3 "Inr ()"]
    bench_passes [OF unbuffered.channel_axioms, of 2 1 UnbufferedBench 3 "Inl ''Wrong sum''"] by simp

end
