(* ===== verification/Channel_Test.thy ===== *)
theory Channel_Test
  imports Channel_Spec Std_Atomic
begin

text \<open>
  \<^verbatim>\<open>test.cpp\<close> of the two channel exercises (\<^verbatim>\<open>tasks/synchronization_primitives\<close>): \<^verbatim>\<open>RunTest\<close> starts senders and receivers on a
  channel, closes it after some time, joins the threads and compares what was sent with what was received. The
  test of the buffered channel also counts free slots. The channel is a parameter. The other tests of the unbuffered channel are in
  theory \<open>Block_Test\<close>.

  On a channel that fulfils the contract of \<open>Channel_Spec\<close> no assertion fails on any schedule, and once the channel is closed the
  test ends. On the channels as handed out the buffered test ends with a failure, and the unbuffered test
  never ends, because its senders stop only at an exception.
\<close>

section \<open>\<open>RunTest\<close>\<close>

datatype test_kind = BufferedTest | UnbufferedTest

text \<open>Program points of a sender: before \<^verbatim>\<open>atomic_fetch_add\<close>, before \<^verbatim>\<open>Send\<close>, inside it, before \<^verbatim>\<open>atomic_fetch_sub\<close> and its
  assertion, before \<^verbatim>\<open>push_back\<close>; in the handler before \<^verbatim>\<open>ASSERT_TRUE(was_closed)\<close>; returned. Of a receiver: before
  \<^verbatim>\<open>++free_slots\<close>, before \<^verbatim>\<open>Recv\<close>, before \<^verbatim>\<open>push_back\<close>, before \<^verbatim>\<open>ASSERT_TRUE(was_closed)\<close>, returned. Of \<^verbatim>\<open>RunTest\<close>: before
  \<^verbatim>\<open>was_closed = true\<close>, before \<^verbatim>\<open>Close\<close>, joining, at the end.\<close>

datatype sender_pc = SnFetch | SnCall int | SnReturn int | SnSlots int | SnPush int | SnCheck | SnDone

datatype receiver_pc = RcSlots | RcRecv | RcPush int | RcCheck | RcDone

datatype test_pc = MnFlag | MnClose | MnJoin | MnEnd

record 'c rtest =
  rt_chan :: 'c
  rt_counter :: int32
  rt_free :: int32
  rt_closed :: bool
  rt_send :: "tid \<Rightarrow> int list"
  rt_recv :: "tid \<Rightarrow> int list"
  rt_sender :: "tid \<Rightarrow> sender_pc"
  rt_receiver :: "tid \<Rightarrow> receiver_pc"
  rt_main :: test_pc
  rt_failed :: bool

fun receiver_start :: "test_kind \<Rightarrow> receiver_pc" where
  "receiver_start BufferedTest = RcSlots" | "receiver_start UnbufferedTest = RcRecv"

definition rtest_init :: "test_kind \<Rightarrow> 'c \<Rightarrow> int \<Rightarrow> 'c rtest" where
  "rtest_init kind new buff_size =
     \<lparr>rt_chan = new, rt_counter = 0, rt_free = word_of_int buff_size, rt_closed = False, rt_send = (\<lambda>_. []),
      rt_recv = (\<lambda>_. []), rt_sender = (\<lambda>_. SnFetch), rt_receiver = (\<lambda>_. receiver_start kind), rt_main = MnFlag,
      rt_failed = False\<rparr>"

text \<open>A failed assertion is recorded and leaves the function it is in.\<close>

definition sender_step :: "'c channel_ops \<Rightarrow> test_kind \<Rightarrow> tid \<Rightarrow> 'c rtest \<Rightarrow> 'c rtest option" where
  "sender_step ops kind i s =
     (let go = (\<lambda>p s. Some (s\<lparr>rt_sender := (rt_sender s)(i := p)\<rparr>)) in
      case rt_sender s i of
        SnFetch \<Rightarrow>
          (let (value, counter) = fetch_add (rt_counter s) 1
           in go (SnCall (sint value)) (s\<lparr>rt_counter := counter\<rparr>))
      | SnCall v \<Rightarrow> go (SnReturn v) (s\<lparr>rt_chan := op_call ops i v (rt_chan s)\<rparr>)
      | SnReturn v \<Rightarrow>
          (case op_return ops i (rt_chan s) of
             None \<Rightarrow> None
           | Some (c, True) \<Rightarrow> go (if kind = BufferedTest then SnSlots v else SnPush v) (s\<lparr>rt_chan := c\<rparr>)
           | Some (c, False) \<Rightarrow> go SnCheck (s\<lparr>rt_chan := c\<rparr>))
      | SnSlots v \<Rightarrow>
          (let (slots, free) = fetch_sub (rt_free s) 1
           in if 0 \<le> sint slots then go (SnPush v) (s\<lparr>rt_free := free\<rparr>)
              else go SnDone (s\<lparr>rt_free := free, rt_failed := True\<rparr>))
      | SnPush v \<Rightarrow> go SnFetch (s\<lparr>rt_send := (rt_send s)(i := rt_send s i @ [v])\<rparr>)
      | SnCheck \<Rightarrow> go SnDone (s\<lparr>rt_failed := rt_failed s \<or> \<not> rt_closed s\<rparr>)
      | SnDone \<Rightarrow> None)"

definition receiver_step :: "'c channel_ops \<Rightarrow> test_kind \<Rightarrow> tid \<Rightarrow> tid \<Rightarrow> 'c rtest \<Rightarrow> 'c rtest option" where
  "receiver_step ops kind j k s =
     (let go = (\<lambda>p s. Some (s\<lparr>rt_receiver := (rt_receiver s)(j := p)\<rparr>)) in
      case rt_receiver s j of
        RcSlots \<Rightarrow> go RcRecv (s\<lparr>rt_free := snd (fetch_add (rt_free s) 1)\<rparr>)
      | RcRecv \<Rightarrow>
          (case op_recv ops k (rt_chan s) of
             None \<Rightarrow> None
           | Some (None, c) \<Rightarrow> go RcCheck (s\<lparr>rt_chan := c\<rparr>)
           | Some (Some v, c) \<Rightarrow> go (RcPush v) (s\<lparr>rt_chan := c\<rparr>))
      | RcPush v \<Rightarrow> go (receiver_start kind) (s\<lparr>rt_recv := (rt_recv s)(j := rt_recv s j @ [v])\<rparr>)
      | RcCheck \<Rightarrow> go RcDone (s\<lparr>rt_failed := rt_failed s \<or> \<not> rt_closed s\<rparr>)
      | RcDone \<Rightarrow> None)"

definition Unpack :: "(tid \<Rightarrow> int list) \<Rightarrow> nat \<Rightarrow> int list" where
  "Unpack values n = concat (map values [0..<n])"

definition CheckValues :: "(tid \<Rightarrow> int list) \<Rightarrow> nat \<Rightarrow> (tid \<Rightarrow> int list) \<Rightarrow> nat \<Rightarrow> bool" where
  "CheckValues send_values n recv_values m \<longleftrightarrow> sort (Unpack send_values n) = sort (Unpack recv_values m)"

definition test_main_step :: "'c channel_ops \<Rightarrow> nat \<Rightarrow> nat \<Rightarrow> 'c rtest \<Rightarrow> 'c rtest option" where
  "test_main_step ops n m s =
     (case rt_main s of
        MnFlag \<Rightarrow> Some (s\<lparr>rt_closed := True, rt_main := MnClose\<rparr>)
      | MnClose \<Rightarrow> Some (s\<lparr>rt_chan := op_close ops (rt_chan s), rt_main := MnJoin\<rparr>)
      | MnJoin \<Rightarrow>
          if list_all (\<lambda>i. rt_sender s i = SnDone) [0..<n] \<and> list_all (\<lambda>j. rt_receiver s j = RcDone) [0..<m]
          then Some (s\<lparr>rt_main := MnEnd,
                 rt_failed := rt_failed s \<or> \<not> CheckValues (rt_send s) n (rt_recv s) m \<or>
                   n = 1 \<and> m = 1 \<and> rt_send s 0 \<noteq> rt_recv s 0\<rparr>)
          else None
      | MnEnd \<Rightarrow> None)"

datatype test_who = TSend tid | TRecv tid tid | TMain

definition rtest_step :: "'c channel_ops \<Rightarrow> test_kind \<Rightarrow> nat \<Rightarrow> nat \<Rightarrow> (test_who, 'c rtest) machine" where
  "rtest_step ops kind n m who s =
     (case who of
        TSend i \<Rightarrow> if i < n then sender_step ops kind i s else None
      | TRecv j k \<Rightarrow> if j < m then receiver_step ops kind j k s else None
      | TMain \<Rightarrow> test_main_step ops n m s)"

definition rtest_ended :: "'c rtest \<Rightarrow> bool" where
  "rtest_ended s \<longleftrightarrow> rt_main s = MnEnd"

text \<open>\<^verbatim>\<open>RunTest\<close> with its verdict. The sleep before the channel is closed only makes some schedules likely.\<close>

definition RunTest :: "'c channel_ops \<Rightarrow> 'c \<Rightarrow> test_kind \<Rightarrow> nat \<Rightarrow> nat \<Rightarrow> int \<Rightarrow> bool \<Rightarrow> bool" where
  "RunTest ops new kind n m buff_size passed \<longleftrightarrow>
     (\<exists>s. reach (rtest_step ops kind n m) (rtest_init kind new buff_size) s \<and> rtest_ended s \<and> passed = (\<not> rt_failed s))"

text \<open>The tests of group \<^verbatim>\<open>Correctness\<close>: senders, receivers and buffer size; senders and receivers.\<close>

definition buffered_tests :: "(nat \<times> nat \<times> int) list" where
  "buffered_tests = [(1, 1, 1), (4, 1, 3), (1, 6, 4), (8, 2, 2), (3, 3, 100), (8, 8, 8)]"

definition unbuffered_tests :: "(nat \<times> nat) list" where
  "unbuffered_tests = [(1, 1), (4, 1), (1, 6), (3, 3)]"

text \<open>Once the channel has been closed every schedule has at most \<open>k\<close> steps, and one that cannot go on has ended.\<close>

definition ends_after_close :: "'c channel_ops \<Rightarrow> 'c \<Rightarrow> test_kind \<Rightarrow> nat \<Rightarrow> nat \<Rightarrow> int \<Rightarrow> nat \<Rightarrow> bool" where
  "ends_after_close ops new kind n m buff_size k \<longleftrightarrow>
     (\<forall>s sched t. reach (rtest_step ops kind n m) (rtest_init kind new buff_size) s \<and> rt_main s = MnJoin \<and>
        run (rtest_step ops kind n m) sched s = Some t \<longrightarrow>
        length sched \<le> k \<and> (stuck (rtest_step ops kind n m) t \<longrightarrow> rtest_ended t))"

section \<open>On a channel that fulfils its contract\<close>

text \<open>What a sender has sent and a receiver received, whether or not it has been noted down yet.\<close>

fun unnoted :: "sender_pc \<Rightarrow> int list" where
  "unnoted (SnSlots v) = [v]" | "unnoted (SnPush v) = [v]" | "unnoted _ = []"

fun handed_over :: "send_call \<Rightarrow> int list" where
  "handed_over (Delivered v) = [v]" | "handed_over _ = []"

fun unstored :: "receiver_pc \<Rightarrow> int list" where
  "unstored (RcPush v) = [v]" | "unstored _ = []"

definition sent_list :: "('c \<Rightarrow> tid \<Rightarrow> send_call) \<Rightarrow> 'c rtest \<Rightarrow> tid \<Rightarrow> int list" where
  "sent_list calls s i = rt_send s i @ unnoted (rt_sender s i) @ handed_over (calls (rt_chan s) i)"

definition recv_list :: "'c rtest \<Rightarrow> tid \<Rightarrow> int list" where
  "recv_list s j = rt_recv s j @ unstored (rt_receiver s j)"

text \<open>The two parts of the free slots that the threads account for.\<close>

fun slots_owed :: "sender_pc \<Rightarrow> int" where
  "slots_owed (SnSlots v) = 1" | "slots_owed _ = 0"

definition sender_slots :: "('c \<Rightarrow> tid \<Rightarrow> send_call) \<Rightarrow> 'c rtest \<Rightarrow> tid \<Rightarrow> int" where
  "sender_slots calls s i = slots_owed (rt_sender s i) + int (length (handed_over (calls (rt_chan s) i)))"

fun receiver_slots :: "receiver_pc \<Rightarrow> int" where
  "receiver_slots RcSlots = 0" | "receiver_slots (RcPush v) = 0" | "receiver_slots _ = 1"

fun calls_match :: "sender_pc \<Rightarrow> send_call \<Rightarrow> bool" where
  "calls_match (SnReturn v) c = (c = InCall v \<or> c = Delivered v)"
| "calls_match _ c = (c = NoCall)"

lemma calls_match_NoCall: "(\<And>v. p \<noteq> SnReturn v) \<Longrightarrow> calls_match p c \<longleftrightarrow> c = NoCall"
  by (cases p) auto

lemma mset_Unpack: "mset (Unpack f n) = (\<Sum>i<n. mset (f i))"
  by (induction n) (simp_all add: Unpack_def)

lemma CheckValues_iff: "CheckValues f n g m \<longleftrightarrow> (\<Sum>i<n. mset (f i)) = (\<Sum>j<m. mset (g j))"
  by (metis CheckValues_def mset_Unpack mset_sort sorted_sort properties_for_sort)

text \<open>How far a thread is from its end once the channel is closed.\<close>

fun sender_pc_weight :: "sender_pc \<Rightarrow> nat" where
  "sender_pc_weight (SnSlots v) = 6" | "sender_pc_weight (SnPush v) = 5" | "sender_pc_weight SnFetch = 4"
| "sender_pc_weight (SnCall v) = 3" | "sender_pc_weight (SnReturn v) = 2" | "sender_pc_weight SnCheck = 1"
| "sender_pc_weight SnDone = 0"

definition sender_weight :: "('c \<Rightarrow> tid \<Rightarrow> send_call) \<Rightarrow> 'c rtest \<Rightarrow> tid \<Rightarrow> nat" where
  "sender_weight calls s i = sender_pc_weight (rt_sender s i) + 6 * length (handed_over (calls (rt_chan s) i))"

fun receiver_weight :: "receiver_pc \<Rightarrow> nat" where
  "receiver_weight (RcPush v) = 4" | "receiver_weight RcSlots = 3" | "receiver_weight RcRecv = 2"
| "receiver_weight RcCheck = 1" | "receiver_weight RcDone = 0"

fun main_weight :: "test_pc \<Rightarrow> nat" where
  "main_weight MnFlag = 3" | "main_weight MnClose = 2" | "main_weight MnJoin = 1" | "main_weight MnEnd = 0"

context bounded_channel
begin

definition rt_shape :: "nat \<Rightarrow> nat \<Rightarrow> 'c rtest \<Rightarrow> bool" where
  "rt_shape n m s \<longleftrightarrow>
     wf (rt_chan s) \<and> \<not> rt_failed s \<and> (\<forall>i. calls_match (rt_sender s i) (calls (rt_chan s) i)) \<and> (\<forall>i\<ge>n. rt_sender s i = SnFetch) \<and>
     (rt_main s \<noteq> MnFlag \<longrightarrow> rt_closed s) \<and> (closed (rt_chan s) \<longleftrightarrow> rt_main s = MnJoin \<or> rt_main s = MnEnd) \<and>
     (\<forall>i. rt_sender s i = SnCheck \<or> rt_sender s i = SnDone \<longrightarrow> closed (rt_chan s)) \<and>
     (\<forall>j. rt_receiver s j = RcCheck \<or> rt_receiver s j = RcDone \<longrightarrow> closed (rt_chan s) \<and> stored (rt_chan s) = [])"

definition rt_balance :: "nat \<Rightarrow> nat \<Rightarrow> 'c rtest \<Rightarrow> bool" where
  "rt_balance n m s \<longleftrightarrow>
     (\<Sum>i<n. mset (sent_list calls s i)) = (\<Sum>j<m. mset (recv_list s j)) + mset (stored (rt_chan s)) \<and>
     (n = 1 \<and> m = 1 \<longrightarrow> sent_list calls s 0 = recv_list s 0 @ stored (rt_chan s))"

definition free_slots :: "nat \<Rightarrow> nat \<Rightarrow> int \<Rightarrow> 'c rtest \<Rightarrow> int" where
  "free_slots n m buff s =
     buff - int (length (stored (rt_chan s))) + (\<Sum>j<m. receiver_slots (rt_receiver s j)) + (\<Sum>i<n. sender_slots calls s i)"

text \<open>A step of a sender appends the same values to what it has sent and to the channel, and keeps the account of the
  free slots.\<close>

definition sender_effect :: "test_kind \<Rightarrow> nat \<Rightarrow> tid \<Rightarrow> 'c rtest \<Rightarrow> 'c rtest \<Rightarrow> bool" where
  "sender_effect kind n i s t \<longleftrightarrow>
     (\<forall>u. u \<noteq> i \<longrightarrow> sent_list calls t u = sent_list calls s u \<and> sender_slots calls t u = sender_slots calls s u \<and>
        sender_weight calls t u = sender_weight calls s u) \<and>
     (closed (rt_chan s) \<longrightarrow> stored (rt_chan t) = stored (rt_chan s) \<and> sender_weight calls t i < sender_weight calls s i) \<and>
     rt_main t = rt_main s \<and> rt_recv t = rt_recv s \<and> rt_receiver t = rt_receiver s \<and>
     (\<exists>xs d. sent_list calls t i = sent_list calls s i @ xs \<and> stored (rt_chan t) = stored (rt_chan s) @ xs \<and>
        rt_free t = rt_free s + word_of_int d \<and>
        (kind = BufferedTest \<longrightarrow> sender_slots calls t i = sender_slots calls s i + d + int (length xs)))"

lemma sender_step_shape:
  assumes sh: "rt_shape n m s" and i: "i < n" and st: "sender_step ops kind i s = Some t"
    and free: "\<And>v. rt_sender s i = SnSlots v \<Longrightarrow> 0 \<le> sint (rt_free s)"
  shows "rt_shape n m t \<and> sender_effect kind n i s t"
proof -
  have w: "wf (rt_chan s)" and mt: "\<And>u. calls_match (rt_sender s u) (calls (rt_chan s) u)" and rest: "\<And>u. u \<ge> n \<Longrightarrow> u \<noteq> i"
    using sh i by (auto simp: rt_shape_def)
  show ?thesis
  proof (cases "rt_sender s i")
    case SnFetch
    then have t: "t = s\<lparr>rt_counter := rt_counter s + 1, rt_sender := (rt_sender s)(i := SnCall (sint (rt_counter s)))\<rparr>"
      using st by (simp add: sender_step_def fetch_add_def)
    have "rt_shape n m t" using sh mt [of i] SnFetch rest by (auto simp: t rt_shape_def)
    moreover have "sender_effect kind n i s t" using SnFetch
      by (auto simp: t sender_effect_def sent_list_def sender_slots_def sender_weight_def intro!: exI [of _ 0])
    ultimately show ?thesis ..
  next
    case (SnCall v)
    then have t: "t = s\<lparr>rt_chan := op_call ops i v (rt_chan s), rt_sender := (rt_sender s)(i := SnReturn v)\<rparr>"
      using st by (simp add: sender_step_def)
    have nc: "calls (rt_chan s) i = NoCall" using mt [of i] SnCall by simp
    have "rt_shape n m t" using sh mt call [OF w nc, of v] SnCall rest by (auto simp: t rt_shape_def)
    moreover have "sender_effect kind n i s t" using SnCall call [OF w nc, of v] nc
      by (auto simp: t sender_effect_def sent_list_def sender_slots_def sender_weight_def intro!: exI [of _ 0])
    ultimately show ?thesis ..
  next
    case (SnReturn v)
    then obtain c b where c: "op_return ops i (rt_chan s) = Some (c, b)"
      using st by (auto simp: sender_step_def split: option.splits)
    show ?thesis
    proof (cases b)
      case True
      then have t: "t = s\<lparr>rt_chan := c, rt_sender := (rt_sender s)(i := if kind = BufferedTest then SnSlots v else SnPush v)\<rparr>"
        using st SnReturn c by (simp add: sender_step_def)
      have R: "wf c" "calls c = (calls (rt_chan s))(i := NoCall)" "closed c = closed (rt_chan s)"
        "calls (rt_chan s) i = InCall v \<and> \<not> closed (rt_chan s) \<and> stored c = stored (rt_chan s) @ [v] \<or>
          calls (rt_chan s) i = Delivered v \<and> stored c = stored (rt_chan s)"
        using return_ok [OF w, of i c] c True mt [of i] SnReturn by auto
      have "rt_shape n m t" using sh R SnReturn rest unfolding rt_shape_def t by (cases kind) auto
      moreover have "sender_effect kind n i s t" using R SnReturn
        by (auto simp: t sender_effect_def sent_list_def sender_slots_def sender_weight_def intro!: exI [of _ 0])
      ultimately show ?thesis ..
    next
      case False
      then have t: "t = s\<lparr>rt_chan := c, rt_sender := (rt_sender s)(i := SnCheck)\<rparr>"
        using st SnReturn c by (simp add: sender_step_def)
      have R: "wf c" "calls c = (calls (rt_chan s))(i := NoCall)" "closed c" "closed (rt_chan s)" "stored c = stored (rt_chan s)"
        "\<exists>v. calls (rt_chan s) i = InCall v"
        using return_throws [OF w, of i c] c False by auto
      have "rt_shape n m t" using sh R SnReturn rest unfolding rt_shape_def t by auto
      moreover have "sender_effect kind n i s t" using R SnReturn
        by (auto simp: t sender_effect_def sent_list_def sender_slots_def sender_weight_def intro!: exI [of _ 0])
      ultimately show ?thesis ..
    qed
  next
    case (SnSlots v)
    then have t: "t = s\<lparr>rt_free := rt_free s - 1, rt_sender := (rt_sender s)(i := SnPush v)\<rparr>"
      using st free by (simp add: sender_step_def fetch_sub_def)
    have "rt_shape n m t" using sh mt [of i] SnSlots rest by (auto simp: t rt_shape_def)
    moreover have "sender_effect kind n i s t" using SnSlots
      by (auto simp: t sender_effect_def sent_list_def sender_slots_def sender_weight_def intro!: exI [of _ "- 1"])
    ultimately show ?thesis ..
  next
    case (SnPush v)
    then have t: "t = s\<lparr>rt_send := (rt_send s)(i := rt_send s i @ [v]), rt_sender := (rt_sender s)(i := SnFetch)\<rparr>"
      using st by (simp add: sender_step_def)
    have nc: "calls (rt_chan s) i = NoCall" using mt [of i] SnPush by simp
    have "rt_shape n m t" using sh nc rest by (auto simp: t rt_shape_def)
    moreover have "sender_effect kind n i s t" using SnPush nc
      by (auto simp: t sender_effect_def sent_list_def sender_slots_def sender_weight_def intro!: exI [of _ 0])
    ultimately show ?thesis ..
  next
    case SnCheck
    then have cl: "closed (rt_chan s)" "rt_closed s" using sh by (auto simp: rt_shape_def)
    then have t: "t = s\<lparr>rt_sender := (rt_sender s)(i := SnDone)\<rparr>"
      using st SnCheck by (simp add: sender_step_def)
    have "rt_shape n m t" using sh mt [of i] SnCheck cl rest by (auto simp: t rt_shape_def)
    moreover have "sender_effect kind n i s t" using SnCheck
      by (auto simp: t sender_effect_def sent_list_def sender_slots_def sender_weight_def intro!: exI [of _ 0])
    ultimately show ?thesis ..
  qed (use st in \<open>simp add: sender_step_def\<close>)
qed

text \<open>A step of a receiver takes values from the channel, or one directly from sender \<open>k\<close>.\<close>

definition receiver_effect :: "test_kind \<Rightarrow> tid \<Rightarrow> tid \<Rightarrow> 'c rtest \<Rightarrow> 'c rtest \<Rightarrow> bool" where
  "receiver_effect kind j k s t \<longleftrightarrow>
     (\<forall>u. u \<noteq> j \<longrightarrow> rt_recv t u = rt_recv s u \<and> rt_receiver t u = rt_receiver s u) \<and>
     (closed (rt_chan s) \<longrightarrow> 3 * length (stored (rt_chan t)) + receiver_weight (rt_receiver t j) <
        3 * length (stored (rt_chan s)) + receiver_weight (rt_receiver s j) \<and> calls (rt_chan t) = calls (rt_chan s)) \<and>
     rt_main t = rt_main s \<and> rt_send t = rt_send s \<and> rt_sender t = rt_sender s \<and>
     (\<exists>ys d. recv_list t j = recv_list s j @ ys \<and>
        (stored (rt_chan s) = ys @ stored (rt_chan t) \<and> calls (rt_chan t) = calls (rt_chan s) \<or>
         (\<exists>v. ys = [v] \<and> calls (rt_chan s) k = InCall v \<and> stored (rt_chan s) = [] \<and> stored (rt_chan t) = [] \<and>
            calls (rt_chan t) = (calls (rt_chan s))(k := Delivered v))) \<and>
        rt_free t = rt_free s + word_of_int d \<and>
        (kind = BufferedTest \<longrightarrow> receiver_slots (rt_receiver t j) + int (length ys) = receiver_slots (rt_receiver s j) + d))"

lemma receiver_step_shape:
  assumes sh: "rt_shape n m s" and st: "receiver_step ops kind j k s = Some t"
  shows "rt_shape n m t \<and> receiver_effect kind j k s t"
proof -
  have w: "wf (rt_chan s)" using sh by (simp add: rt_shape_def)
  show ?thesis
  proof (cases "rt_receiver s j")
    case RcSlots
    then have t: "t = s\<lparr>rt_free := rt_free s + 1, rt_receiver := (rt_receiver s)(j := RcRecv)\<rparr>"
      using st by (simp add: receiver_step_def fetch_add_def)
    have "rt_shape n m t" using sh by (auto simp: t rt_shape_def)
    moreover have "receiver_effect kind j k s t" using RcSlots
      by (auto simp: t receiver_effect_def recv_list_def intro!: exI [of _ 1])
    ultimately show ?thesis ..
  next
    case RcRecv
    then obtain res c where c: "op_recv ops k (rt_chan s) = Some (res, c)"
      using st by (auto simp: receiver_step_def split: option.splits)
    show ?thesis
    proof (cases res)
      case None
      have R: "c = rt_chan s" "closed (rt_chan s)" "stored (rt_chan s) = []" using recv_end [OF w] c None by auto
      then have t: "t = s\<lparr>rt_receiver := (rt_receiver s)(j := RcCheck)\<rparr>"
        using st RcRecv c None by (auto simp: receiver_step_def)
      have "rt_shape n m t" using sh R by (auto simp: t rt_shape_def)
      moreover have "receiver_effect kind j k s t" using RcRecv R
        by (auto simp: t receiver_effect_def recv_list_def intro!: exI [of _ 0])
      ultimately show ?thesis ..
    next
      case (Some v)
      then have t: "t = s\<lparr>rt_chan := c, rt_receiver := (rt_receiver s)(j := RcPush v)\<rparr>"
        using st RcRecv c by (auto simp: receiver_step_def)
      have R: "wf c" "closed c = closed (rt_chan s)"
        and q: "stored (rt_chan s) = v # stored c \<and> calls c = calls (rt_chan s) \<or>
          calls (rt_chan s) k = InCall v \<and> \<not> closed (rt_chan s) \<and> stored (rt_chan s) = [] \<and> stored c = [] \<and>
          calls c = (calls (rt_chan s))(k := Delivered v)"
        using recv_value [OF w] c Some by auto
      have "calls_match (rt_sender s u) (calls c u)" for u
      proof -
        have mt: "calls_match (rt_sender s u) (calls (rt_chan s) u)" for u using sh by (simp add: rt_shape_def)
        show ?thesis using q mt [of u] mt [of k] by (cases "rt_sender s k") (auto split: if_splits)
      qed
      then have "rt_shape n m t" using sh R q by (auto simp: t rt_shape_def)
      moreover have "receiver_effect kind j k s t" using RcRecv R q
        by (auto simp: t receiver_effect_def recv_list_def intro!: exI [of _ 0])
      ultimately show ?thesis ..
    qed
  next
    case (RcPush v)
    then have t: "t = s\<lparr>rt_recv := (rt_recv s)(j := rt_recv s j @ [v]), rt_receiver := (rt_receiver s)(j := receiver_start kind)\<rparr>"
      using st by (simp add: receiver_step_def)
    have "rt_shape n m t" using sh by (cases kind) (auto simp: t rt_shape_def)
    moreover have "receiver_effect kind j k s t" using RcPush
      by (cases kind) (auto simp: t receiver_effect_def recv_list_def intro!: exI [of _ 0])
    ultimately show ?thesis ..
  next
    case RcCheck
    then have cl: "closed (rt_chan s)" "stored (rt_chan s) = []" "rt_closed s" using sh by (auto simp: rt_shape_def)
    then have t: "t = s\<lparr>rt_receiver := (rt_receiver s)(j := RcDone)\<rparr>"
      using st RcCheck by (simp add: receiver_step_def)
    have "rt_shape n m t" using sh cl by (auto simp: t rt_shape_def)
    moreover have "receiver_effect kind j k s t" using RcCheck
      by (auto simp: t receiver_effect_def recv_list_def intro!: exI [of _ 0])
    ultimately show ?thesis ..
  qed (use st in \<open>simp add: receiver_step_def\<close>)
qed

definition rt_inv :: "test_kind \<Rightarrow> nat \<Rightarrow> nat \<Rightarrow> int \<Rightarrow> 'c rtest \<Rightarrow> bool" where
  "rt_inv kind n m buff s \<longleftrightarrow>
     rt_shape n m s \<and> rt_balance n m s \<and> (kind = UnbufferedTest \<longrightarrow> (\<forall>i v. rt_sender s i \<noteq> SnSlots v)) \<and>
     (kind = BufferedTest \<longrightarrow> rt_free s = word_of_int (free_slots n m buff s))"

definition rt_rank :: "nat \<Rightarrow> nat \<Rightarrow> 'c rtest \<Rightarrow> nat" where
  "rt_rank n m s =
     (\<Sum>i<n. sender_weight calls s i) + (\<Sum>j<m. receiver_weight (rt_receiver s j)) + 3 * length (stored (rt_chan s)) +
     main_weight (rt_main s)"

lemma sender_slots_bounds: "0 \<le> sender_slots calls s i" "sender_slots calls s i \<le> 2" "rt_sender s i = SnSlots v \<Longrightarrow> 1 \<le> sender_slots calls s i"
  by (cases "rt_sender s i"; cases "calls (rt_chan s) i"; simp add: sender_slots_def)+

lemma receiver_slots_bounds: "0 \<le> receiver_slots p" "receiver_slots p \<le> 1"
  by (cases p; simp)+

text \<open>The assertion on the free slots holds with room to spare: a sender that has been let in finds at least one.\<close>

lemma free_slots_positive:
  assumes inv: "rt_inv BufferedTest n m buff s" and i: "i < n" "rt_sender s i = SnSlots v"
    and cap: "int cap \<le> buff" and small: "buff + int m + 2 * int n < 2 ^ 31"
  shows "1 \<le> sint (rt_free s)"
proof -
  have w: "wf (rt_chan s)" and fr: "rt_free s = word_of_int (free_slots n m buff s)"
    using inv by (auto simp: rt_inv_def rt_shape_def)
  have "length (stored (rt_chan s)) \<le> cap" using w by (rule stored_le)
  moreover have "0 \<le> (\<Sum>j<m. receiver_slots (rt_receiver s j))" by (simp add: sum_nonneg receiver_slots_bounds)
  moreover have "(\<Sum>j<m. receiver_slots (rt_receiver s j)) \<le> int m"
    using sum_bounded_above [of "{..<m}" "\<lambda>j. receiver_slots (rt_receiver s j)" 1] receiver_slots_bounds by simp
  moreover have "1 \<le> (\<Sum>i<n. sender_slots calls s i)"
  proof -
    have "sender_slots calls s i \<le> (\<Sum>i<n. sender_slots calls s i)"
      by (rule member_le_sum) (use i(1) sender_slots_bounds in auto)
    then show ?thesis using sender_slots_bounds(3) [of s i] i(2) by force
  qed
  moreover have "(\<Sum>i<n. sender_slots calls s i) \<le> 2 * int n"
    using sum_bounded_above [of "{..<n}" "\<lambda>i. sender_slots calls s i" 2] sender_slots_bounds(2) by (simp add: mult.commute)
  ultimately have b: "1 \<le> free_slots n m buff s" "free_slots n m buff s < 2 ^ 31"
    using cap small by (auto simp: free_slots_def)
  then have "sint (rt_free s) = free_slots n m buff s"
    unfolding fr by (simp add: sint_sbintrunc' signed_take_bit_int_eq_self)
  then show ?thesis using b(1) by simp
qed

lemma sender_step_inv:
  assumes inv: "rt_inv kind n m buff s" and i: "i < n" and st: "sender_step ops kind i s = Some t"
    and cap: "kind = BufferedTest \<Longrightarrow> int cap \<le> buff \<and> buff + int m + 2 * int n < 2 ^ 31"
  shows "rt_inv kind n m buff t \<and> (closed (rt_chan s) \<longrightarrow> rt_rank n m t < rt_rank n m s)"
proof -
  have sh: "rt_shape n m s" and bal: "rt_balance n m s" using inv by (auto simp: rt_inv_def)
  have "0 \<le> sint (rt_free s)" if "rt_sender s i = SnSlots v" for v
  proof (cases kind)
    case BufferedTest
    then show ?thesis using free_slots_positive [of n m buff s i v] inv i that cap by fastforce
  qed (use inv that in \<open>auto simp: rt_inv_def\<close>)
  then have sh': "rt_shape n m t" and eff: "sender_effect kind n i s t"
    using sender_step_shape [OF sh i st] by auto
  obtain xs d where e: "\<And>u. u \<noteq> i \<Longrightarrow> sent_list calls t u = sent_list calls s u"
      "\<And>u. u \<noteq> i \<Longrightarrow> sender_slots calls t u = sender_slots calls s u"
      "\<And>u. u \<noteq> i \<Longrightarrow> sender_weight calls t u = sender_weight calls s u"
      "rt_recv t = rt_recv s" "rt_receiver t = rt_receiver s" "rt_main t = rt_main s"
      "sent_list calls t i = sent_list calls s i @ xs" "stored (rt_chan t) = stored (rt_chan s) @ xs"
      "rt_free t = rt_free s + word_of_int d"
      "kind = BufferedTest \<Longrightarrow> sender_slots calls t i = sender_slots calls s i + d + int (length xs)"
      "closed (rt_chan s) \<Longrightarrow> stored (rt_chan t) = stored (rt_chan s) \<and> sender_weight calls t i < sender_weight calls s i"
    using eff by (auto simp: sender_effect_def)
  have rl: "recv_list t = recv_list s" by (rule ext) (simp add: recv_list_def e)
  have "(\<Sum>u<n. mset (sent_list calls t u)) + mset (sent_list calls s i) =
      (\<Sum>u<n. mset (sent_list calls s u)) + mset (sent_list calls t i)"
    by (rule sum_change [OF i]) (simp add: e)
  then have "(\<Sum>u<n. mset (sent_list calls t u)) = (\<Sum>u<n. mset (sent_list calls s u)) + mset xs"
    by (simp add: e)
  then have bal': "rt_balance n m t" using bal i e(7) by (cases i) (auto simp: rt_balance_def rl e(8))
  have "(\<Sum>u<n. sender_slots calls t u) + sender_slots calls s i = (\<Sum>u<n. sender_slots calls s u) + sender_slots calls t i"
    by (rule sum_change [OF i]) (simp add: e)
  then have "free_slots n m buff t = free_slots n m buff s + d" if "kind = BufferedTest"
    using e(10) [OF that] by (simp add: free_slots_def e)
  then have fr: "kind = BufferedTest \<longrightarrow> rt_free t = word_of_int (free_slots n m buff t)"
    using inv e(9) by (simp add: rt_inv_def)
  have "rt_sender t u \<noteq> SnSlots v" if "kind = UnbufferedTest" for u v
    using st that inv by (cases "rt_sender s i")
      (auto simp: sender_step_def rt_inv_def fetch_add_def fetch_sub_def split: option.splits bool.splits if_splits prod.splits)
  then have "rt_inv kind n m buff t" using sh' bal' fr by (simp add: rt_inv_def)
  moreover have "rt_rank n m t < rt_rank n m s" if "closed (rt_chan s)"
  proof -
    have "(\<Sum>u<n. sender_weight calls t u) < (\<Sum>u<n. sender_weight calls s u)"
      by (rule sum_weight_decrease [OF i]) (use e that in auto)
    then show ?thesis using e(11) [OF that] by (simp add: rt_rank_def e)
  qed
  ultimately show ?thesis by blast
qed

lemma receiver_step_inv:
  assumes inv: "rt_inv kind n m buff s" and j: "j < m" and st: "receiver_step ops kind j k s = Some t"
  shows "rt_inv kind n m buff t \<and> (closed (rt_chan s) \<longrightarrow> rt_rank n m t < rt_rank n m s)"
proof -
  have sh: "rt_shape n m s" and bal: "rt_balance n m s" using inv by (auto simp: rt_inv_def)
  have sh': "rt_shape n m t" and eff: "receiver_effect kind j k s t" using receiver_step_shape [OF sh st] by auto
  obtain ys d where e: "\<And>u. u \<noteq> j \<Longrightarrow> rt_recv t u = rt_recv s u" "\<And>u. u \<noteq> j \<Longrightarrow> rt_receiver t u = rt_receiver s u"
      "rt_main t = rt_main s" "rt_send t = rt_send s" "rt_sender t = rt_sender s" "recv_list t j = recv_list s j @ ys"
      "rt_free t = rt_free s + word_of_int d"
      "kind = BufferedTest \<Longrightarrow> receiver_slots (rt_receiver t j) + int (length ys) = receiver_slots (rt_receiver s j) + d"
      "stored (rt_chan s) = ys @ stored (rt_chan t) \<and> calls (rt_chan t) = calls (rt_chan s) \<or>
         (\<exists>v. ys = [v] \<and> calls (rt_chan s) k = InCall v \<and> stored (rt_chan s) = [] \<and> stored (rt_chan t) = [] \<and>
            calls (rt_chan t) = (calls (rt_chan s))(k := Delivered v))"
      "closed (rt_chan s) \<Longrightarrow> 3 * length (stored (rt_chan t)) + receiver_weight (rt_receiver t j) <
        3 * length (stored (rt_chan s)) + receiver_weight (rt_receiver s j) \<and> calls (rt_chan t) = calls (rt_chan s)"
    using eff unfolding receiver_effect_def by metis
  have rl: "recv_list t u = recv_list s u" if "u \<noteq> j" for u using that by (simp add: recv_list_def e)
  have R: "(\<Sum>u<m. mset (recv_list t u)) = (\<Sum>u<m. mset (recv_list s u)) + mset ys"
    using sum_change [OF j, of "\<lambda>u. mset (recv_list t u)" "\<lambda>u. mset (recv_list s u)"] by (simp add: rl e(6))
  have S: "(\<Sum>u<m. receiver_slots (rt_receiver t u)) + int (length ys) = (\<Sum>u<m. receiver_slots (rt_receiver s u)) + d"
    if "kind = BufferedTest"
    using sum_change [OF j, of "\<lambda>u. receiver_slots (rt_receiver t u)" "\<lambda>u. receiver_slots (rt_receiver s u)"] e(2) e(8) [OF that]
    by simp
  have "rt_balance n m t \<and> (kind = BufferedTest \<longrightarrow> free_slots n m buff t = free_slots n m buff s + d)"
    using e(9)
  proof
    assume q: "stored (rt_chan s) = ys @ stored (rt_chan t) \<and> calls (rt_chan t) = calls (rt_chan s)"
    have sl: "sent_list calls t = sent_list calls s" "sender_slots calls t = sender_slots calls s"
      using q by (simp_all add: sent_list_def sender_slots_def e fun_eq_iff)
    have "rt_balance n m t" using bal q j e(6) by (cases j) (auto simp: rt_balance_def sl R)
    moreover have "free_slots n m buff t = free_slots n m buff s + d" if "kind = BufferedTest"
      using S [OF that] q by (simp add: free_slots_def sl)
    ultimately show ?thesis by blast
  next
    assume "\<exists>v. ys = [v] \<and> calls (rt_chan s) k = InCall v \<and> stored (rt_chan s) = [] \<and> stored (rt_chan t) = [] \<and>
            calls (rt_chan t) = (calls (rt_chan s))(k := Delivered v)"
    then obtain v where d: "ys = [v]" "calls (rt_chan s) k = InCall v" "stored (rt_chan s) = []" "stored (rt_chan t) = []"
      "calls (rt_chan t) = (calls (rt_chan s))(k := Delivered v)" by blast
    have mt: "calls_match (rt_sender s k) (InCall v)" using sh d(2) by (metis rt_shape_def)
    have k: "k < n" using sh mt by (metis calls_match.simps(2) not_less rt_shape_def send_call.distinct(1))
    obtain v' where sn: "rt_sender s k = SnReturn v'" using mt by (cases "rt_sender s k") auto
    have sl: "sent_list calls t u = sent_list calls s u" "sender_slots calls t u = sender_slots calls s u" if "u \<noteq> k" for u
      using d(5) that by (simp_all add: sent_list_def sender_slots_def e)
    have slk: "sent_list calls t k = sent_list calls s k @ [v]" "sender_slots calls t k = sender_slots calls s k + 1"
      using d sn by (simp_all add: sent_list_def sender_slots_def e)
    have "(\<Sum>u<n. mset (sent_list calls t u)) = (\<Sum>u<n. mset (sent_list calls s u)) + {#v#}"
      using sum_change [OF k, of "\<lambda>u. mset (sent_list calls t u)" "\<lambda>u. mset (sent_list calls s u)"] by (simp add: sl slk(1))
    then have "rt_balance n m t" using bal j k d(1,3,4) slk(1) e(6) by (cases j; cases k) (auto simp: rt_balance_def R)
    moreover have "(\<Sum>u<n. sender_slots calls t u) = (\<Sum>u<n. sender_slots calls s u) + 1"
      using sum_change [OF k, of "\<lambda>u. sender_slots calls t u" "\<lambda>u. sender_slots calls s u"] by (simp add: sl slk(2))
    then have "free_slots n m buff t = free_slots n m buff s + d'" if "kind = BufferedTest" "d' = d" for d'
      using S [OF that(1)] that(2) d(1,3,4) by (simp add: free_slots_def)
    ultimately show ?thesis by blast
  qed
  then have "rt_inv kind n m buff t" using sh' inv e(5,7) by (auto simp: rt_inv_def)
  moreover have "rt_rank n m t < rt_rank n m s" if "closed (rt_chan s)"
  proof -
    have "sender_weight calls t = sender_weight calls s" using e(10) [OF that] e(5) by (simp add: sender_weight_def fun_eq_iff)
    moreover have "(\<Sum>u<m. receiver_weight (rt_receiver t u)) + receiver_weight (rt_receiver s j) =
        (\<Sum>u<m. receiver_weight (rt_receiver s u)) + receiver_weight (rt_receiver t j)"
      by (rule sum_change [OF j]) (simp add: e(2))
    ultimately show ?thesis using e(10) [OF that] e(3) by (simp add: rt_rank_def)
  qed
  ultimately show ?thesis by blast
qed

lemma main_step_inv:
  assumes inv: "rt_inv kind n m buff s" and m: "0 < m" and st: "test_main_step ops n m s = Some t"
  shows "rt_inv kind n m buff t \<and> rt_rank n m t < rt_rank n m s"
proof -
  have w: "wf (rt_chan s)" and sh: "rt_shape n m s" and bal: "rt_balance n m s" using inv by (auto simp: rt_inv_def rt_shape_def)
  have keep: "rt_inv kind n m buff t \<and> rt_rank n m t < rt_rank n m s"
    if "rt_shape n m t" "main_weight (rt_main t) < main_weight (rt_main s)" "rt_send t = rt_send s" "rt_recv t = rt_recv s"
      "rt_sender t = rt_sender s" "rt_receiver t = rt_receiver s" "calls (rt_chan t) = calls (rt_chan s)"
      "stored (rt_chan t) = stored (rt_chan s)" "rt_free t = rt_free s"
  proof -
    have "sent_list calls t = sent_list calls s" "sender_slots calls t = sender_slots calls s" "recv_list t = recv_list s"
      "sender_weight calls t = sender_weight calls s"
      using that by (simp_all add: sent_list_def sender_slots_def recv_list_def sender_weight_def fun_eq_iff)
    then show ?thesis using that inv by (simp add: rt_inv_def rt_balance_def free_slots_def rt_rank_def)
  qed
  show ?thesis
  proof (cases "rt_main s")
    case MnFlag
    then have t: "t = s\<lparr>rt_closed := True, rt_main := MnClose\<rparr>" using st by (simp add: test_main_step_def)
    show ?thesis by (rule keep) (use MnFlag sh in \<open>auto simp: t rt_shape_def\<close>)
  next
    case MnClose
    then have t: "t = s\<lparr>rt_chan := op_close ops (rt_chan s), rt_main := MnJoin\<rparr>" using st by (simp add: test_main_step_def)
    show ?thesis by (rule keep) (use MnClose sh close [OF w] in \<open>auto simp: t rt_shape_def\<close>)
  next
    case MnJoin
    then have sd: "\<forall>i<n. rt_sender s i = SnDone" and rd: "\<forall>j<m. rt_receiver s j = RcDone"
      and t: "t = s\<lparr>rt_main := MnEnd, rt_failed := rt_failed s \<or> \<not> CheckValues (rt_send s) n (rt_recv s) m \<or>
                   n = 1 \<and> m = 1 \<and> rt_send s 0 \<noteq> rt_recv s 0\<rparr>"
      using st by (auto simp: test_main_step_def list_all_iff split: if_splits)
    have stored: "stored (rt_chan s) = []" using sh rd m by (auto simp: rt_shape_def)
    have "calls (rt_chan s) i = NoCall" if "i < n" for i
      using sh sd that by (metis calls_match.simps(7) rt_shape_def)
    then have sl: "sent_list calls s i = rt_send s i" if "i < n" for i using sd that by (simp add: sent_list_def)
    have rl: "recv_list s j = rt_recv s j" if "j < m" for j using rd that by (simp add: recv_list_def)
    have "CheckValues (rt_send s) n (rt_recv s) m"
      using bal stored sl rl by (simp add: CheckValues_iff rt_balance_def)
    moreover have "rt_send s 0 = rt_recv s 0" if "n = 1" "m = 1"
      using bal stored that sl [of 0] rl [of 0] by (simp add: rt_balance_def)
    ultimately have t': "t = s\<lparr>rt_main := MnEnd\<rparr>" using t sh by (auto simp: rt_shape_def)
    show ?thesis by (rule keep) (use MnJoin sh in \<open>auto simp: t' rt_shape_def\<close>)
  qed (use st in \<open>simp add: test_main_step_def\<close>)
qed

lemma rtest_step_inv:
  assumes inv: "rt_inv kind n m buff s" and m: "0 < m" and st: "rtest_step ops kind n m who s = Some t"
    and cap: "kind = BufferedTest \<Longrightarrow> int cap \<le> buff \<and> buff + int m + 2 * int n < 2 ^ 31"
  shows "rt_inv kind n m buff t \<and> (closed (rt_chan s) \<longrightarrow> rt_rank n m t < rt_rank n m s \<and> closed (rt_chan t))"
proof -
  have "rt_inv kind n m buff t \<and> (closed (rt_chan s) \<longrightarrow> rt_rank n m t < rt_rank n m s)"
    using st sender_step_inv [OF inv _ _ cap] receiver_step_inv [OF inv] main_step_inv [OF inv m]
    by (cases who) (auto simp: rtest_step_def split: if_splits)
  moreover have "main_weight (rt_main t) \<le> main_weight (rt_main s)"
    using st by (cases who) (auto simp: rtest_step_def sender_step_def receiver_step_def test_main_step_def fetch_add_def
        fetch_sub_def Let_def split: if_splits sender_pc.splits receiver_pc.splits option.splits prod.splits bool.splits test_pc.splits)
  then have "closed (rt_chan s) \<longrightarrow> closed (rt_chan t)"
    using calculation inv by (cases "rt_main s"; cases "rt_main t") (auto simp: rt_inv_def rt_shape_def)
  ultimately show ?thesis by blast
qed

lemma rtest_closed_enabled:
  assumes inv: "rt_inv kind n m buff s" and cl: "closed (rt_chan s)" and nf: "\<not> rtest_ended s"
  shows "\<exists>who t. rtest_step ops kind n m who s = Some t"
proof -
  have w: "wf (rt_chan s)" and mt: "\<And>i. calls_match (rt_sender s i) (calls (rt_chan s) i)" and mn: "rt_main s = MnJoin"
    using inv cl nf by (auto simp: rt_inv_def rt_shape_def rtest_ended_def)
  consider (s) i where "i < n" "rt_sender s i \<noteq> SnDone" | (r) j where "j < m" "rt_receiver s j \<noteq> RcDone"
    | (d) "\<forall>i<n. rt_sender s i = SnDone" "\<forall>j<m. rt_receiver s j = RcDone" by blast
  then show ?thesis
  proof cases
    case s
    have ret: "\<exists>c b. op_return ops i (rt_chan s) = Some (c, b)" if "rt_sender s i = SnReturn v" for v
      using return_ready [OF w, of i v] mt [of i] that cl by fastforce
    have "\<exists>t. sender_step ops kind i s = Some t"
    proof (cases "rt_sender s i")
      case (SnReturn v)
      then show ?thesis using ret [OF SnReturn] by (auto simp: sender_step_def split: bool.splits)
    qed (use s in \<open>auto simp: sender_step_def fetch_add_def fetch_sub_def\<close>)
    then have "\<exists>t. rtest_step ops kind n m (TSend i) s = Some t" using s(1) by (simp add: rtest_step_def)
    then show ?thesis by blast
  next
    case r
    have "op_recv ops 0 (rt_chan s) \<noteq> None" using recv_ready [OF w] cl by blast
    then have "\<exists>t. receiver_step ops kind j 0 s = Some t" using r(2)
      by (cases "rt_receiver s j") (auto simp: receiver_step_def split: option.splits)
    then have "\<exists>t. rtest_step ops kind n m (TRecv j 0) s = Some t" using r(1) by (simp add: rtest_step_def)
    then show ?thesis by blast
  next
    case d
    then have "\<exists>t. rtest_step ops kind n m TMain s = Some t" using mn
      by (simp add: rtest_step_def test_main_step_def list_all_iff)
    then show ?thesis by blast
  qed
qed

lemma rtest_inv_init: "rt_inv kind n m buff (rtest_init kind new buff)"
  using new by (cases kind) (auto simp: rt_inv_def rtest_init_def rt_shape_def rt_balance_def free_slots_def
      sent_list_def recv_list_def sender_slots_def)

lemma rtest_live:
  assumes m: "0 < m" and cap: "kind = BufferedTest \<Longrightarrow> int cap \<le> buff \<and> buff + int m + 2 * int n < 2 ^ 31"
  shows "machine_live (rtest_step ops kind n m) (rtest_init kind new buff) (rt_inv kind n m buff) (rt_rank n m) rtest_ended"
proof unfold_locales
  show "rt_inv kind n m buff (rtest_init kind new buff)" by (rule rtest_inv_init)
  show "rt_inv kind n m buff t" if "rt_inv kind n m buff s" "rtest_step ops kind n m who s = Some t" for s who t
    using rtest_step_inv [OF that(1) m that(2) cap] by blast
  show "\<exists>who t. rtest_step ops kind n m who s = Some t \<and> rt_rank n m t < rt_rank n m s"
    if inv: "rt_inv kind n m buff s" and nf: "\<not> rtest_ended s" for s
  proof (cases "closed (rt_chan s)")
    case True
    then show ?thesis using rtest_closed_enabled [OF inv True nf] rtest_step_inv [OF inv m _ cap] by blast
  next
    case False
    then have "rt_main s = MnFlag \<or> rt_main s = MnClose" using inv by (cases "rt_main s") (auto simp: rt_inv_def rt_shape_def)
    then obtain t where t: "test_main_step ops n m s = Some t" by (auto simp: test_main_step_def)
    then have "rtest_step ops kind n m TMain s = Some t" by (simp add: rtest_step_def)
    then show ?thesis using main_step_inv [OF inv m t] by blast
  qed
qed

text \<open>Once the channel is closed the test ends on every schedule.\<close>

lemma rtest_closed_term:
  assumes m: "0 < m" and cap: "kind = BufferedTest \<Longrightarrow> int cap \<le> buff \<and> buff + int m + 2 * int n < 2 ^ 31"
    and s: "rt_inv kind n m buff s" "closed (rt_chan s)"
  shows "machine_term (rtest_step ops kind n m) s (\<lambda>s. rt_inv kind n m buff s \<and> closed (rt_chan s)) (rt_rank n m) rtest_ended"
proof unfold_locales
  show "rt_inv kind n m buff s \<and> closed (rt_chan s)" using s by blast
next
  fix s t who
  assume *: "rt_inv kind n m buff s \<and> closed (rt_chan s)"
  then have inv: "rt_inv kind n m buff s" and cl: "closed (rt_chan s)" by blast+
  show "\<exists>who t. rtest_step ops kind n m who s = Some t" if "\<not> rtest_ended s"
    using inv cl that by (rule rtest_closed_enabled)
  assume st: "rtest_step ops kind n m who s = Some t"
  show "rt_inv kind n m buff t \<and> closed (rt_chan t)" using rtest_step_inv [OF inv m st cap] cl by blast
  show "rt_rank n m t < rt_rank n m s" using rtest_step_inv [OF inv m st cap] cl by blast
qed

lemma RunTest_passes:
  assumes m: "0 < m" and cap: "kind = BufferedTest \<Longrightarrow> int cap \<le> buff \<and> buff + int m + 2 * int n < 2 ^ 31"
  shows "RunTest ops new kind n m buff passed \<longleftrightarrow> passed"
proof -
  note ml = rtest_live [OF m cap]
  have "\<not> rt_failed s" if "reach (rtest_step ops kind n m) (rtest_init kind new buff) s" for s
    using machine_inv.reach_inv [OF machine_live.axioms(1) [OF ml] that] by (simp add: rt_inv_def rt_shape_def)
  moreover obtain s where "reach (rtest_step ops kind n m) (rtest_init kind new buff) s" "rtest_ended s"
    using machine_live.final_reachable [OF ml reach_init] by blast
  ultimately show ?thesis unfolding RunTest_def by metis
qed

text \<open>The bound in terms of the threads and the elements left in the channel.\<close>

lemma rt_rank_bound:
  assumes "rt_shape n m s"
  shows "rt_rank n m s \<le> 8 * n + 4 * m + 3 * cap + 3"
proof -
  have "sender_weight calls s i \<le> 8" for i
    using assms by (cases "rt_sender s i"; cases "calls (rt_chan s) i")
      (auto simp: sender_weight_def rt_shape_def dest: spec [of _ i])
  then have "(\<Sum>i<n. sender_weight calls s i) \<le> 8 * n"
    using sum_bounded_above [of "{..<n}" "sender_weight calls s" 8] by (simp add: mult.commute)
  moreover have "receiver_weight p \<le> 4" for p by (cases p) simp_all
  then have "(\<Sum>j<m. receiver_weight (rt_receiver s j)) \<le> 4 * m"
    using sum_bounded_above [of "{..<m}" "\<lambda>j. receiver_weight (rt_receiver s j)" 4] by (simp add: mult.commute)
  moreover have "length (stored (rt_chan s)) \<le> cap" using assms stored_le by (simp add: rt_shape_def)
  moreover have "main_weight (rt_main s) \<le> 3" by (cases "rt_main s") simp_all
  ultimately show ?thesis by (simp add: rt_rank_def)
qed

lemma rtest_ends_after_close:
  assumes m: "0 < m" and cap: "kind = BufferedTest \<Longrightarrow> int cap \<le> buff \<and> buff + int m + 2 * int n < 2 ^ 31"
  shows "ends_after_close ops new kind n m buff (8 * n + 4 * m + 3 * cap + 3)"
  unfolding ends_after_close_def
proof (intro allI impI, elim conjE)
  fix s sched t
  assume r: "reach (rtest_step ops kind n m) (rtest_init kind new buff) s" and joining: "rt_main s = MnJoin"
    and run: "run (rtest_step ops kind n m) sched s = Some t"
  have inv: "rt_inv kind n m buff s" using machine_inv.reach_inv [OF machine_live.axioms(1) [OF rtest_live [OF m cap]] r] .
  then have "closed (rt_chan s)" using joining by (simp add: rt_inv_def rt_shape_def)
  note mt = rtest_closed_term [OF m cap inv this]
  have "rt_rank n m s \<le> 8 * n + 4 * m + 3 * cap + 3" using inv by (intro rt_rank_bound) (simp add: rt_inv_def)
  then show "length sched \<le> 8 * n + 4 * m + 3 * cap + 3 \<and> (stuck (rtest_step ops kind n m) t \<longrightarrow> rtest_ended t)"
    using machine_term.run_length [OF mt run] machine_term.term_stuck_final [OF mt run_imp_reach [OF run]] by linarith
qed

end

section \<open>On the channels as handed out\<close>

text \<open>Such a channel never throws, so a sender of the buffered test stops only when the assertion on the free slots fails, and
  a sender of the unbuffered test never stops.\<close>

definition stub_test_inv :: "test_kind \<Rightarrow> 'c rtest \<Rightarrow> bool" where
  "stub_test_inv kind s \<longleftrightarrow>
     (\<forall>i. rt_sender s i \<noteq> SnCheck) \<and>
     (case kind of
        BufferedTest \<Rightarrow> (\<exists>i. rt_sender s i = SnDone) \<longrightarrow> rt_failed s
      | UnbufferedTest \<Rightarrow> \<forall>i. rt_sender s i \<noteq> SnDone \<and> (\<forall>v. rt_sender s i \<noteq> SnSlots v))"

lemma stub_test_step:
  assumes h: "hollow ops" and inv: "stub_test_inv kind s" and st: "rtest_step ops kind n m who s = Some t"
  shows "stub_test_inv kind t"
proof (cases who)
  case (TSend i)
  then have "sender_step ops kind i s = Some t" using st by (auto simp: rtest_step_def split: if_splits)
  then show ?thesis using inv h
    by (cases "rt_sender s i"; cases kind)
      (auto simp: sender_step_def stub_test_inv_def hollow_def fetch_add_def fetch_sub_def split: if_splits)
next
  case (TRecv j k)
  then have "rt_sender t = rt_sender s \<and> (rt_failed s \<longrightarrow> rt_failed t)" using st h
    by (cases "rt_receiver s j") (auto simp: rtest_step_def receiver_step_def hollow_def split: if_splits)
  then show ?thesis using inv by (cases kind) (auto simp: stub_test_inv_def)
next
  case TMain
  then have "rt_sender t = rt_sender s \<and> (rt_failed s \<longrightarrow> rt_failed t)" using st
    by (cases "rt_main s") (auto simp: rtest_step_def test_main_step_def split: if_splits)
  then show ?thesis using inv by (cases kind) (auto simp: stub_test_inv_def)
qed

lemma stub_test_machine:
  assumes "hollow ops"
  shows "machine_inv (rtest_step ops kind n m) (rtest_init kind new buff) (stub_test_inv kind)"
proof unfold_locales
  show "stub_test_inv kind (rtest_init kind new buff)" by (cases kind) (simp_all add: stub_test_inv_def rtest_init_def)
qed (rule stub_test_step [OF assms])

text \<open>\<^verbatim>\<open>RunTest\<close> ends only when all senders have; a sender that cannot be stopped can always go on.\<close>

lemma ended_senders: "reach (rtest_step ops kind n m) (rtest_init kind new buff) s \<Longrightarrow> rtest_ended s \<longrightarrow> (\<forall>i<n. rt_sender s i = SnDone)"
proof (induction rule: reach.induct)
  case reach_init
  show ?case by (simp add: rtest_ended_def rtest_init_def)
next
  case (reach_step s who t)
  then show ?case
    by (cases who) (auto simp: rtest_ended_def rtest_step_def sender_step_def receiver_step_def test_main_step_def list_all_iff
        fetch_add_def fetch_sub_def split: if_splits sender_pc.splits receiver_pc.splits test_pc.splits option.splits prod.splits bool.splits)
qed

lemma hollow_sender_enabled: "hollow ops \<Longrightarrow> rt_sender s i \<noteq> SnDone \<Longrightarrow> \<exists>t. sender_step ops kind i s = Some t"
  by (cases "rt_sender s i") (auto simp: sender_step_def hollow_def fetch_add_def fetch_sub_def)

text \<open>The unbuffered test never ends on a channel that does nothing, and never stops.\<close>

theorem unbuffered_test_never_ends:
  assumes h: "hollow ops" and n: "0 < n" and r: "reach (rtest_step ops UnbufferedTest n m) (rtest_init UnbufferedTest new buff) s"
  shows "\<not> rtest_ended s \<and> \<not> stuck (rtest_step ops UnbufferedTest n m) s"
proof -
  have "stub_test_inv UnbufferedTest s" by (rule machine_inv.reach_inv [OF stub_test_machine [OF h] r])
  then have nd: "rt_sender s 0 \<noteq> SnDone" by (simp add: stub_test_inv_def)
  then obtain t where "sender_step ops UnbufferedTest 0 s = Some t" using hollow_sender_enabled [OF h] by blast
  then have "rtest_step ops UnbufferedTest n m (TSend 0) s = Some t" using n by (simp add: rtest_step_def)
  then have "\<not> stuck (rtest_step ops UnbufferedTest n m) s" unfolding stuck_def by (metis option.distinct(1))
  moreover have "\<not> rtest_ended s" using ended_senders [OF r] nd n by blast
  ultimately show ?thesis by blast
qed

text \<open>The buffered test fails whenever it ends.\<close>

theorem buffered_test_fails:
  assumes h: "hollow ops" and n: "0 < n"
  shows "\<not> RunTest ops new BufferedTest n m buff True"
proof
  assume "RunTest ops new BufferedTest n m buff True"
  then obtain s where s: "reach (rtest_step ops BufferedTest n m) (rtest_init BufferedTest new buff) s" "rtest_ended s" "\<not> rt_failed s"
    by (auto simp: RunTest_def)
  have "stub_test_inv BufferedTest s" by (rule machine_inv.reach_inv [OF stub_test_machine [OF h] s(1)])
  then show False using ended_senders [OF s(1)] s(2,3) n by (auto simp: stub_test_inv_def)
qed

section \<open>Properties\<close>

lemma buffered_test_new: "0 < q \<Longrightarrow> buffered_new q = buffered_new (1 + int (nat (q - 1)))"
  by simp

text \<open>All tests of group \<^verbatim>\<open>Correctness\<close> pass on the reference channels.\<close>

theorem correctness_tests_pass:
  "(\<forall>(n, m, q) \<in> set buffered_tests. RunTest buffered_ops (buffered_new q) BufferedTest n m q passed \<longleftrightarrow> passed) \<and>
   (\<forall>(n, m) \<in> set unbuffered_tests. RunTest unbuffered_ops unbuffered_new UnbufferedTest n m q passed \<longleftrightarrow> passed)"
proof (intro conjI ballI; clarify)
  fix n m q
  assume "(n, m, q) \<in> set buffered_tests"
  then have p: "0 < q" "0 < m" "int (Suc (nat (q - 1))) \<le> q \<and> q + int m + 2 * int n < 2 ^ 31" by (auto simp: buffered_tests_def)
  show "RunTest buffered_ops (buffered_new q) BufferedTest n m q passed \<longleftrightarrow> passed"
    unfolding buffered_test_new [OF p(1)] using p(2,3) by (rule buffered.RunTest_passes)
next
  fix n m :: nat
  assume "(n, m) \<in> set unbuffered_tests"
  then have "0 < m" by (auto simp: unbuffered_tests_def)
  then show "RunTest unbuffered_ops unbuffered_new UnbufferedTest n m q passed \<longleftrightarrow> passed"
    by (rule unbuffered.RunTest_passes) simp
qed

text \<open>C17: \<^verbatim>\<open>RunTest\<close> accepts every channel that keeps the contract of \<open>Channel_Spec\<close>. For any channel of which this is assumed, with
  any number of senders and any positive number of receivers, and for the test of the buffered channel a channel that keeps no
  more values than its buffer size: no assertion fails on any schedule, the free slots and the comparison of the values
  sent and received included, and the test can end; once the channel is closed every schedule is bounded, and one that
  cannot go on has ended. On the channels as they are in the header files the buffered test fails whenever it ends, and the
  unbuffered test never ends and never stops.\<close>

theorem channel_tests_pass:
  assumes "bounded_channel ops new calls stored closed ok cap" and "0 < m"
    and "kind = BufferedTest \<longrightarrow> int cap \<le> q \<and> q + int m + 2 * int n < 2 ^ 31"
  shows "(RunTest ops new kind n m q passed \<longleftrightarrow> passed) \<and>
    ends_after_close ops new kind n m q (8 * n + 4 * m + 3 * cap + 3) \<and>
    (0 < n \<longrightarrow> \<not> RunTest buffered_stub (BufferedChannel q) BufferedTest n m q True \<and>
      (\<forall>s. reach (rtest_step unbuffered_stub UnbufferedTest n m) (rtest_init UnbufferedTest UnbufferedChannel q) s \<longrightarrow>
         \<not> rtest_ended s \<and> \<not> stuck (rtest_step unbuffered_stub UnbufferedTest n m) s))"
proof (intro conjI impI allI)
  have cap: "int cap \<le> q \<and> q + int m + 2 * int n < 2 ^ 31" if "kind = BufferedTest" using assms(3) that by blast
  show "RunTest ops new kind n m q passed \<longleftrightarrow> passed" using assms(1,2) cap by (rule bounded_channel.RunTest_passes)
  show "ends_after_close ops new kind n m q (8 * n + 4 * m + 3 * cap + 3)"
    using assms(1,2) cap by (rule bounded_channel.rtest_ends_after_close)
next
  assume n: "0 < n"
  show "\<not> RunTest buffered_stub (BufferedChannel q) BufferedTest n m q True" using hollow_stubs(1) n by (rule buffered_test_fails)
  fix s
  assume "reach (rtest_step unbuffered_stub UnbufferedTest n m) (rtest_init UnbufferedTest UnbufferedChannel q) s"
  from unbuffered_test_never_ends [OF hollow_stubs(2) n this]
  show "\<not> rtest_ended s" "\<not> stuck (rtest_step unbuffered_stub UnbufferedTest n m) s" by (rule conjunct1, rule conjunct2)
qed

text \<open>The reference channels keep the contract, so the property applies to them.\<close>

theorem channel_tests_pass_witness:
  "RunTest buffered_ops (buffered_new 3) BufferedTest 4 1 3 True \<and>
   \<not> RunTest unbuffered_ops unbuffered_new UnbufferedTest 4 1 3 False \<and>
   ends_after_close buffered_ops (buffered_new 3) BufferedTest 4 1 3 48 \<and>
   \<not> RunTest buffered_stub (BufferedChannel 3) BufferedTest 4 1 3 True"
  using channel_tests_pass [OF buffered.bounded_channel_axioms [of 2], of 1 BufferedTest 3 4 True]
    channel_tests_pass [OF unbuffered.bounded_channel_axioms, of 1 UnbufferedTest 3 4 False] by simp

end
