(* ===== verification/Block_Test.thy ===== *)
theory Block_Test
  imports Channel_Spec
begin

text \<open>
  \<^verbatim>\<open>BlockRun\<close> in \<^verbatim>\<open>test.cpp\<close> of the unbuffered channel: a sender and a receiver of three values, one of which is slow, while the
  other measures how long its call waits. The clock is part of the state and counts milliseconds; time passes
  in steps of their own, by any amount, also while a thread could move.

  On a channel that keeps its contract the values are right on every schedule. The measured times depend on the schedule: the
  test can pass, and a thread that is delayed makes it fail; the thread whose assertion fails returns, and if it is the sender, without
  closing the channel, so that the test does not report the failure but hangs.
\<close>

section \<open>\<open>BlockRun\<close>\<close>

datatype block_type = BlockSender | BlockReceiver












datatype block_who = BlSend | BlRecv | BlTime nat



section \<open>Termination\<close>









section \<open>On a channel that keeps its contract\<close>





section \<open>On the channel as handed out\<close>




section \<open>Schedules\<close>

text \<open>One iteration in which the other thread is as fast as it can be, and the end.\<close>

fun block_round :: "block_type \<Rightarrow> block_who list" where
  "block_round BlockSender =
     [BlSend, BlSend, BlSend, BlRecv, BlTime 400, BlRecv, BlRecv, BlRecv, BlSend, BlSend, BlRecv, BlRecv]"
| "block_round BlockReceiver =
     [BlRecv, BlRecv, BlSend, BlTime 400, BlSend, BlSend, BlSend, BlRecv, BlSend, BlSend, BlRecv, BlRecv]"

definition block_prompt :: "block_type \<Rightarrow> block_who list" where
  "block_prompt ty = concat (replicate 3 (block_round ty)) @ [BlSend, BlRecv, BlSend, BlRecv]"




section \<open>Properties\<close>




end
