(* ===== verification/Echo_Server.thy ===== *)
theory Echo_Server
  imports Prelude
begin

text \<open>
  \<^verbatim>\<open>structured_concurrency/echo_server.cpp\<close>: the sketch of a server that starts a thread for every connection.
  Class \<^verbatim>\<open>Socket\<close> is declared only, so the sockets are an argument: what a socket with a given address accepts, and what each
  connection sends. The thread object
  is a local variable of the loop body: it is destroyed at the end of the iteration without having been joined or
  detached, which ends the program. The function that validates the data has an empty body although it returns a \<^verbatim>\<open>bool\<close>;
  a call of it is undefined behaviour.
\<close>

text \<open>A socket by what its calls return: the connections of \<^verbatim>\<open>Accept\<close>, one after the other, and the data of \<^verbatim>\<open>Receive\<close> on
  each. \<^verbatim>\<open>Send\<close> is not called.\<close>

record 'conn socket =
  sk_accept :: "'conn list"
  sk_receive :: "'conn \<Rightarrow> string"

datatype server_context = ServerContext

text \<open>Program points of \<^verbatim>\<open>main\<close>: in \<^verbatim>\<open>Accept\<close>, at the end of the loop body with a joinable thread; of
  \<^verbatim>\<open>ServeClient\<close>: not running, before \<^verbatim>\<open>Receive\<close>, before the validation with the data received.\<close>

datatype es_main = EsAccept | EsScopeEnd

datatype 'conn es_client = EsNone | EsReceive 'conn | EsValidate string

datatype es_status = EsRunning | EsTerminated | EsUndefined

record 'conn server =
  es_server :: "'conn socket"
  es_ctx :: server_context
  es_pending :: "'conn list"
  es_served :: "'conn list"
  es_main :: es_main
  es_client :: "'conn es_client"
  es_status :: es_status

text \<open>\<open>net\<close> is the constructor of \<^verbatim>\<open>Socket\<close>.\<close>

definition server_init :: "(string \<Rightarrow> 16 word \<Rightarrow> 'conn socket) \<Rightarrow> 'conn server" where
  "server_init net =
     \<lparr>es_server = net ''localhost'' 8080, es_ctx = ServerContext, es_pending = sk_accept (net ''localhost'' 8080),
      es_served = [], es_main = EsAccept, es_client = EsNone, es_status = EsRunning\<rparr>"

text \<open>\<^verbatim>\<open>Accept\<close> blocks while there is no connection. The destructor of a joinable \<^verbatim>\<open>std::thread\<close> calls
  \<^verbatim>\<open>std::terminate\<close>.\<close>

definition server_main_step :: "'conn server \<Rightarrow> 'conn server option" where
  "server_main_step s =
     (case es_main s of
        EsAccept \<Rightarrow>
          (case es_pending s of
             [] \<Rightarrow> None
           | c # cs \<Rightarrow> Some (s\<lparr>es_pending := cs, es_served := es_served s @ [c], es_client := EsReceive c, es_main := EsScopeEnd\<rparr>))
      | EsScopeEnd \<Rightarrow> Some (s\<lparr>es_status := EsTerminated\<rparr>))"

definition ServeClient :: "'conn server \<Rightarrow> 'conn server option" where
  "ServeClient s =
     (case es_client s of
        EsNone \<Rightarrow> None
      | EsReceive clientSocket \<Rightarrow> Some (s\<lparr>es_client := EsValidate (sk_receive (es_server s) clientSocket)\<rparr>)
      | EsValidate data \<Rightarrow> Some (s\<lparr>es_status := EsUndefined\<rparr>))"

definition server_step :: "(bool, 'conn server) machine" where
  "server_step who s = (if es_status s \<noteq> EsRunning then None else if who then server_main_step s else ServeClient s)"

definition server_inv :: "'conn list \<Rightarrow> 'conn server \<Rightarrow> bool" where
  "server_inv conns s \<longleftrightarrow>
     (es_status s = EsRunning \<and> es_main s = EsAccept \<and> es_client s = EsNone \<and> es_served s = [] \<and> es_pending s = conns) \<or>
     (es_main s = EsScopeEnd \<and> es_client s \<noteq> EsNone \<and> (\<exists>c cs. conns = c # cs \<and> es_served s = [c]))"

fun ec_weight :: "'conn es_client \<Rightarrow> nat" where
  "ec_weight EsNone = 0" | "ec_weight (EsReceive c) = 1" | "ec_weight (EsValidate data) = 0"

definition server_rank :: "'conn server \<Rightarrow> nat" where
  "server_rank s = (if es_main s = EsAccept then 2 else 0) + ec_weight (es_client s) + (if es_status s = EsRunning then 1 else 0)"

definition connections :: "(string \<Rightarrow> 16 word \<Rightarrow> 'conn socket) \<Rightarrow> 'conn list" where
  "connections net = sk_accept (net ''localhost'' 8080)"

interpretation server: machine_term server_step "server_init net" "server_inv (connections net)" server_rank
  "\<lambda>s. es_status s \<noteq> EsRunning \<or> connections net = []" for net :: "string \<Rightarrow> 16 word \<Rightarrow> 'conn socket"
proof unfold_locales
  show "server_inv (connections net) (server_init net)" by (simp add: server_inv_def server_init_def connections_def)
  show "server_inv (connections net) t" if "server_inv (connections net) s" "server_step who s = Some t" for s t :: "'conn server" and who
    using that by (cases "connections net") (auto simp: server_inv_def server_step_def server_main_step_def ServeClient_def
        split: if_splits es_client.splits list.splits)
  show "\<exists>who t. server_step who s = Some t" if "server_inv (connections net) s" "\<not> (es_status s \<noteq> EsRunning \<or> connections net = [])" for s
  proof -
    have "\<exists>t. server_step True s = Some t"
      using that by (auto simp: server_inv_def server_step_def server_main_step_def neq_Nil_conv)
    then show ?thesis by blast
  qed
  show "server_rank t < server_rank s" if "server_inv (connections net) s" "server_step who s = Some t" for s t :: "'conn server" and who
    using that by (auto simp: server_inv_def server_step_def server_main_step_def ServeClient_def server_rank_def
        split: if_splits es_client.splits list.splits)
qed

text \<open>The server does not survive its first connection: as soon as there is one, every schedule has at
  most four steps, ends in \<^verbatim>\<open>std::terminate\<close> or in undefined behaviour, and accepts no other connection; and
  \<^verbatim>\<open>std::terminate\<close> does happen.\<close>

theorem server_dies:
  assumes "connections net = c # cs"
  shows "(\<forall>sched s. run server_step sched (server_init net) = Some s \<longrightarrow> length sched \<le> 4 \<and> length (es_served s) \<le> 1) \<and>
    (\<forall>s. reach server_step (server_init net) s \<and> stuck server_step s \<longrightarrow> es_status s \<noteq> EsRunning) \<and>
    (\<exists>s. reach server_step (server_init net) s \<and> es_status s = EsTerminated)"
proof (intro conjI allI impI)
  show "length sched \<le> 4" if "run server_step sched (server_init net) = Some s" for sched s
    using server.run_length [OF that] by (simp add: server_rank_def server_init_def)
  show "length (es_served s) \<le> 1" if "run server_step sched (server_init net) = Some s" for sched s
    using server.run_inv [OF that] by (auto simp: server_inv_def)
  show "es_status s \<noteq> EsRunning" if "reach server_step (server_init net) s \<and> stuck server_step s" for s
    using server.live.stuck_final [of net s] that assms by simp
  have "\<exists>s. run server_step [True, True] (server_init net) = Some s \<and> es_status s = EsTerminated"
    using assms by (simp add: server_step_def server_main_step_def server_init_def connections_def)
  then show "\<exists>s. reach server_step (server_init net) s \<and> es_status s = EsTerminated"
    using run_imp_reach by metis
qed

end
