(* ===== verification/Spec2Isabelle.thy ===== *)
theory Spec2Isabelle
  imports Mutex Data_Race Atomics CVLock Deadlock Guards Futex_Latch Stack_Mutex Stack_LockFree Stack_Buffered Shm_Channel Pipe_Failures Mqueue_Failures Worker_Thread False_Sharing Futures Thread_Pool Senders Fork Exec Threads_Intro Signals Channel_Bench Channel_Test Block_Test Echo_Server
begin

text \<open>
  A verification development for the programs of the course on multithreading in this repository.
  The repository is a collection of small C++ programs, each with its own \<^verbatim>\<open>main\<close>, on threads, processes,
  synchronisation, inter-process communication, lock-free data structures and structured concurrency.
  The programs share one header, \<^verbatim>\<open>include/utils/error.hpp\<close>; otherwise each stands alone. What they have in common is
  that their threads and processes interleave, and that is how they are modelled.

  \<^bold>\<open>The model of a program.\<close> A program is a labelled machine (theory \<open>Prelude\<close>): a function
  \<open>step :: 'l \<Rightarrow> 's \<Rightarrow> 's option\<close> on a record of its shared variables, the program points of its threads and what it has
  printed. A label names the thread that moves and the outcome of what the scheduler, the kernel or the
  C++ standard leaves open (a spurious wake-up, a failing weak compare-and-exchange, the number of bytes
  of a \<^verbatim>\<open>read\<close>); \<open>None\<close> says that the step is not possible: the thread is blocked or has finished. A step
  is what is atomic: one operation on an atomic variable, one access to a shared variable, one
  call of the kernel, one print. Atomic operations are sequentially consistent, which is the default and what the
  programs use. A schedule is a list of labels, \<open>reach\<close> are the states of all schedules, \<open>stuck\<close> those in which nothing
  can move. Three locales hold the reasoning: \<open>machine_inv\<close> (an invariant holds in every reachable
  state), \<open>machine_live\<close> (a final state can be reached from every reachable state: neither deadlock nor a trap),
  \<open>machine_term\<close> (every schedule is bounded by the rank of the first state, and one that cannot be
  continued has reached a final state). The concurrent programs interpret
  one of them, so no fuel is needed anywhere; where a program can hang, the hang is a theorem. Loop counts and numbers of threads are parameters
  wherever the code would allow it; the constants of \<^verbatim>\<open>main\<close> are instances.

  \<^bold>\<open>Locks\<close> (\<^verbatim>\<open>synchronization_primitives/mutex\<close>, \<^verbatim>\<open>condition_variable\<close>, \<^verbatim>\<open>sync_intro\<close>). Theory \<open>Harness\<close>: the loop of a thousand
  experiments and the line that counts them. \<open>Locks\<close>: the program that increments under a lock, over an
  interface of locks, proved once for every lock with mutual exclusion. \<open>Mutex\<close> interprets it for \<^verbatim>\<open>std::mutex\<close> and for
  \<^verbatim>\<open>Spinlock\<close>: no update is lost, the first program terminates, the second can always be completed. \<open>CVLock\<close>: the lock of
  \<^verbatim>\<open>condvar_intro.cpp\<close>, which is not one: two threads can be inside and updates are lost, but no thread
  sleeps for ever, even without spurious wake-ups. \<open>Data_Race\<close>: the
  unsynchronised increments, with exactly the sums from 2 to 2000. \<open>Deadlock\<close>: \<^verbatim>\<open>Deadlock\<close>, \<^verbatim>\<open>NoDeadlock\<close> and \<^verbatim>\<open>Livelock\<close>. \<open>Guards\<close>:
  \<^verbatim>\<open>lock_guard.cpp\<close> (an early return that leaves the mutex locked), \<^verbatim>\<open>recursive_mutex.cpp\<close>, and \<^verbatim>\<open>shared_mutex.cpp\<close>, whose
  methods access the vector in several steps under the mutex and are linearizable. \<open>Worker_Thread\<close>: class \<^verbatim>\<open>Worker\<close> of \<^verbatim>\<open>condition_variable_any.cpp\<close>: tasks run in order and at
  most once, and the destructor hangs.

  \<^bold>\<open>Atomics, latches and barriers\<close> (\<^verbatim>\<open>synchronization_primitives/atomics\<close>, \<^verbatim>\<open>barrier\<close>, \<^verbatim>\<open>futex\<close>, \<^verbatim>\<open>cache\<close>). \<open>Std_Atomic\<close> and \<open>Atomics\<close>: the
  operations of \<^verbatim>\<open>std::atomic<int>\<close> on 32-bit words and the four programs that use them. \<open>Futex_Latch\<close>: class \<^verbatim>\<open>Latch\<close> at the
  level of its futex calls: \<^verbatim>\<open>Wait\<close> returns only when all have counted down, and no wake-up is lost.
  \<open>Barriers\<close>: \<^verbatim>\<open>barrier.cpp\<close> and \<^verbatim>\<open>latch.cpp\<close> end and print their phases in order. \<open>False_Sharing\<close>: \<^verbatim>\<open>false_sharing.cpp\<close>.

  \<^bold>\<open>Stacks\<close> (\<^verbatim>\<open>lock_free/spsc_stack.cpp\<close>, \<^verbatim>\<open>ipc/shm_atomics.cpp\<close>). \<open>Stack_Spec\<close>: an atomic stack as the abstract
  specification, refinement, the interface of a stack with one producer and one consumer, and \<^verbatim>\<open>main\<close> as its client.
  \<open>Stack_Mutex\<close>, \<open>Stack_LockFree\<close>, \<open>Stack_Buffered\<close>: the three classes. The first two refine the
  specification, the second with its heap, for any number of producers, and without a use of freed memory exactly when at most one thread
  pops; the third keeps its bounds, and a call that runs alone does what a stack does, through any number of spurious failures, but
  concurrent calls can return a stale element, because it publishes the index before it writes the element.

  \<^bold>\<open>Processes and their communication\<close> (\<^verbatim>\<open>ipc\<close>, \<^verbatim>\<open>processes_and_threads\<close>). \<open>Sys_Error\<close>: \<^verbatim>\<open>CHECK_ERROR\<close> with its log, the printing of a
  character array, and the locale \<open>failing_calls\<close> of two processes whose calls may fail. The results of system calls that are checked before
  the processes start are arguments of the definitions; after that a failing call is a step, on which its process exits. \<open>Shm_Channel\<close>: lines
  through shared memory and two semaphores (\<^verbatim>\<open>shm_intro.cpp\<close>, \<^verbatim>\<open>mmap_intro.cpp\<close>), with the clean-up calls and what a failing call leaves
  behind. \<open>Pipes\<close>: lines
  through a pipe or FIFO with partial reads and writes and the ends each process has open; \<open>Pipe_Failures\<close>: the same programs when calls
  fail. \<open>Mqueue\<close>: lines through a message
  queue, with the race between opening and unlinking its path; \<open>Mqueue_Failures\<close>: the same when calls fail. \<open>Signals\<close>: \<^verbatim>\<open>signals.cpp\<close> and \<^verbatim>\<open>sema.cpp\<close>. \<open>Fork\<close>: the exit status and
  its round trip, separate memory, the shared file offset. \<open>Exec\<close>: \<^verbatim>\<open>exec_fd.cpp\<close> with \<^verbatim>\<open>writer.cpp\<close> (descriptors across \<^verbatim>\<open>exec\<close>,
  the round trip of the descriptor as text) and \<^verbatim>\<open>exec_intro.cpp\<close> with \<^verbatim>\<open>dummy.cpp\<close> (arguments and environments). \<open>Threads_Intro\<close>:
  \<^verbatim>\<open>pthread_intro.cpp\<close> (whose error checks never fire), \<^verbatim>\<open>stl_intro.cpp\<close>, \<^verbatim>\<open>jthread.cpp\<close>.

  \<^bold>\<open>Structured concurrency\<close> (\<^verbatim>\<open>structured_concurrency\<close>). \<open>Futures\<close>: \<^verbatim>\<open>async.cpp\<close>, \<^verbatim>\<open>future.cpp\<close> and \<^verbatim>\<open>shared_future.cpp\<close>,
  equal to a sequential reference definition. \<open>Thread_Pool\<close>: the pool of \<^verbatim>\<open>packaged_task.cpp\<close>: a data race in
  \<^verbatim>\<open>Submit\<close>, with which an execution ends, and for all others mutual exclusion in \<^verbatim>\<open>GetTask\<close> and the whole output of \<^verbatim>\<open>main\<close>. \<open>Senders\<close>: \<^verbatim>\<open>continuations.cpp\<close> and
  \<^verbatim>\<open>stdexec_intro.cpp\<close>, with the library stdexec as a parameter whose documented laws are hypotheses. \<open>Echo_Server\<close>:
  \<^verbatim>\<open>echo_server.cpp\<close>, which ends with its first connection.

  \<^bold>\<open>Exercises\<close> (\<^verbatim>\<open>tasks\<close>). \<open>Channel_Spec\<close>: the two channels as they are handed out, whose operations do nothing, and the contract
  that the task descriptions ask of a channel, as the locales \<open>channel\<close> and \<open>bounded_channel\<close>. No channel of the repository keeps it: the
  clients take the channel as a parameter, and the contract is a hypothesis of their properties. Two reference channels, which
  translate no code, show that it can be met. \<open>Channel_Test\<close>: the tests pass on a channel that
  keeps it; on the channels handed out the one fails and the other never ends. \<open>Block_Test\<close>: the test that measures how long calls
  wait, with a clock. \<open>Channel_Bench\<close>: the benchmarks end with the
  expected sum on a channel that keeps the contract, and fail on the channels handed out.

  \<^bold>\<open>Not modelled.\<close> Sleeps, and time in general (except in \<open>Block_Test\<close>): they make some schedules likely, and the theorems are
  about all of them. The interleaving of the characters of two prints. The relaxed behaviour of
  non-atomic accesses: a data race is shown as a reachable state, or the accesses are separate steps. Failures of
  \<^verbatim>\<open>wait\<close> in \<^verbatim>\<open>signals.cpp\<close>, which does not look at its result, of \<^verbatim>\<open>wait\<close> and \<^verbatim>\<open>munmap\<close> at the end of \<^verbatim>\<open>shm_atomics.cpp\<close>, and
  short writes to regular files. The
  static assertions of \<^verbatim>\<open>atomic_operations.cpp\<close>, which are about the target. What the libraries for tests and benchmarks do. The cost of false sharing.
\<close>

end
